(* ===== verification/Prelude.thy ===== *)
theory Prelude
  imports Main "HOL-Library.Word" "HOL-Library.Signed_Division" "HOL-Library.Multiset"
begin

text \<open>
  Shared material of the development: the names of the machine types, the faults a C++
  operation of the program can end in, checked vector access, the result monad in which
  every fallible operation is written, and the loop combinator \<open>rfold\<close> with its
  invariant rules. The collections \<open>pool_simps\<close> and \<open>inv_intros\<close> are filled by the
  component theories.
\<close>

section \<open>Names of the machine types\<close>

type_synonym byte = "8 word"
type_synonym u32 = "32 word"
type_synonym u64 = "64 word"

named_theorems pool_simps "unfolding equations of the page pools"
named_theorems inv_intros "introduction rules for the components' invariants"

section \<open>Faults\<close>

text \<open>
  What a call can end in besides returning: an exception the source throws, or undefined
  behaviour (an index outside a vector, a signed overflow, a division by zero, a pointer to a destroyed
  object, a broken precondition of a library call), or a failed \<open>assert\<close>. A model that reaches undefined behaviour returns the fault instead of a value.
\<close>

datatype fault =
    Index_UB
  | Overflow_UB
  | Div_zero
  | Use_after_free
  | Length_error
  | Assert_abort
  | Precondition_UB
  | Null_UB
  | Runtime_error string
  | Invalid_argument string

type_synonym 'a res = "fault + 'a"

definition rbind :: "'a res \<Rightarrow> ('a \<Rightarrow> 'b res) \<Rightarrow> 'b res" where
  "rbind r f = (case r of Inl e \<Rightarrow> Inl e | Inr x \<Rightarrow> f x)"

lemma rbind_simps [simp]:
  "rbind (Inl e) f = Inl e"
  "rbind (Inr x) f = f x"
  by (simp_all add: rbind_def)

lemma rbind_Inr_iff: "rbind r f = Inr y \<longleftrightarrow> (\<exists>x. r = Inr x \<and> f x = Inr y)"
  by (cases r) simp_all

lemma rbind_InrE [elim!]:
  assumes "rbind r f = Inr y"
  obtains x where "r = Inr x" "f x = Inr y"
  using assms by (auto simp: rbind_Inr_iff)

lemma rbind_assoc: "rbind (rbind r f) g = rbind r (\<lambda>x. rbind (f x) g)"
  by (cases r) simp_all

section \<open>Integer conversions\<close>

text \<open>\<open>static_cast<int>\<close> of a \<open>size_t\<close>: the low 32 bits, read as two's complement.\<close>

definition cast_int :: "nat \<Rightarrow> int" where
  "cast_int n = signed_take_bit 31 (int n)"

lemma cast_int_small [simp]: "n < 2 ^ 31 \<Longrightarrow> cast_int n = int n"
  by (simp add: cast_int_def signed_take_bit_int_eq_self)

lemma cast_int_bounds: "- (2 ^ 31) \<le> cast_int n \<and> cast_int n < 2 ^ 31"
  using signed_take_bit_int_greater_eq_minus_exp [of 31 "int n"]
    signed_take_bit_int_less_exp [of 31 "int n"]
  by (simp add: cast_int_def)

text \<open>The value of a signed \<open>int\<close> expression, undefined when it does not fit.\<close>

definition int_val :: "int \<Rightarrow> int res" where
  "int_val x = (if - (2 ^ 31) \<le> x \<and> x < 2 ^ 31 then Inr x else Inl Overflow_UB)"

lemma int_val_fits [simp]: "0 \<le> x \<Longrightarrow> x < 2 ^ 31 \<Longrightarrow> int_val x = Inr x"
  by (simp add: int_val_def)

text \<open>Reading a \<open>uint32_t\<close> back as an \<open>int\<close>.\<close>

lemma sint_word_of_nat_small [simp]: "n < 2 ^ 31 \<Longrightarrow> sint (word_of_nat n :: u32) = int n"
  by (simp add: sint_uint unsigned_of_nat take_bit_nat_eq_self signed_take_bit_int_eq_self)

section \<open>Vectors indexed by a signed integer\<close>

definition vec_at :: "'a list \<Rightarrow> int \<Rightarrow> 'a res" where
  "vec_at xs i = (if 0 \<le> i \<and> i < int (length xs) then Inr (xs ! nat i) else Inl Index_UB)"

definition in_range :: "'a list \<Rightarrow> int \<Rightarrow> bool" where
  "in_range xs i \<longleftrightarrow> 0 \<le> i \<and> i < int (length xs)"

lemma vec_at_in_range [simp]: "in_range xs i \<Longrightarrow> vec_at xs i = Inr (xs ! nat i)"
  by (simp add: vec_at_def in_range_def)

lemma vec_at_Inr_iff: "vec_at xs i = Inr x \<longleftrightarrow> in_range xs i \<and> x = xs ! nat i"
  by (auto simp: vec_at_def in_range_def)

lemma vec_at_Inl: "vec_at xs i = Inl e \<Longrightarrow> e = Index_UB \<and> \<not> in_range xs i"
  by (auto simp: vec_at_def in_range_def split: if_splits)

lemma in_range_update [simp]: "in_range (xs[k := v]) i = in_range xs i"
  by (simp add: in_range_def)

lemma in_range_int [simp]: "in_range xs (int k) \<longleftrightarrow> k < length xs"
  by (simp add: in_range_def)

lemma in_range_nat: "in_range xs i \<Longrightarrow> nat i < length xs \<and> int (nat i) = i"
  by (auto simp: in_range_def)

lemma in_range_nat_eq: "in_range xs i \<Longrightarrow> in_range xs j \<Longrightarrow> nat i = nat j \<longleftrightarrow> i = j"
  by (auto simp: in_range_def)

lemma nth_update_in_range:
  "in_range xs i \<Longrightarrow> in_range xs j \<Longrightarrow>
    xs[nat i := v] ! nat j = (if i = j then v else xs ! nat j)"
  by (auto simp: in_range_def nth_list_update)

section \<open>Loops over a range with a mutable state\<close>

text \<open>\<open>for (auto x : xs) body\<close>, where the body may fault.\<close>

primrec rfold :: "('a \<Rightarrow> 's \<Rightarrow> 's res) \<Rightarrow> 'a list \<Rightarrow> 's \<Rightarrow> 's res" where
  "rfold f [] s = Inr s"
| "rfold f (x # xs) s = rbind (f x s) (rfold f xs)"

lemma rfold_append: "rfold f (xs @ ys) s = rbind (rfold f xs s) (rfold f ys)"
  by (induction xs arbitrary: s) (auto simp: rbind_def split: sum.splits)

lemma rfold_cong_set: "(\<And>x s. x \<in> set xs \<Longrightarrow> f x s = g x s) \<Longrightarrow> rfold f xs s = rfold g xs s"
  by (induction xs arbitrary: s) (auto simp: rbind_def split: sum.splits)

lemma rfold_total:
  assumes "P s" and "\<And>x s. x \<in> set xs \<Longrightarrow> P s \<Longrightarrow> \<exists>s'. f x s = Inr s' \<and> P s'"
  shows "\<exists>s'. rfold f xs s = Inr s' \<and> P s'"
  using assms
proof (induction xs arbitrary: s)
  case Nil
  then show ?case by simp
next
  case (Cons x xs)
  from Cons.prems obtain s1 where s1: "f x s = Inr s1" "P s1" by force
  have "\<exists>s'. rfold f xs s1 = Inr s' \<and> P s'"
    by (rule Cons.IH [OF s1(2)]) (simp add: Cons.prems(2))
  with s1 show ?case by simp
qed

lemma rfold_keeps:
  assumes "rfold f xs s = Inr s'" and "P s"
    and "\<And>x s s'. x \<in> set xs \<Longrightarrow> P s \<Longrightarrow> f x s = Inr s' \<Longrightarrow> P s'"
  shows "P s'"
  using assms
proof (induction xs arbitrary: s)
  case Nil
  then show ?case by simp
next
  case (Cons x xs)
  from Cons.prems(1) obtain s1 where s1: "f x s = Inr s1" "rfold f xs s1 = Inr s'"
    by auto
  have "P s1" by (rule Cons.prems(3) [OF _ Cons.prems(2) s1(1)]) simp
  then show ?case using Cons.prems(3) by (blast intro: Cons.IH [OF s1(2)] list.set_intros)
qed

section \<open>Lists\<close>

lemma distinct_butlast_last: "xs \<noteq> [] \<Longrightarrow> distinct xs \<Longrightarrow> last xs \<notin> set (butlast xs)"
  by (metis append_butlast_last_id distinct_butlast not_distinct_conv_prefix)

lemma set_butlast_distinct:
  "xs \<noteq> [] \<Longrightarrow> distinct xs \<Longrightarrow> set (butlast xs) = set xs - {last xs}"
  by (metis Diff_insert_absorb append_butlast_last_id butlast.simps(2)
      distinct_butlast_last list.simps(15) rotate1.simps(2) set_rotate1)

lemma length_filter_update:
  assumes "i < length xs"
  shows "int (length (filter P (xs[i := v]))) =
    int (length (filter P xs)) - (if P (xs ! i) then 1 else 0) + (if P v then 1 else 0)"
  using assms
proof (induction xs arbitrary: i)
  case Nil
  then show ?case by simp
next
  case (Cons x xs)
  show ?case
  proof (cases i)
    case 0
    then show ?thesis by simp
  next
    case (Suc k)
    with Cons.prems Cons.IH [of k] show ?thesis by (auto split: if_splits)
  qed
qed

lemma length_filter_same:
  "i < length xs \<Longrightarrow> P v = P (xs ! i) \<Longrightarrow> length (filter P (xs[i := v])) = length (filter P xs)"
  using length_filter_update [of i xs P v] by (simp split: if_splits)

lemma upto_map_int: "[0..int n - 1] = map int [0..<n]"
  by (induction n) (simp_all add: upto_rec2)

lemma in_concat_nth: "x \<in> set (concat st) \<longleftrightarrow> (\<exists>k<length st. x \<in> set (st ! k))"
  by (metis (no_types, lifting) UN_iff in_set_conv_nth set_concat)

end
