(* ===== verification/Page_Source.thy ===== *)
theory Page_Source
  imports Prelude
begin

text \<open>
  The contract between a page allocator and its clients: what \<open>alloc\<close> and
  \<open>free_pages\<close> of \<open>PagePool\<close>, \<open>PagePoolFast\<close> and \<open>PagePoolNUMA\<close> promise of the set
  of available page ids. \<open>owns\<close> is the client's side, an assignment of pages to owners
  in which no page has two owners and no owned page is available; the lemmas of the
  locale show that allocation and release keep it.
\<close>

definition owns :: "int set \<Rightarrow> int set \<Rightarrow> 'k set \<Rightarrow> ('k \<Rightarrow> int list) \<Rightarrow> bool" where
  "owns uni av K held \<longleftrightarrow>
     (\<forall>k\<in>K. distinct (held k) \<and> set (held k) \<subseteq> uni - av) \<and>
     (\<forall>k\<in>K. \<forall>l\<in>K. k \<noteq> l \<longrightarrow> set (held k) \<inter> set (held l) = {})"

lemma ownsD:
  assumes "owns uni av K held" and "k \<in> K"
  shows "distinct (held k)" and "set (held k) \<subseteq> uni" and "set (held k) \<inter> av = {}"
    and "l \<in> K \<Longrightarrow> k \<noteq> l \<Longrightarrow> set (held k) \<inter> set (held l) = {}"
  using assms unfolding owns_def by blast+

lemma owns_subset: "owns uni av K held \<Longrightarrow> L \<subseteq> K \<Longrightarrow> owns uni av L held"
  unfolding owns_def by blast

lemma owns_cong: "(\<And>k. k \<in> K \<Longrightarrow> held k = held' k) \<Longrightarrow> owns uni av K held = owns uni av K held'"
  unfolding owns_def by simp

lemma owns_insert_empty:
  "owns uni av K held \<Longrightarrow> owns uni av (insert k K) (held(k := []))"
  unfolding owns_def by auto

lemma owns_give:
  assumes "owns uni av K held" and "k \<in> K" and "distinct ids" and "set ids \<subseteq> av"
    and "av \<subseteq> uni"
  shows "owns uni (av - set ids) K (held(k := held k @ ids))"
  using assms unfolding owns_def by (auto; blast)

lemma owns_take:
  assumes "owns uni av K held" and "k \<in> K"
  shows "owns uni (av \<union> set (held k)) K (held(k := []))"
  using assms unfolding owns_def by (auto; blast)

lemma subset_Diff_iff_disjoint: "A \<subseteq> B - C \<longleftrightarrow> A \<subseteq> B \<and> A \<inter> C = {}"
  by blast

text \<open>An owner keeps a part of its pages; what it drops may become available.\<close>

lemma owns_shrink:
  assumes "owns uni av K held" and "k \<in> K" and "distinct ys" and "set ys \<subseteq> set (held k)"
    and "av' \<subseteq> av \<union> (set (held k) - set ys)"
  shows "owns uni av' K (held(k := ys))"
proof -
  note o = ownsD [OF assms(1)]
  have "set (held l) \<inter> av' = {}" if "l \<in> K" "l \<noteq> k" for l
    using o(3,4) [OF that(1)] assms(2,5) that(2) by blast
  moreover have "set ys \<inter> av' = {}" using o(3) [OF assms(2)] assms(4,5) by blast
  moreover have "set ys \<inter> set (held l) = {}" if "l \<in> K" "l \<noteq> k" for l
    using o(4) [OF assms(2) that(1)] assms(4) that(2) by blast
  moreover have "set ys \<subseteq> uni" using o(2) [OF assms(2)] assms(4) by blast
  ultimately show ?thesis
    using o(1,2,4) assms(3) unfolding owns_def
    by (simp add: Int_commute subset_Diff_iff_disjoint)
qed

locale page_source =
  fixes inv :: "'s \<Rightarrow> bool"
    and universe :: "'s \<Rightarrow> int set"
    and avail :: "'s \<Rightarrow> int set"
    and alloc :: "int \<Rightarrow> 's \<Rightarrow> (int list \<times> 's) res"
    and free_pages :: "int list \<Rightarrow> 's \<Rightarrow> 's res"
  assumes universe_finite: "finite (universe s)"
    and avail_universe: "inv s \<Longrightarrow> avail s \<subseteq> universe s"
    and alloc_ok: "inv s \<Longrightarrow> 0 \<le> n \<Longrightarrow>
      \<exists>ids s'. alloc n s = Inr (ids, s') \<and> inv s' \<and> distinct ids \<and> set ids \<subseteq> avail s \<and>
        avail s' = avail s - set ids \<and> universe s' = universe s \<and>
        (ids = [] \<or> int (length ids) = n)"
    and free_ok: "inv s \<Longrightarrow> distinct ids \<Longrightarrow> set ids \<subseteq> universe s - avail s \<Longrightarrow>
      \<exists>s'. free_pages ids s = Inr s' \<and> inv s' \<and> avail s' = avail s \<union> set ids \<and>
        universe s' = universe s"
begin

lemma allocD:
  assumes "inv s" and "0 \<le> n" and "alloc n s = Inr (ids, s')"
  shows "inv s'" and "distinct ids" and "set ids \<subseteq> avail s" and "avail s' = avail s - set ids"
    and "universe s' = universe s" and "ids = [] \<or> int (length ids) = n"
  using alloc_ok [OF assms(1,2)] assms(3) by auto

lemma alloc_disjoint:
  assumes "inv s" and "0 \<le> n" and "0 \<le> m"
    and "alloc n s = Inr (ids, s')" and "alloc m s' = Inr (ids', s'')"
  shows "set ids \<inter> set ids' = {}"
  using allocD [OF assms(1,2,4)] allocD [OF _ assms(3,5)] by auto

lemma alloc_free_restores:
  assumes "inv s" and "0 \<le> n" and "alloc n s = Inr (ids, s')"
  shows "\<exists>s''. free_pages ids s' = Inr s'' \<and> inv s'' \<and> avail s'' = avail s"
proof -
  note a = allocD [OF assms]
  have "set ids \<subseteq> universe s' - avail s'"
    using a(3,4,5) avail_universe [OF assms(1)] by auto
  then obtain s'' where "free_pages ids s' = Inr s''" "inv s''" "avail s'' = avail s' \<union> set ids"
    using free_ok [OF a(1,2)] by blast
  with a(3,4) show ?thesis by auto
qed

lemma alloc_owns:
  assumes "inv s" and "owns (universe s) (avail s) K held" and "k \<in> K" and "0 \<le> n"
    and "alloc n s = Inr (ids, s')"
  shows "owns (universe s') (avail s') K (held(k := held k @ ids))"
  using allocD [OF assms(1,4,5)] owns_give [OF assms(2,3)] avail_universe [OF assms(1)]
  by metis

lemma free_owns:
  assumes "inv s" and "owns (universe s) (avail s) K held" and "k \<in> K"
  shows "\<exists>s'. free_pages (held k) s = Inr s' \<and> inv s' \<and> universe s' = universe s \<and>
    avail s' = avail s \<union> set (held k) \<and> owns (universe s') (avail s') K (held(k := []))"
proof -
  note o = ownsD [OF assms(2,3)]
  then obtain s' where s': "free_pages (held k) s = Inr s'" "inv s'"
      "avail s' = avail s \<union> set (held k)" "universe s' = universe s"
    using free_ok [OF assms(1) o(1)] by blast
  with owns_take [OF assms(2,3)] show ?thesis by simp
qed

end

text \<open>An allocator that also serves every request it has enough pages for.\<close>

locale complete_page_source = page_source +
  assumes alloc_complete: "inv s \<Longrightarrow> 0 \<le> n \<Longrightarrow> n \<le> int (card (avail s)) \<Longrightarrow>
    alloc n s = Inr (ids, s') \<Longrightarrow> int (length ids) = n"
begin

lemma alloc_empty_iff:
  assumes "inv s" and "0 < n" and "alloc n s = Inr (ids, s')"
  shows "ids = [] \<longleftrightarrow> int (card (avail s)) < n"
proof
  assume "ids = []"
  then show "int (card (avail s)) < n"
    using alloc_complete [OF assms(1) _ _ assms(3)] assms(2) by force
next
  assume less: "int (card (avail s)) < n"
  have "finite (avail s)"
    using avail_universe [OF assms(1)] universe_finite by (rule finite_subset)
  moreover have a: "distinct ids" "set ids \<subseteq> avail s" "ids = [] \<or> int (length ids) = n"
    using allocD [OF assms(1) _ assms(3)] assms(2) by auto
  ultimately have "length ids \<le> card (avail s)"
    by (metis card_mono distinct_card)
  with a(3) less show "ids = []" by linarith
qed

end

end
