(* ===== verification/Page_Pool.thy ===== *)
theory Page_Pool
  imports Page_Source
begin

text \<open>
  \<open>PagePool\<close> (include/pool.hpp, src/pool.cpp): the mutex-protected paged KV allocator.
  Every public method takes the lock for its whole body, so one call is one atomic step
  and an execution by any number of threads is a sequence of calls. The steady clock is
  read once per call and is an argument \<open>now\<close> (nanoseconds); the device allocator
  behind \<open>AMP_MALLOC\<close> is the argument \<open>malloc\<close> of the constructor.
\<close>

section \<open>Data\<close>

record page =
  pg_dptr :: "nat option"
  pg_bytes :: nat
  pg_refcount :: int
  pg_owner :: string
  pg_alloc_ts :: int
  pg_touch_ts :: int
  pg_freed :: bool

definition default_page :: page where
  "default_page = \<lparr>pg_dptr = None, pg_bytes = 0, pg_refcount = 0, pg_owner = [],
     pg_alloc_ts = 0, pg_touch_ts = 0, pg_freed = True\<rparr>"

record page_pool =
  pl_page_bytes :: nat
  pl_pages :: "page list"
  pl_free_list :: "int list"
  pl_alloc_cnt :: u64
  pl_free_cnt :: u64

record pool_stats =
  st_total :: int
  st_in_use :: int
  st_free :: int
  st_alloc_cnt :: u64
  st_free_cnt :: u64

section \<open>Operations\<close>

text \<open>
  The constructor: \<open>malloc i n\<close> is the outcome of the \<open>i\<close>-th device allocation of
  \<open>n\<close> bytes, an error code (0 is \<open>AMP_OK\<close>) and the pointer. \<open>AMP_CHECK\<close> throws on a
  non-zero code.
\<close>

definition pool_ctor_body ::
  "(nat \<Rightarrow> nat \<Rightarrow> int \<times> nat option) \<Rightarrow> nat \<Rightarrow> nat \<Rightarrow> page_pool \<Rightarrow> page_pool res" where
  "pool_ctor_body malloc page_bytes i s =
     (let (code, ptr) = malloc i page_bytes in
      if code \<noteq> 0 then Inl (Runtime_error ''AMP error'')
      else Inr (s\<lparr>pl_pages := (pl_pages s)[i := (pl_pages s ! i)
                    \<lparr>pg_dptr := ptr, pg_bytes := page_bytes, pg_freed := True\<rparr>],
                  pl_free_list := pl_free_list s @ [cast_int i]\<rparr>))"

definition pool_ctor :: "(nat \<Rightarrow> nat \<Rightarrow> int \<times> nat option) \<Rightarrow> nat \<Rightarrow> nat \<Rightarrow> page_pool res" where
  "pool_ctor malloc n_pages page_bytes =
     rfold (pool_ctor_body malloc page_bytes) [0..<n_pages]
       \<lparr>pl_page_bytes = page_bytes, pl_pages = replicate n_pages default_page,
        pl_free_list = [], pl_alloc_cnt = 0, pl_free_cnt = 0\<rparr>"

text \<open>The destructor: the device pointers handed to \<open>AMP_FREE\<close>, in order.\<close>

definition pool_dtor :: "page_pool \<Rightarrow> nat list" where
  "pool_dtor s = List.map_filter pg_dptr (pl_pages s)"

text \<open>
  \<open>alloc\<close>: the loop pops ids off the back of the free list. \<open>reserve\<close> with a negative
  count converts it to a huge \<open>size_t\<close> and throws.
\<close>

definition mark_allocated :: "int \<Rightarrow> string \<Rightarrow> page \<Rightarrow> page" where
  "mark_allocated now trace_id p =
     p\<lparr>pg_refcount := 1, pg_owner := trace_id, pg_alloc_ts := now, pg_touch_ts := now,
       pg_freed := False\<rparr>"

primrec pool_alloc_loop ::
  "nat \<Rightarrow> int \<Rightarrow> string \<Rightarrow> int list \<Rightarrow> page_pool \<Rightarrow> (int list \<times> page_pool) res" where
  "pool_alloc_loop 0 now trace_id out s = Inr (out, s)"
| "pool_alloc_loop (Suc k) now trace_id out s =
     (if pl_free_list s = [] then Inl Index_UB
      else let id = last (pl_free_list s) in
        rbind (vec_at (pl_pages s) id) (\<lambda>p.
          pool_alloc_loop k now trace_id (out @ [id])
            (s\<lparr>pl_free_list := butlast (pl_free_list s),
               pl_pages := (pl_pages s)[nat id := mark_allocated now trace_id p]\<rparr>)))"

definition pool_alloc ::
  "int \<Rightarrow> string \<Rightarrow> int \<Rightarrow> page_pool \<Rightarrow> (int list \<times> page_pool) res" where
  "pool_alloc now trace_id n s =
     (if cast_int (length (pl_free_list s)) < n then Inr ([], s)
      else if n < 0 then Inl Length_error
      else rbind (pool_alloc_loop (nat n) now trace_id [] s) (\<lambda>(out, s').
             Inr (out, s'\<lparr>pl_alloc_cnt := pl_alloc_cnt s' + word_of_int n\<rparr>)))"

definition mark_freed :: "page \<Rightarrow> page" where
  "mark_freed p = p\<lparr>pg_refcount := 0, pg_owner := [], pg_freed := True\<rparr>"

definition pool_release :: "int \<Rightarrow> page \<Rightarrow> page_pool \<Rightarrow> page_pool" where
  "pool_release pid p s =
     s\<lparr>pl_pages := (pl_pages s)[nat pid := mark_freed p],
       pl_free_list := pl_free_list s @ [pid], pl_free_cnt := pl_free_cnt s + 1\<rparr>"

definition pool_free_one :: "int \<Rightarrow> page_pool \<Rightarrow> page_pool res" where
  "pool_free_one pid s = rbind (vec_at (pl_pages s) pid) (\<lambda>p.
     if \<not> pg_freed p then Inr (pool_release pid p s) else Inr s)"

definition pool_free_pages :: "int list \<Rightarrow> page_pool \<Rightarrow> page_pool res" where
  "pool_free_pages ids s = rfold pool_free_one ids s"

definition pool_touch :: "int \<Rightarrow> int list \<Rightarrow> page_pool \<Rightarrow> page_pool res" where
  "pool_touch now ids s = rfold (\<lambda>id s. rbind (vec_at (pl_pages s) id) (\<lambda>p.
     Inr (s\<lparr>pl_pages := (pl_pages s)[nat id := p\<lparr>pg_touch_ts := now\<rparr>]\<rparr>))) ids s"

text \<open>
  \<open>leak_scan\<close>: \<open>duration_cast\<close> to milliseconds truncates towards zero. The second loop
  releases every orphan.
\<close>

definition age_ms :: "int \<Rightarrow> page \<Rightarrow> int" where
  "age_ms now p = (now - pg_touch_ts p) sdiv 1000000"

definition pool_orphans :: "int \<Rightarrow> int \<Rightarrow> page_pool \<Rightarrow> int list" where
  "pool_orphans now ttl_ms s =
     map cast_int (filter (\<lambda>i. \<not> pg_freed (pl_pages s ! i) \<and> ttl_ms < age_ms now (pl_pages s ! i))
       [0..<length (pl_pages s)])"

definition pool_leak_scan :: "int \<Rightarrow> int \<Rightarrow> page_pool \<Rightarrow> (int \<times> page_pool) res" where
  "pool_leak_scan now ttl_ms s =
     (let orphan = pool_orphans now ttl_ms s in
      rbind (rfold (\<lambda>id s. rbind (vec_at (pl_pages s) id) (\<lambda>p. Inr (pool_release id p s))) orphan s)
        (\<lambda>s'. Inr (cast_int (length orphan), s')))"

definition pool_in_use :: "page_pool \<Rightarrow> nat" where
  "pool_in_use s = length (filter (\<lambda>p. \<not> pg_freed p) (pl_pages s))"

definition pool_get_stats :: "page_pool \<Rightarrow> pool_stats" where
  "pool_get_stats s = \<lparr>st_total = cast_int (length (pl_pages s)), st_in_use = int (pool_in_use s),
     st_free = cast_int (length (pl_free_list s)), st_alloc_cnt = pl_alloc_cnt s,
     st_free_cnt = pl_free_cnt s\<rparr>"

section \<open>Invariant\<close>

text \<open>
  The free list holds exactly the freed pages, each once; a freed page has no owner and
  no reference, a page in use has one reference; the two counters differ by the number
  of pages in use (modulo their width).
\<close>

definition pool_core :: "page_pool \<Rightarrow> bool" where
  "pool_core s \<longleftrightarrow>
     length (pl_pages s) < 2 ^ 31 \<and>
     distinct (pl_free_list s) \<and>
     (\<forall>pid. pid \<in> set (pl_free_list s) \<longleftrightarrow>
        in_range (pl_pages s) pid \<and> pg_freed (pl_pages s ! nat pid)) \<and>
     (\<forall>p \<in> set (pl_pages s). pg_refcount p = (if pg_freed p then 0 else 1)
        \<and> (pg_freed p \<longrightarrow> pg_owner p = []))"

definition pool_inv :: "page_pool \<Rightarrow> bool" where
  "pool_inv s \<longleftrightarrow> pool_core s \<and>
     pl_alloc_cnt s - pl_free_cnt s = word_of_nat (pool_in_use s)"

definition pool_universe :: "page_pool \<Rightarrow> int set" where
  "pool_universe s = {pid. in_range (pl_pages s) pid}"

definition pool_avail :: "page_pool \<Rightarrow> int set" where
  "pool_avail s = set (pl_free_list s)"

lemma pool_coreD:
  assumes "pool_core s"
  shows "length (pl_pages s) < 2 ^ 31"
    and "distinct (pl_free_list s)"
    and "pid \<in> set (pl_free_list s) \<longleftrightarrow>
        in_range (pl_pages s) pid \<and> pg_freed (pl_pages s ! nat pid)"
    and "p \<in> set (pl_pages s) \<Longrightarrow> pg_refcount p = (if pg_freed p then 0 else 1)
        \<and> (pg_freed p \<longrightarrow> pg_owner p = [])"
  using assms unfolding pool_core_def by blast+

lemma pool_universe_finite [simp]: "finite (pool_universe s)"
proof -
  have "pool_universe s \<subseteq> {0..<int (length (pl_pages s))}"
    by (auto simp: pool_universe_def in_range_def)
  then show ?thesis by (rule finite_subset) simp
qed

lemma in_range_freed_cong:
  "pool_core s \<Longrightarrow> pid \<in> pool_universe s - pool_avail s \<longleftrightarrow>
    in_range (pl_pages s) pid \<and> \<not> pg_freed (pl_pages s ! nat pid)"
  by (auto simp: pool_universe_def pool_avail_def pool_coreD(3))

lemma pool_free_list_length:
  assumes "pool_core s"
  shows "length (pl_free_list s) + pool_in_use s = length (pl_pages s)"
proof -
  have inj: "inj_on nat (set (pl_free_list s))"
    by (rule inj_onI) (metis pool_coreD(3) [OF assms] in_range_nat_eq)
  have "nat ` set (pl_free_list s) = {i. i < length (pl_pages s) \<and> pg_freed (pl_pages s ! i)}"
  proof (intro set_eqI iffI)
    fix i assume "i \<in> {i. i < length (pl_pages s) \<and> pg_freed (pl_pages s ! i)}"
    then have "int i \<in> set (pl_free_list s)" by (simp add: pool_coreD(3) [OF assms])
    then show "i \<in> nat ` set (pl_free_list s)" by force
  qed (auto simp: pool_coreD(3) [OF assms] dest: in_range_nat)
  then have "length (pl_free_list s) = length (filter pg_freed (pl_pages s))"
    using card_image [OF inj] distinct_card [OF pool_coreD(2) [OF assms]]
    by (simp add: length_filter_conv_card)
  then show ?thesis
    using sum_length_filter_compl [of pg_freed "pl_pages s"] by (simp add: pool_in_use_def)
qed

section \<open>One page taken, one page released\<close>

definition pool_take :: "int \<Rightarrow> string \<Rightarrow> page_pool \<Rightarrow> page_pool" where
  "pool_take now trace_id s =
     (let pid = last (pl_free_list s) in
      s\<lparr>pl_free_list := butlast (pl_free_list s),
        pl_pages := (pl_pages s)[nat pid := mark_allocated now trace_id (pl_pages s ! nat pid)]\<rparr>)"

lemma mark_simps [simp]:
  "pg_freed (mark_allocated now tr p) = False"
  "pg_refcount (mark_allocated now tr p) = 1"
  "pg_freed (mark_freed p) = True"
  "pg_refcount (mark_freed p) = 0"
  "pg_owner (mark_freed p) = []"
  by (simp_all add: mark_allocated_def mark_freed_def)

lemma pool_take_core:
  assumes "pool_core s" and "pl_free_list s \<noteq> []"
  shows "pool_core (pool_take now tr s)" and "pool_in_use (pool_take now tr s) = Suc (pool_in_use s)"
proof -
  let ?pid = "last (pl_free_list s)"
  from assms have mem: "?pid \<in> set (pl_free_list s)" by simp
  then have r: "in_range (pl_pages s) ?pid" "pg_freed (pl_pages s ! nat ?pid)"
    using pool_coreD(3) [OF assms(1)] by blast+
  note bl = set_butlast_distinct [OF assms(2) pool_coreD(2) [OF assms(1)]]
  show "pool_core (pool_take now tr s)"
    unfolding pool_core_def
  proof (intro conjI allI ballI)
    fix pid
    show "pid \<in> set (pl_free_list (pool_take now tr s)) \<longleftrightarrow>
      in_range (pl_pages (pool_take now tr s)) pid \<and>
      pg_freed (pl_pages (pool_take now tr s) ! nat pid)"
      using r(1) by (auto simp: pool_take_def Let_def bl pool_coreD(3) [OF assms(1)]
          nth_update_in_range split: if_splits)
  next
    fix p assume "p \<in> set (pl_pages (pool_take now tr s))"
    then show "pg_refcount p = (if pg_freed p then 0 else 1)"
      "pg_freed p \<longrightarrow> pg_owner p = []"
      using pool_coreD(4) [OF assms(1), of p]
      by (auto simp: pool_take_def Let_def dest!: set_update_subset_insert [THEN subsetD])
  qed (use pool_coreD(1,2) [OF assms(1)] in \<open>simp_all add: pool_take_def Let_def distinct_butlast\<close>)
  have "int (pool_in_use (pool_take now tr s)) = int (pool_in_use s) + 1"
    using r in_range_nat [OF r(1)]
    by (simp add: pool_in_use_def pool_take_def Let_def length_filter_update)
  then show "pool_in_use (pool_take now tr s) = Suc (pool_in_use s)" by linarith
qed

lemma pool_release_core:
  assumes "pool_core s" and "in_range (pl_pages s) pid" and "\<not> pg_freed (pl_pages s ! nat pid)"
  defines "s' \<equiv> pool_release pid (pl_pages s ! nat pid) s"
  shows "pool_core s'" and "Suc (pool_in_use s') = pool_in_use s"
proof -
  have notin: "pid \<notin> set (pl_free_list s)" using assms(3) by (simp add: pool_coreD(3) [OF assms(1)])
  show "pool_core s'"
    unfolding pool_core_def
  proof (intro conjI allI ballI)
    fix q
    show "q \<in> set (pl_free_list s') \<longleftrightarrow> in_range (pl_pages s') q \<and> pg_freed (pl_pages s' ! nat q)"
      using assms(2) by (auto simp: s'_def pool_release_def pool_coreD(3) [OF assms(1)]
          nth_update_in_range)
  next
    fix p assume "p \<in> set (pl_pages s')"
    then show "pg_refcount p = (if pg_freed p then 0 else 1)" "pg_freed p \<longrightarrow> pg_owner p = []"
      using pool_coreD(4) [OF assms(1), of p]
      by (auto simp: s'_def pool_release_def dest!: set_update_subset_insert [THEN subsetD])
  qed (use pool_coreD(1,2) [OF assms(1)] notin in \<open>simp_all add: s'_def pool_release_def\<close>)
  have "int (pool_in_use s') = int (pool_in_use s) - 1"
    using assms(3) in_range_nat [OF assms(2)]
    by (simp add: pool_in_use_def s'_def pool_release_def length_filter_update)
  then show "Suc (pool_in_use s') = pool_in_use s" by linarith
qed

section \<open>Whole operations\<close>

lemma pool_alloc_loop_Suc:
  assumes "pool_core s" and "pl_free_list s \<noteq> []"
  shows "pool_alloc_loop (Suc k) now tr out s =
    pool_alloc_loop k now tr (out @ [last (pl_free_list s)]) (pool_take now tr s)"
proof -
  have "in_range (pl_pages s) (last (pl_free_list s))"
    using assms(2) pool_coreD(3) [OF assms(1), of "last (pl_free_list s)"] by simp
  with assms(2) show ?thesis by (simp add: pool_take_def Let_def)
qed

text \<open>What a successful pass of the loop leaves behind: \<open>ids\<close> were taken, nothing else moved.\<close>

definition pool_granted :: "int \<Rightarrow> string \<Rightarrow> int list \<Rightarrow> page_pool \<Rightarrow> page_pool \<Rightarrow> bool" where
  "pool_granted now tr ids s s' \<longleftrightarrow>
     length (pl_pages s') = length (pl_pages s) \<and>
     (\<forall>pid. in_range (pl_pages s) pid \<longrightarrow> pl_pages s' ! nat pid =
        (if pid \<in> set ids then mark_allocated now tr (pl_pages s ! nat pid)
         else pl_pages s ! nat pid))"

lemma mark_allocated_idem [simp]:
  "mark_allocated now tr (mark_allocated now tr p) = mark_allocated now tr p"
  by (simp add: mark_allocated_def)

lemma pool_granted_take:
  assumes "pool_core s" and "pl_free_list s \<noteq> []"
    and "pool_granted now tr ids (pool_take now tr s) s'"
  shows "pool_granted now tr (last (pl_free_list s) # ids) s s'"
proof -
  have r: "in_range (pl_pages s) (last (pl_free_list s))"
    using assms(2) pool_coreD(3) [OF assms(1), of "last (pl_free_list s)"] by simp
  from assms(3) show ?thesis
    by (auto simp: pool_granted_def pool_take_def Let_def nth_update_in_range r)
qed

lemma pool_alloc_loop_ok:
  assumes "pool_core s" and "k \<le> length (pl_free_list s)"
  shows "\<exists>s'. pool_alloc_loop k now tr out s =
      Inr (out @ take k (rev (pl_free_list s)), s') \<and> pool_core s' \<and>
    pl_free_list s' = rev (drop k (rev (pl_free_list s))) \<and>
    pool_granted now tr (take k (rev (pl_free_list s))) s s' \<and>
    pool_in_use s' = pool_in_use s + k \<and>
    pl_alloc_cnt s' = pl_alloc_cnt s \<and> pl_free_cnt s' = pl_free_cnt s"
  using assms
proof (induction k arbitrary: out s)
  case 0
  then show ?case by (simp add: pool_granted_def)
next
  case (Suc k)
  then have ne: "pl_free_list s \<noteq> []" by auto
  let ?s = "pool_take now tr s"
  have fl: "pl_free_list ?s = butlast (pl_free_list s)" by (simp add: pool_take_def Let_def)
  have rv: "rev (pl_free_list s) = last (pl_free_list s) # rev (pl_free_list ?s)"
    using ne by (metis append_butlast_last_id fl rev_eq_Cons_iff rev_rev_ident)
  have "pool_core ?s" "k \<le> length (pl_free_list ?s)"
    using Suc.prems ne by (auto simp: pool_take_core fl)
  from Suc.IH [OF this, of "out @ [last (pl_free_list s)]"] obtain s' where
    s': "pool_alloc_loop k now tr (out @ [last (pl_free_list s)]) ?s =
        Inr ((out @ [last (pl_free_list s)]) @ take k (rev (pl_free_list ?s)), s')"
      "pool_core s'" "pl_free_list s' = rev (drop k (rev (pl_free_list ?s)))"
      "pool_granted now tr (take k (rev (pl_free_list ?s))) ?s s'"
      "pool_in_use s' = pool_in_use ?s + k" "pl_alloc_cnt s' = pl_alloc_cnt ?s"
      "pl_free_cnt s' = pl_free_cnt ?s"
    by blast
  have "pool_granted now tr (take (Suc k) (rev (pl_free_list s))) s s'"
    using pool_granted_take [OF Suc.prems(1) ne s'(4)] by (simp add: rv)
  moreover have "pool_alloc_loop (Suc k) now tr out s = Inr (out @ take (Suc k) (rev (pl_free_list s)), s')"
    using s'(1) by (simp only: pool_alloc_loop_Suc [OF Suc.prems(1) ne] rv) simp
  ultimately show ?case
    using s'(2,3,5,6,7) pool_take_core(2) [OF Suc.prems(1) ne]
    by (simp add: rv pool_take_def Let_def)
qed

lemma pool_inv_free_list_small: "pool_inv s \<Longrightarrow> length (pl_free_list s) < 2 ^ 31"
  using pool_free_list_length [of s] pool_coreD(1) [of s] by (simp add: pool_inv_def)

lemma pool_alloc_grant:
  assumes "pool_inv s" and "0 \<le> n" and "n \<le> int (length (pl_free_list s))"
  shows "\<exists>s'. pool_alloc now tr n s = Inr (take (nat n) (rev (pl_free_list s)), s') \<and> pool_inv s' \<and>
    pl_free_list s' = rev (drop (nat n) (rev (pl_free_list s))) \<and>
    pool_granted now tr (take (nat n) (rev (pl_free_list s))) s s'"
proof -
  have core: "pool_core s" using assms(1) by (simp add: pool_inv_def)
  have "nat n \<le> length (pl_free_list s)" using assms(3) by simp
  from pool_alloc_loop_ok [OF core this, of now tr "[]"] obtain s' where
    s': "pool_alloc_loop (nat n) now tr [] s = Inr (take (nat n) (rev (pl_free_list s)), s')"
      "pool_core s'" "pl_free_list s' = rev (drop (nat n) (rev (pl_free_list s)))"
      "pool_granted now tr (take (nat n) (rev (pl_free_list s))) s s'"
      "pool_in_use s' = pool_in_use s + nat n"
      "pl_alloc_cnt s' = pl_alloc_cnt s" "pl_free_cnt s' = pl_free_cnt s"
    by auto
  let ?s = "s'\<lparr>pl_alloc_cnt := pl_alloc_cnt s' + word_of_int n\<rparr>"
  have "(word_of_int n :: u64) = word_of_nat (nat n)" using assms(2) by simp
  then have "pool_inv ?s"
    using s'(2,5,6,7) assms(1)
    by (simp add: pool_inv_def pool_core_def pool_in_use_def algebra_simps)
  moreover have "pool_granted now tr (take (nat n) (rev (pl_free_list s))) s ?s"
    using s'(4) by (simp add: pool_granted_def)
  ultimately show ?thesis
    using s'(1,3) assms(2,3) pool_inv_free_list_small [OF assms(1)]
    by (simp add: pool_alloc_def)
qed

lemma pool_alloc_oom:
  assumes "pool_inv s" and "int (length (pl_free_list s)) < n"
  shows "pool_alloc now tr n s = Inr ([], s)"
  using assms pool_inv_free_list_small [OF assms(1)] by (simp add: pool_alloc_def)

lemma pool_alloc_negative:
  assumes "pool_inv s" and "n < 0"
  shows "pool_alloc now tr n s = Inl Length_error"
  using assms pool_inv_free_list_small [OF assms(1)] by (simp add: pool_alloc_def)

lemma pool_release_inv:
  assumes "pool_inv s" and "in_range (pl_pages s) pid" and "\<not> pg_freed (pl_pages s ! nat pid)"
  shows "pool_inv (pool_release pid (pl_pages s ! nat pid) s)"
proof -
  have core: "pool_core s" using assms(1) by (simp add: pool_inv_def)
  note r = pool_release_core [OF core assms(2,3)]
  have "word_of_nat (pool_in_use s) = (word_of_nat
      (pool_in_use (pool_release pid (pl_pages s ! nat pid) s)) + 1 :: u64)"
    by (simp flip: r(2))
  then show ?thesis
    using r(1) assms(1) by (simp add: pool_inv_def pool_release_def algebra_simps)
qed

lemma pool_free_one_ok:
  assumes "pool_inv s" and "in_range (pl_pages s) pid"
  shows "\<exists>s'. pool_free_one pid s = Inr s' \<and> pool_inv s' \<and>
    length (pl_pages s') = length (pl_pages s) \<and>
    pool_avail s' = insert pid (pool_avail s) \<and>
    (\<forall>q. in_range (pl_pages s) q \<and> q \<noteq> pid \<longrightarrow> pl_pages s' ! nat q = pl_pages s ! nat q) \<and>
    pl_free_cnt s' = pl_free_cnt s + (if pid \<in> pool_avail s then 0 else 1)"
proof (cases "pg_freed (pl_pages s ! nat pid)")
  case True
  then have "pid \<in> pool_avail s"
    using assms pool_coreD(3) [of s pid] by (simp add: pool_avail_def pool_inv_def)
  with True assms show ?thesis by (auto simp: pool_free_one_def)
next
  case False
  then have "pid \<notin> pool_avail s"
    using assms pool_coreD(3) [of s pid] by (simp add: pool_avail_def pool_inv_def)
  with False assms pool_release_inv [OF assms False] show ?thesis
    by (auto simp: pool_free_one_def pool_release_def pool_avail_def nth_update_in_range)
qed

lemma pool_free_pages_ok:
  assumes "pool_inv s" and "\<forall>pid\<in>set ids. in_range (pl_pages s) pid"
  shows "\<exists>s'. pool_free_pages ids s = Inr s' \<and> pool_inv s' \<and>
    length (pl_pages s') = length (pl_pages s) \<and>
    pool_avail s' = pool_avail s \<union> set ids \<and>
    (\<forall>q. in_range (pl_pages s) q \<and> q \<notin> set ids \<longrightarrow> pl_pages s' ! nat q = pl_pages s ! nat q) \<and>
    pl_free_cnt s' = pl_free_cnt s + word_of_nat (card (set ids - pool_avail s))"
  using assms
proof (induction ids arbitrary: s)
  case Nil
  then show ?case by (simp add: pool_free_pages_def)
next
  case (Cons pid ids)
  from pool_free_one_ok [OF Cons.prems(1), of pid] Cons.prems(2) obtain s1 where
    s1: "pool_free_one pid s = Inr s1" "pool_inv s1" "length (pl_pages s1) = length (pl_pages s)"
      "pool_avail s1 = insert pid (pool_avail s)"
      "\<forall>q. in_range (pl_pages s) q \<and> q \<noteq> pid \<longrightarrow> pl_pages s1 ! nat q = pl_pages s ! nat q"
      "pl_free_cnt s1 = pl_free_cnt s + (if pid \<in> pool_avail s then 0 else 1)"
    by auto
  have rng: "in_range (pl_pages s1) q = in_range (pl_pages s) q" for q
    using s1(3) by (simp add: in_range_def)
  from Cons.IH [OF s1(2)] Cons.prems(2) obtain s' where
    s': "pool_free_pages ids s1 = Inr s'" "pool_inv s'" "length (pl_pages s') = length (pl_pages s1)"
      "pool_avail s' = pool_avail s1 \<union> set ids"
      "\<forall>q. in_range (pl_pages s1) q \<and> q \<notin> set ids \<longrightarrow> pl_pages s' ! nat q = pl_pages s1 ! nat q"
      "pl_free_cnt s' = pl_free_cnt s1 + word_of_nat (card (set ids - pool_avail s1))"
    by (auto simp: rng)
  have "card (set (pid # ids) - pool_avail s) =
      (if pid \<in> pool_avail s then 0 else 1) + card (set ids - pool_avail s1)"
  proof (cases "pid \<in> pool_avail s")
    case True
    then show ?thesis by (simp add: s1(4) insert_absorb insert_Diff_if)
  next
    case False
    have "set (pid # ids) - pool_avail s = insert pid (set ids - pool_avail s1)"
      using False by (auto simp: s1(4))
    with False show ?thesis by (simp add: s1(4))
  qed
  moreover have "pool_free_pages (pid # ids) s = Inr s'"
    using s1(1) s'(1) by (simp add: pool_free_pages_def)
  ultimately show ?case
    using s' s1 by (auto simp: rng algebra_simps)
qed

lemma pool_touch_ok:
  assumes "pool_inv s" and "\<forall>pid\<in>set ids. in_range (pl_pages s) pid"
  shows "\<exists>s'. pool_touch now ids s = Inr s' \<and> pool_inv s' \<and>
    length (pl_pages s') = length (pl_pages s) \<and> pool_avail s' = pool_avail s \<and>
    (\<forall>q. in_range (pl_pages s) q \<longrightarrow> pl_pages s' ! nat q =
       (if q \<in> set ids then (pl_pages s ! nat q)\<lparr>pg_touch_ts := now\<rparr> else pl_pages s ! nat q))"
  using assms
proof (induction ids arbitrary: s)
  case Nil
  then show ?case by (simp add: pool_touch_def)
next
  case (Cons pid ids)
  let ?p = "pl_pages s ! nat pid"
  let ?s = "s\<lparr>pl_pages := (pl_pages s)[nat pid := ?p\<lparr>pg_touch_ts := now\<rparr>]\<rparr>"
  have r: "in_range (pl_pages s) pid" using Cons.prems(2) by simp
  have "pool_in_use ?s = pool_in_use s"
    using in_range_nat [OF r] by (simp add: pool_in_use_def length_filter_same)
  moreover have "?p \<in> set (pl_pages s)" using in_range_nat [OF r] by simp
  ultimately have inv: "pool_inv ?s"
    using Cons.prems(1) r
    by (auto simp: pool_inv_def pool_core_def nth_update_in_range split: if_splits
        dest!: set_update_subset_insert [THEN subsetD])
  from Cons.IH [OF inv] Cons.prems(2) obtain s' where
    s': "pool_touch now ids ?s = Inr s'" "pool_inv s'" "length (pl_pages s') = length (pl_pages ?s)"
      "pool_avail s' = pool_avail ?s"
      "\<forall>q. in_range (pl_pages ?s) q \<longrightarrow> pl_pages s' ! nat q =
         (if q \<in> set ids then (pl_pages ?s ! nat q)\<lparr>pg_touch_ts := now\<rparr> else pl_pages ?s ! nat q)"
    by auto
  have "pool_touch now (pid # ids) s = Inr s'"
    using s'(1) r by (simp add: pool_touch_def)
  with s'(2-5) r show ?case
    by (auto simp: pool_avail_def nth_update_in_range)
qed

lemma pool_release_loop_eq:
  assumes "pool_inv s" and "distinct ids"
    and "\<forall>pid\<in>set ids. in_range (pl_pages s) pid \<and> \<not> pg_freed (pl_pages s ! nat pid)"
  shows "rfold (\<lambda>pid s. rbind (vec_at (pl_pages s) pid) (\<lambda>p. Inr (pool_release pid p s))) ids s =
    pool_free_pages ids s"
  using assms
proof (induction ids arbitrary: s)
  case Nil
  then show ?case by (simp add: pool_free_pages_def)
next
  case (Cons pid ids)
  let ?s = "pool_release pid (pl_pages s ! nat pid) s"
  have r: "in_range (pl_pages s) pid" "\<not> pg_freed (pl_pages s ! nat pid)"
    using Cons.prems(3) by auto
  have "pool_inv ?s" by (rule pool_release_inv [OF Cons.prems(1) r])
  moreover have "\<forall>q\<in>set ids. in_range (pl_pages ?s) q \<and> \<not> pg_freed (pl_pages ?s ! nat q)"
    using Cons.prems(2,3) r(1) by (auto simp: pool_release_def nth_update_in_range)
  ultimately show ?case
    using Cons.IH [of ?s] Cons.prems(2) r by (simp add: pool_free_pages_def pool_free_one_def)
qed

text \<open>The pages in use that were last touched more than \<open>ttl_ms\<close> milliseconds ago.\<close>

definition pool_stale :: "int \<Rightarrow> int \<Rightarrow> page_pool \<Rightarrow> int set" where
  "pool_stale now ttl_ms s = {pid \<in> pool_universe s - pool_avail s.
     ttl_ms < age_ms now (pl_pages s ! nat pid)}"

lemma pool_orphans_set:
  assumes "pool_core s"
  shows "set (pool_orphans now ttl s) = pool_stale now ttl s" and "distinct (pool_orphans now ttl s)"
proof -
  have cast: "cast_int i = int i" if "i < length (pl_pages s)" for i
    using that pool_coreD(1) [OF assms] by simp
  let ?P = "\<lambda>i. \<not> pg_freed (pl_pages s ! i) \<and> ttl < age_ms now (pl_pages s ! i)"
  have eq: "pool_orphans now ttl s = map int (filter ?P [0..<length (pl_pages s)])"
    unfolding pool_orphans_def by (rule map_cong) (auto simp: cast)
  show "set (pool_orphans now ttl s) = pool_stale now ttl s"
  proof (intro set_eqI iffI)
    fix pid assume "pid \<in> pool_stale now ttl s"
    then have "in_range (pl_pages s) pid" "?P (nat pid)"
      by (auto simp: pool_stale_def in_range_freed_cong [OF assms, unfolded Diff_iff])
    then show "pid \<in> set (pool_orphans now ttl s)"
      using in_range_nat [of "pl_pages s" pid] by (force simp: eq)
  qed (auto simp: eq pool_stale_def in_range_freed_cong [OF assms, unfolded Diff_iff])
  show "distinct (pool_orphans now ttl s)" by (simp add: eq distinct_map)
qed

lemma pool_leak_scan_ok:
  assumes "pool_inv s"
  shows "\<exists>s'. pool_leak_scan now ttl s = Inr (int (card (pool_stale now ttl s)), s') \<and>
    pool_inv s' \<and> length (pl_pages s') = length (pl_pages s) \<and>
    pool_avail s' = pool_avail s \<union> pool_stale now ttl s \<and>
    (\<forall>q. in_range (pl_pages s) q \<and> q \<notin> pool_stale now ttl s \<longrightarrow>
       pl_pages s' ! nat q = pl_pages s ! nat q)"
proof -
  have core: "pool_core s" using assms by (simp add: pool_inv_def)
  note orph = pool_orphans_set [OF core, of now ttl]
  have use: "in_range (pl_pages s) pid \<and> \<not> pg_freed (pl_pages s ! nat pid)"
    if "pid \<in> set (pool_orphans now ttl s)" for pid
    using that in_range_freed_cong [OF core] by (auto simp: orph(1) pool_stale_def)
  then obtain s' where s': "pool_free_pages (pool_orphans now ttl s) s = Inr s'" "pool_inv s'"
      "length (pl_pages s') = length (pl_pages s)"
      "pool_avail s' = pool_avail s \<union> set (pool_orphans now ttl s)"
      "\<forall>q. in_range (pl_pages s) q \<and> q \<notin> set (pool_orphans now ttl s) \<longrightarrow>
         pl_pages s' ! nat q = pl_pages s ! nat q"
    using pool_free_pages_ok [OF assms, of "pool_orphans now ttl s"] by blast
  have "length (pool_orphans now ttl s) \<le> length (pl_pages s)"
    by (simp add: pool_orphans_def length_filter_le [THEN le_trans])
  then have "cast_int (length (pool_orphans now ttl s)) = int (card (pool_stale now ttl s))"
    using pool_coreD(1) [OF core] distinct_card [OF orph(2)] orph(1) by simp
  then show ?thesis
    using s' use by (simp add: pool_leak_scan_def Let_def orph pool_release_loop_eq [OF assms])
qed

subsection \<open>Construction and destruction\<close>

definition fresh_page :: "nat \<Rightarrow> nat option \<Rightarrow> page" where
  "fresh_page page_bytes ptr = default_page\<lparr>pg_dptr := ptr, pg_bytes := page_bytes\<rparr>"

lemma fresh_page_simps [simp]:
  "pg_freed (fresh_page b ptr)" "pg_refcount (fresh_page b ptr) = 0"
  "pg_owner (fresh_page b ptr) = []" "pg_dptr (fresh_page b ptr) = ptr"
  by (simp_all add: fresh_page_def default_page_def)

lemma pool_ctor_loop_eq:
  assumes "\<forall>i<n. fst (malloc i b) = 0" and "k \<le> n"
  shows "rfold (pool_ctor_body malloc b) [0..<k]
       \<lparr>pl_page_bytes = b, pl_pages = replicate n default_page,
        pl_free_list = [], pl_alloc_cnt = 0, pl_free_cnt = 0\<rparr> =
     Inr \<lparr>pl_page_bytes = b,
        pl_pages = map (\<lambda>i. fresh_page b (snd (malloc i b))) [0..<k] @ replicate (n - k) default_page,
        pl_free_list = map cast_int [0..<k], pl_alloc_cnt = 0, pl_free_cnt = 0\<rparr>"
  using assms(2)
proof (induction k)
  case 0
  then show ?case by simp
next
  case (Suc k)
  then have IH: "rfold (pool_ctor_body malloc b) [0..<k]
       \<lparr>pl_page_bytes = b, pl_pages = replicate n default_page,
        pl_free_list = [], pl_alloc_cnt = 0, pl_free_cnt = 0\<rparr> =
     Inr \<lparr>pl_page_bytes = b,
        pl_pages = map (\<lambda>i. fresh_page b (snd (malloc i b))) [0..<k] @ replicate (n - k) default_page,
        pl_free_list = map cast_int [0..<k], pl_alloc_cnt = 0, pl_free_cnt = 0\<rparr>"
    by simp
  have ok: "fst (malloc k b) = 0" using assms(1) Suc.prems by simp
  have rep: "replicate (n - k) default_page = default_page # replicate (n - Suc k) default_page"
    using Suc.prems by (metis Suc_diff_Suc Suc_le_lessD replicate_Suc)
  have dp: "default_page\<lparr>pg_dptr := p, pg_bytes := b, pg_freed := True\<rparr> = fresh_page b p" for p
    by (simp add: fresh_page_def default_page_def)
  have app: "[0..<Suc k] = [0..<k] @ [k]" by simp
  show ?case
    unfolding app rfold_append IH
    using ok by (simp add: pool_ctor_body_def split_beta rep nth_append list_update_append dp)
qed

lemma pool_ctor_ok:
  assumes "\<forall>i<n. fst (malloc i b) = 0" and "n < 2 ^ 31"
  shows "\<exists>s. pool_ctor malloc n b = Inr s \<and> pool_inv s \<and>
    pl_free_list s = map int [0..<n] \<and> length (pl_pages s) = n \<and>
    pool_dtor s = List.map_filter (\<lambda>i. snd (malloc i b)) [0..<n]"
proof -
  let ?s = "\<lparr>pl_page_bytes = b, pl_pages = map (\<lambda>i. fresh_page b (snd (malloc i b))) [0..<n],
        pl_free_list = map int [0..<n], pl_alloc_cnt = 0, pl_free_cnt = 0\<rparr>"
  have "map cast_int [0..<n] = map int [0..<n]"
    using assms(2) by (intro map_cong) auto
  then have "pool_ctor malloc n b = Inr ?s"
    unfolding pool_ctor_def using pool_ctor_loop_eq [of n malloc b n] assms(1) by simp
  moreover have "pool_inv ?s"
  proof -
    have mem: "pid \<in> int ` {0..<n} \<longleftrightarrow> 0 \<le> pid \<and> pid < int n" for pid
      by (auto intro: image_eqI [of _ _ "nat pid"])
    show ?thesis
      using assms(2) by (auto simp: pool_inv_def pool_core_def pool_in_use_def mem in_range_def
          distinct_map nat_less_iff)
  qed
  moreover have "pool_dtor ?s = List.map_filter (\<lambda>i. snd (malloc i b)) [0..<n]"
    by (simp add: pool_dtor_def map_filter_def filter_map o_def)
  ultimately show ?thesis by simp
qed

section \<open>Executions\<close>

text \<open>
  One call by any thread: the mutex makes each call one step. \<open>pool_step\<close> has a rule per
  public method that changes the pool.
\<close>

inductive pool_step :: "page_pool \<Rightarrow> page_pool \<Rightarrow> bool" where
  step_alloc: "pool_alloc now trace_id n s = Inr (out, s') \<Longrightarrow> pool_step s s'"
| step_free: "pool_free_pages ids s = Inr s' \<Longrightarrow> pool_step s s'"
| step_touch: "pool_touch now ids s = Inr s' \<Longrightarrow> pool_step s s'"
| step_leak: "pool_leak_scan now ttl_ms s = Inr (k, s') \<Longrightarrow> pool_step s s'"

inductive pool_reachable :: "(nat \<Rightarrow> nat \<Rightarrow> int \<times> nat option) \<Rightarrow> page_pool \<Rightarrow> bool"
  for malloc :: "nat \<Rightarrow> nat \<Rightarrow> int \<times> nat option" where
  reach_ctor: "n < 2 ^ 31 \<Longrightarrow> pool_ctor malloc n b = Inr s \<Longrightarrow> pool_reachable malloc s"
| reach_step: "pool_reachable malloc s \<Longrightarrow> pool_step s s' \<Longrightarrow> pool_reachable malloc s'"

lemma pool_ctor_malloc_ok:
  assumes "pool_ctor malloc n b = Inr s"
  shows "\<forall>i<n. fst (malloc i b) = 0"
proof -
  have "\<forall>i\<in>set xs. fst (malloc i b) = 0"
    if "rfold (pool_ctor_body malloc b) xs t = Inr s'" for xs t s'
    using that
    by (induction xs arbitrary: t) (auto simp: pool_ctor_body_def split_beta split: if_splits)
  with assms show ?thesis unfolding pool_ctor_def by force
qed

lemma rfold_in_range:
  assumes "rfold f ids s = Inr s'"
    and "\<And>pid s s'. f pid s = Inr s' \<Longrightarrow>
      in_range (pl_pages s) pid \<and> length (pl_pages s') = length (pl_pages s)"
  shows "\<forall>pid\<in>set ids. in_range (pl_pages s) pid"
  using assms(1)
proof (induction ids arbitrary: s)
  case Nil
  then show ?case by simp
next
  case (Cons pid ids)
  then obtain s1 where s1: "f pid s = Inr s1" "rfold f ids s1 = Inr s'" by auto
  have "in_range (pl_pages s1) q = in_range (pl_pages s) q" for q
    using assms(2) [OF s1(1)] by (simp add: in_range_def)
  with Cons.IH [OF s1(2)] assms(2) [OF s1(1)] show ?case by simp
qed

lemma pool_step_inv:
  assumes "pool_step s s'" and "pool_inv s"
  shows "pool_inv s'"
  using assms
proof (induction rule: pool_step.induct)
  case (step_alloc now trace_id n s out s')
  then have "0 \<le> n" using pool_alloc_negative [of s n now trace_id] by fastforce
  then show ?case
    using step_alloc pool_alloc_grant [of s n now trace_id] pool_alloc_oom [of s n now trace_id]
    by (cases "n \<le> int (length (pl_free_list s))") auto
next
  case (step_free ids s s')
  then have "\<forall>pid\<in>set ids. in_range (pl_pages s) pid"
    by (intro rfold_in_range [of pool_free_one])
      (auto simp: pool_free_pages_def pool_free_one_def vec_at_Inr_iff pool_release_def
        split: if_splits)
  with step_free pool_free_pages_ok [of s ids] show ?case by auto
next
  case (step_touch now ids s s')
  then have "\<forall>pid\<in>set ids. in_range (pl_pages s) pid"
    unfolding pool_touch_def by (elim rfold_in_range) (auto simp: vec_at_Inr_iff)
  with step_touch pool_touch_ok [of s ids now] show ?case by auto
next
  case (step_leak now ttl_ms s k s')
  with pool_leak_scan_ok [of s now ttl_ms] show ?case by auto
qed

lemma pool_reachable_inv_lemma: "pool_reachable malloc s \<Longrightarrow> pool_inv s"
proof (induction rule: pool_reachable.induct)
  case (reach_ctor n b s)
  with pool_ctor_ok [of n malloc b] pool_ctor_malloc_ok [of malloc n b s] show ?case by auto
next
  case (reach_step s s')
  then show ?case by (blast intro: pool_step_inv)
qed

section \<open>The pool is a complete page source\<close>

lemma pool_universe_cong: "length (pl_pages s) = length (pl_pages t) \<Longrightarrow> pool_universe s = pool_universe t"
  by (simp add: pool_universe_def in_range_def)

interpretation pool: complete_page_source pool_inv pool_universe pool_avail
  "pool_alloc now tr" pool_free_pages for now tr
proof
  fix s and n :: int
  assume inv: "pool_inv s" and n: "0 \<le> n"
  have d: "distinct (pl_free_list s)" using inv by (simp add: pool_inv_def pool_core_def)
  show "\<exists>ids s'. pool_alloc now tr n s = Inr (ids, s') \<and> pool_inv s' \<and> distinct ids \<and>
      set ids \<subseteq> pool_avail s \<and> pool_avail s' = pool_avail s - set ids \<and>
      pool_universe s' = pool_universe s \<and> (ids = [] \<or> int (length ids) = n)"
  proof (cases "n \<le> int (length (pl_free_list s))")
    case True
    let ?r = "rev (pl_free_list s)"
    from pool_alloc_grant [OF inv n True, of now tr] obtain s' where
      s': "pool_alloc now tr n s = Inr (take (nat n) ?r, s')" "pool_inv s'"
        "pl_free_list s' = rev (drop (nat n) ?r)" "pool_granted now tr (take (nat n) ?r) s s'"
      by blast
    have "distinct (take (nat n) ?r @ drop (nat n) ?r)" using d by simp
    then have "set (drop (nat n) ?r) = set ?r - set (take (nat n) ?r)"
      by (metis Diff_cancel Diff_triv Un_Diff append_take_drop_id distinct_append inf_commute
          set_append sup_bot.left_neutral)
    then have "pool_avail s' = pool_avail s - set (take (nat n) ?r)"
      by (simp add: pool_avail_def s'(3))
    moreover have "set (take (nat n) ?r) \<subseteq> pool_avail s"
      using set_take_subset [of "nat n" ?r] by (simp add: pool_avail_def)
    moreover have "int (length (take (nat n) ?r)) = n" using True n by simp
    ultimately show ?thesis
      using s'(1,2,4) d pool_universe_cong [of s' s] by (auto simp: pool_granted_def)
  next
    case False
    with inv show ?thesis by (simp add: pool_alloc_oom)
  qed
next
  fix s ids
  assume "pool_inv s" "distinct ids" "set ids \<subseteq> pool_universe s - pool_avail s"
  moreover from this have "\<forall>pid\<in>set ids. in_range (pl_pages s) pid"
    by (auto simp: pool_universe_def)
  ultimately obtain s' where "pool_free_pages ids s = Inr s'" "pool_inv s'"
      "length (pl_pages s') = length (pl_pages s)" "pool_avail s' = pool_avail s \<union> set ids"
    using pool_free_pages_ok by blast
  with pool_universe_cong [of s' s]
  show "\<exists>s'. pool_free_pages ids s = Inr s' \<and> pool_inv s' \<and>
      pool_avail s' = pool_avail s \<union> set ids \<and> pool_universe s' = pool_universe s"
    by blast
next
  fix s ids s' and n :: int
  assume a: "pool_inv s" "0 \<le> n" "n \<le> int (card (pool_avail s))"
    "pool_alloc now tr n s = Inr (ids, s')"
  then have le: "n \<le> int (length (pl_free_list s))"
    by (simp add: pool_avail_def pool_inv_def pool_core_def distinct_card)
  show "int (length ids) = n"
    using pool_alloc_grant [OF a(1,2) le, of now tr] a(2,4) le by auto
qed (simp, auto simp: pool_universe_def pool_avail_def pool_inv_def pool_core_def)

section \<open>Properties\<close>

text \<open>
  C1: the complete behaviour of \<open>PagePool::alloc\<close> on a consistent pool. A negative count
  throws, a count above the number of free pages returns the empty vector and changes
  nothing, and every other count returns the ids popped off the back of the free list,
  marks exactly those pages as owned by the caller, and leaves a consistent pool.
\<close>

theorem pool_alloc_spec:
  assumes "pool_inv s"
  shows "if n < 0 then pool_alloc now tr n s = Inl Length_error
    else if int (length (pl_free_list s)) < n then pool_alloc now tr n s = Inr ([], s)
    else \<exists>s'. pool_alloc now tr n s = Inr (take (nat n) (rev (pl_free_list s)), s') \<and> pool_inv s' \<and>
        pl_free_list s' = rev (drop (nat n) (rev (pl_free_list s))) \<and>
        pool_granted now tr (take (nat n) (rev (pl_free_list s))) s s'"
  using pool_alloc_negative [OF assms] pool_alloc_oom [OF assms] pool_alloc_grant [OF assms]
  by (auto split: if_split)

definition sample_pool :: page_pool where
  "sample_pool = \<lparr>pl_page_bytes = 64,
     pl_pages = [fresh_page 64 (Some 100), mark_allocated 5 ''req-0'' (fresh_page 64 (Some 101)),
       fresh_page 64 (Some 102)],
     pl_free_list = [0, 2], pl_alloc_cnt = 1, pl_free_cnt = 0\<rparr>"

lemma in_range_3: "in_range [a, b, c] i \<longleftrightarrow> i = 0 \<or> i = 1 \<or> i = 2"
  by (auto simp: in_range_def)

lemma sample_pool_inv: "pool_inv sample_pool"
  by (auto simp: pool_inv_def pool_core_def sample_pool_def pool_in_use_def in_range_3)

theorem pool_alloc_spec_witness:
  "pool_inv sample_pool \<and> (\<exists>s'. pool_alloc 9 ''req-1'' 2 sample_pool = Inr ([2, 0], s') \<and>
     pl_free_list s' = [])"
  using sample_pool_inv pool_alloc_spec [OF sample_pool_inv, of 2 9 "''req-1''"]
  by (auto simp: sample_pool_def)

text \<open>
  C2: \<open>free_pages\<close> on a consistent pool, for any ids of the pool: every listed page ends up
  free, no other page changes, and a page that is already free (a repeated id, a second
  free) is skipped, so that it enters the free list once and \<open>free_cnt_\<close> counts only the
  pages that were in use.
\<close>

theorem pool_free_pages_spec:
  assumes "pool_inv s" and "\<forall>pid\<in>set ids. in_range (pl_pages s) pid"
  shows "\<exists>s'. pool_free_pages ids s = Inr s' \<and> pool_inv s' \<and>
    pool_avail s' = pool_avail s \<union> set ids \<and>
    (\<forall>q. in_range (pl_pages s) q \<and> q \<notin> set ids \<longrightarrow> pl_pages s' ! nat q = pl_pages s ! nat q) \<and>
    pl_free_cnt s' = pl_free_cnt s + word_of_nat (card (set ids - pool_avail s))"
  using pool_free_pages_ok [OF assms] by blast

theorem pool_free_pages_spec_witness:
  "pool_inv sample_pool \<and> (\<exists>s'. pool_free_pages [1, 1, 0] sample_pool = Inr s' \<and>
     pool_avail s' = {0, 1, 2} \<and> pl_free_cnt s' = 1)"
proof -
  have r: "\<forall>pid\<in>set [1, 1, 0]. in_range (pl_pages sample_pool) pid"
    by (simp add: sample_pool_def in_range_3)
  have "set [1, 1, 0] - pool_avail sample_pool = {1}"
    by (auto simp: sample_pool_def pool_avail_def)
  then show ?thesis
    using sample_pool_inv pool_free_pages_spec [OF sample_pool_inv r]
    by (auto simp: sample_pool_def pool_avail_def)
qed

text \<open>
  C3: \<open>leak_scan\<close> reclaims exactly the pages in use whose last touch is more than
  \<open>ttl_ms\<close> milliseconds old, returns their number, and leaves every other page alone.
\<close>

theorem pool_leak_scan_spec:
  assumes "pool_inv s"
  shows "\<exists>s'. pool_leak_scan now ttl s = Inr (int (card (pool_stale now ttl s)), s') \<and>
    pool_inv s' \<and> pool_avail s' = pool_avail s \<union> pool_stale now ttl s \<and>
    (\<forall>q. in_range (pl_pages s) q \<and> q \<notin> pool_stale now ttl s \<longrightarrow>
       pl_pages s' ! nat q = pl_pages s ! nat q)"
  using pool_leak_scan_ok [OF assms] by blast

theorem pool_leak_scan_spec_witness:
  "pool_inv sample_pool \<and>
   (\<exists>s'. pool_leak_scan 30000005 20 sample_pool = Inr (1, s') \<and> pool_avail s' = {0, 1, 2})"
proof -
  have "pool_stale 30000005 20 sample_pool = {1}"
    by (auto simp: pool_stale_def pool_universe_def pool_avail_def sample_pool_def in_range_3
        age_ms_def mark_allocated_def)
  then show ?thesis
    using sample_pool_inv pool_leak_scan_spec [OF sample_pool_inv, of 30000005 20]
    by (auto simp: sample_pool_def pool_avail_def)
qed

text \<open>
  C4: whatever calls any threads make, in whatever order, every state of a constructed pool
  is consistent and its statistics add up: pages in use plus pages on the free list are all
  pages, and \<open>alloc_cnt - free_cnt\<close> is the number of pages in use (modulo the counters'
  64 bits).
\<close>

theorem pool_reachable_consistent:
  assumes "pool_reachable malloc s"
  shows "pool_inv s \<and>
    st_in_use (pool_get_stats s) + st_free (pool_get_stats s) = st_total (pool_get_stats s) \<and>
    word_of_int (st_in_use (pool_get_stats s)) =
      st_alloc_cnt (pool_get_stats s) - st_free_cnt (pool_get_stats s)"
proof -
  have inv: "pool_inv s" using assms by (rule pool_reachable_inv_lemma)
  then have core: "pool_core s" by (simp add: pool_inv_def)
  show ?thesis
    using inv pool_free_list_length [OF core] pool_coreD(1) [OF core]
      pool_inv_free_list_small [OF inv]
    by (simp add: pool_get_stats_def pool_inv_def)
qed

theorem pool_reachable_consistent_witness:
  "\<exists>s. pool_reachable (\<lambda>i b. (0, Some i)) s \<and> pool_inv s \<and>
     st_in_use (pool_get_stats s) + st_free (pool_get_stats s) = st_total (pool_get_stats s)"
proof -
  let ?m = "\<lambda>(i :: nat) (b :: nat). (0 :: int, Some i)"
  obtain s where s: "pool_ctor ?m 3 64 = Inr s" "pool_inv s" "pl_free_list s = map int [0..<3]"
    using pool_ctor_ok [of 3 ?m 64] by auto
  then obtain s' where s': "pool_alloc 1 ''a'' 2 s = Inr (take (nat 2) (rev (pl_free_list s)), s')"
    using pool_alloc_grant [of s 2 1 "''a''"] by auto
  have "pool_reachable ?m s" by (rule reach_ctor [OF _ s(1)]) simp
  then have "pool_reachable ?m s'" by (rule reach_step) (rule step_alloc [OF s'])
  then show ?thesis using pool_reachable_consistent [of ?m s'] by blast
qed

end
