(* ===== verification/Portable.thy ===== *)
theory Portable
  imports Page_Pool
begin

text \<open>
  The part of include/portable.hpp that is code: the memory helpers of the SYCL back end, the macros of the CPU back
  end, and \<open>AMP_CHECK\<close>; the CUDA and HIP macros rename calls of their runtimes. The SYCL runtime is a
  parameter where it allocates, and a step relation where it runs copies: a queue may run the
  commands submitted to it in any order, until somebody waits for it.
\<close>

section \<open>Allocation\<close>

text \<open>An error code, 0 for \<open>AMP_OK\<close>, and the pointer stored; \<open>None\<close> is null.\<close>

definition sycl_malloc :: "(nat \<Rightarrow> nat option) \<Rightarrow> nat \<Rightarrow> int \<times> nat option" where
  "sycl_malloc malloc_device n = (let p = malloc_device n in (if p \<noteq> None then 0 else -1, p))"

definition cpu_malloc :: "(nat \<Rightarrow> nat option) \<Rightarrow> nat \<Rightarrow> int \<times> nat option" where
  "cpu_malloc malloc n = (0, malloc n)"

definition amp_check :: "int \<Rightarrow> unit res" where
  "amp_check e = (if e \<noteq> 0 then Inl (Runtime_error ''AMP error'') else Inr ())"

lemma pool_ctor_body_check: "pool_ctor_body malloc b i s = rbind (amp_check (fst (malloc i b))) (\<lambda>_.
    Inr (s\<lparr>pl_pages := (pl_pages s)[i := (pl_pages s ! i)\<lparr>pg_dptr := snd (malloc i b), pg_bytes := b, pg_freed := True\<rparr>],
      pl_free_list := pl_free_list s @ [cast_int i]\<rparr>))"
  by (simp add: pool_ctor_body_def amp_check_def split_beta)

text \<open>The constructor of the pool throws as soon as one allocation reports an error.\<close>

lemma pool_ctor_throws:
  assumes "i < n" and "fst (malloc i b) \<noteq> 0"
  shows "pool_ctor malloc n b = Inl (Runtime_error ''AMP error'')"
proof -
  have "rfold (pool_ctor_body malloc b) xs s = Inl (Runtime_error ''AMP error'')" if "i \<in> set xs" for xs s
    using that
  proof (induction xs arbitrary: s)
    case (Cons x xs)
    show ?case
    proof (cases "fst (malloc x b) = 0")
      case True
      with assms(2) Cons.prems have "i \<in> set xs" by auto
      from Cons.IH [OF this] True show ?thesis by (simp add: pool_ctor_body_check amp_check_def)
    qed (simp add: pool_ctor_body_check amp_check_def)
  qed simp
  with assms(1) show ?thesis by (simp add: pool_ctor_def)
qed

text \<open>
  A pool on the two back ends, where \<open>mem i\<close> is what the \<open>i\<close>-th allocation returns. With SYCL the
  constructor gives a pool in which every page has its memory, or throws, and nothing
  remembers the pages allocated before. On the CPU it never throws: a page whose allocation failed is free, with a null
  pointer.
\<close>

theorem pool_on_backends:
  assumes "n < 2 ^ 31"
  shows "(\<forall>i<n. mem i b \<noteq> None) \<Longrightarrow> \<exists>s. pool_ctor (\<lambda>i. sycl_malloc (mem i)) n b = Inr s \<and> pool_inv s \<and>
      pool_dtor s = map (\<lambda>i. the (mem i b)) [0..<n]"
    and "(\<exists>i<n. mem i b = None) \<Longrightarrow> pool_ctor (\<lambda>i. sycl_malloc (mem i)) n b = Inl (Runtime_error ''AMP error'')"
    and "\<exists>s. pool_ctor (\<lambda>i. cpu_malloc (mem i)) n b = Inr s \<and> pool_inv s \<and> pl_free_list s = map int [0..<n] \<and>
      (\<forall>i<n. pg_dptr (pl_pages s ! i) = mem i b)"
proof -
  assume ok: "\<forall>i<n. mem i b \<noteq> None"
  then have "\<forall>i<n. fst (sycl_malloc (mem i) b) = 0" by (simp add: sycl_malloc_def)
  from pool_ctor_ok [where malloc = "\<lambda>i. sycl_malloc (mem i)" and b = b, OF this assms] obtain s where s: "pool_ctor (\<lambda>i. sycl_malloc (mem i)) n b = Inr s" "pool_inv s"
    "pool_dtor s = List.map_filter (\<lambda>i. snd (sycl_malloc (mem i) b)) [0..<n]" by blast
  have "[i\<leftarrow>[0..<n]. mem i b \<noteq> None] = [0..<n]" using ok by (simp add: filter_id_conv)
  then have "pool_dtor s = map (\<lambda>i. the (mem i b)) [0..<n]"
    using s(3) by (simp add: sycl_malloc_def Let_def map_filter_def o_def)
  with s(1,2) show "\<exists>s. pool_ctor (\<lambda>i. sycl_malloc (mem i)) n b = Inr s \<and> pool_inv s \<and>
      pool_dtor s = map (\<lambda>i. the (mem i b)) [0..<n]" by blast
next
  assume "\<exists>i<n. mem i b = None"
  then obtain i where "i < n" "fst (sycl_malloc (mem i) b) \<noteq> 0" by (auto simp: sycl_malloc_def)
  then show "pool_ctor (\<lambda>i. sycl_malloc (mem i)) n b = Inl (Runtime_error ''AMP error'')" by (rule pool_ctor_throws [where malloc = "\<lambda>i. sycl_malloc (mem i)" and b = b])
next
  have ok: "\<forall>i<n. fst (cpu_malloc (mem i) b) = 0" by (simp add: cpu_malloc_def)
  from pool_ctor_ok [where malloc = "\<lambda>i. cpu_malloc (mem i)" and b = b, OF ok assms] obtain s where s: "pool_ctor (\<lambda>i. cpu_malloc (mem i)) n b = Inr s" "pool_inv s"
    "pl_free_list s = map int [0..<n]" by blast
  have "pl_pages s = map (\<lambda>i. fresh_page b (mem i b)) [0..<n]"
    using s(1) pool_ctor_loop_eq [where malloc = "\<lambda>i. cpu_malloc (mem i)" and b = b, OF ok le_refl] by (auto simp: pool_ctor_def cpu_malloc_def)
  then have "\<forall>i<n. pg_dptr (pl_pages s ! i) = mem i b" by simp
  with s show "\<exists>s. pool_ctor (\<lambda>i. cpu_malloc (mem i)) n b = Inr s \<and> pool_inv s \<and> pl_free_list s = map int [0..<n] \<and>
      (\<forall>i<n. pg_dptr (pl_pages s ! i) = mem i b)" by blast
qed

section \<open>Copies on queues\<close>

text \<open>A copy: the queue it was submitted to, destination, source, number of bytes.\<close>

record copy =
  cp_queue :: nat
  cp_dst :: nat
  cp_src :: nat
  cp_bytes :: nat

record sycl_mem =
  sm_blocks :: "nat \<rightharpoonup> byte list"
  sm_pending :: "copy list"

definition copied :: "nat \<Rightarrow> byte list \<Rightarrow> byte list \<Rightarrow> byte list" where
  "copied n src dst = take n src @ drop n dst"

text \<open>The queue of a stream argument; null is the default queue, number 0.\<close>

definition queue_of :: "nat option \<Rightarrow> nat" where
  "queue_of q = (case q of None \<Rightarrow> 0 | Some k \<Rightarrow> Suc k)"

definition sycl_memcpy_async :: "nat \<Rightarrow> nat \<Rightarrow> nat \<Rightarrow> nat option \<Rightarrow> sycl_mem \<Rightarrow> sycl_mem" where
  "sycl_memcpy_async d s n q m =
     m\<lparr>sm_pending := sm_pending m @ [\<lparr>cp_queue = queue_of q, cp_dst = d, cp_src = s, cp_bytes = n\<rparr>]\<rparr>"

definition sycl_free :: "nat \<Rightarrow> sycl_mem \<Rightarrow> sycl_mem" where
  "sycl_free p m = m\<lparr>sm_blocks := (sm_blocks m)(p := None)\<rparr>"

inductive sycl_step :: "sycl_mem \<Rightarrow> sycl_mem \<Rightarrow> bool" where
  "c \<in> set (sm_pending m) \<Longrightarrow> sm_blocks m (cp_src c) = Some src \<Longrightarrow> sm_blocks m (cp_dst c) = Some dst \<Longrightarrow>
    cp_bytes c \<le> length src \<Longrightarrow> cp_bytes c \<le> length dst \<Longrightarrow>
    sycl_step m (m\<lparr>sm_blocks := (sm_blocks m)(cp_dst c \<mapsto> copied (cp_bytes c) src dst), sm_pending := remove1 c (sm_pending m)\<rparr>)"

inductive_cases sycl_stepE: "sycl_step m m'"

text \<open>
  \<open>AMP_STREAM_SYNC\<close> waits for the queue of the stream, \<open>AMP_SYNC\<close> for the default queue, and \<open>sycl_memcpy\<close> submits to the default
  queue and waits for its command.
\<close>

definition stream_sync :: "nat \<Rightarrow> sycl_mem \<Rightarrow> sycl_mem \<Rightarrow> bool" where
  "stream_sync s m m' \<longleftrightarrow> sycl_step\<^sup>*\<^sup>* m m' \<and> (\<forall>c\<in>set (sm_pending m'). cp_queue c \<noteq> queue_of (Some s))"

definition amp_sync :: "sycl_mem \<Rightarrow> sycl_mem \<Rightarrow> bool" where
  "amp_sync m m' \<longleftrightarrow> sycl_step\<^sup>*\<^sup>* m m' \<and> (\<forall>c\<in>set (sm_pending m'). cp_queue c \<noteq> queue_of None)"

definition sycl_memcpy :: "nat \<Rightarrow> nat \<Rightarrow> nat \<Rightarrow> sycl_mem \<Rightarrow> sycl_mem \<Rightarrow> bool" where
  "sycl_memcpy d s n m m' \<longleftrightarrow> sycl_step\<^sup>*\<^sup>* (sycl_memcpy_async d s n None m) m' \<and>
     \<lparr>cp_queue = queue_of None, cp_dst = d, cp_src = s, cp_bytes = n\<rparr> \<notin> set (sm_pending m')"

text \<open>What holds of a copy while it waits and after it ran, if no other command writes to its two blocks.\<close>

definition copy_state :: "copy \<Rightarrow> byte list \<Rightarrow> byte list \<Rightarrow> sycl_mem \<Rightarrow> bool" where
  "copy_state c src dst m \<longleftrightarrow> sm_blocks m (cp_src c) = Some src \<and>
     (if c \<in> set (sm_pending m)
      then sm_blocks m (cp_dst c) = Some dst \<and> (\<forall>c'\<in>set (remove1 c (sm_pending m)). cp_dst c' \<noteq> cp_dst c \<and> cp_dst c' \<noteq> cp_src c)
      else sm_blocks m (cp_dst c) = Some (copied (cp_bytes c) src dst) \<and>
        (\<forall>c'\<in>set (sm_pending m). cp_dst c' \<noteq> cp_dst c \<and> cp_dst c' \<noteq> cp_src c))"

lemma copy_state_step:
  assumes "sycl_step m m'" and "copy_state c src dst m" and "cp_src c \<noteq> cp_dst c"
  shows "copy_state c src dst m'"
proof -
  obtain c' src' dst' where 1: "m' = m\<lparr>sm_blocks := (sm_blocks m)(cp_dst c' \<mapsto> copied (cp_bytes c') src' dst'),
      sm_pending := remove1 c' (sm_pending m)\<rparr>" "c' \<in> set (sm_pending m)"
    "sm_blocks m (cp_src c') = Some src'" "sm_blocks m (cp_dst c') = Some dst'"
    using assms(1) by (rule sycl_stepE) blast
  show ?thesis
  proof (cases "c' = c")
    case True
    then have "c \<notin> set (remove1 c (sm_pending m))" using assms(2) 1(2) by (auto simp: copy_state_def)
    with True 1 assms(2,3) show ?thesis by (simp add: copy_state_def)
  next
    case False
    then have other: "cp_dst c' \<noteq> cp_dst c" "cp_dst c' \<noteq> cp_src c"
      using 1(2) assms(2) by (auto simp: copy_state_def split: if_splits)
    have sub: "set (remove1 c' (remove1 c (sm_pending m))) \<subseteq> set (remove1 c (sm_pending m))"
      "set (remove1 c' (sm_pending m)) \<subseteq> set (sm_pending m)" by (rule set_remove1_subset)+
    have "c \<in> set (remove1 c' (sm_pending m)) \<longleftrightarrow> c \<in> set (sm_pending m)" using False by auto
    with 1 assms(2) other sub show ?thesis
      by (auto simp: copy_state_def remove1_commute [of c c'])
  qed
qed

lemma copy_state_steps:
  assumes "sycl_step\<^sup>*\<^sup>* m m'" and "copy_state c src dst m" and "cp_src c \<noteq> cp_dst c"
  shows "copy_state c src dst m'"
  using assms by (induction rule: rtranclp_induct) (auto intro: copy_state_step)

text \<open>
  A copy submitted to a stream, when no command under way writes to its blocks, has arrived
  whenever the stream has been synchronised, and a synchronous copy whenever it returns, whatever else runs. Synchronising the
  device waits for the default queue only: a copy on another stream may still be
  pending then, with the destination as it was.
\<close>

theorem copy_arrives:
  assumes "sm_blocks m s = Some src" "sm_blocks m d = Some dst" "s \<noteq> d"
    and "\<forall>c\<in>set (sm_pending m). cp_dst c \<noteq> d \<and> cp_dst c \<noteq> s"
  shows "stream_sync k (sycl_memcpy_async d s n (Some k) m) m' \<Longrightarrow> sm_blocks m' d = Some (copied n src dst)"
    and "sycl_memcpy d s n m m' \<Longrightarrow> sm_blocks m' d = Some (copied n src dst)"
    and "sm_pending m = [] \<Longrightarrow> \<exists>m'. amp_sync (sycl_memcpy_async d s n (Some k) m) m' \<and> sm_blocks m' d = Some dst"
proof -
  have start: "copy_state \<lparr>cp_queue = queue_of q, cp_dst = d, cp_src = s, cp_bytes = n\<rparr> src dst (sycl_memcpy_async d s n q m)" for q
    using assms by (auto simp: copy_state_def sycl_memcpy_async_def remove1_append)
  note run = copy_state_steps [OF _ start]
  show "sm_blocks m' d = Some (copied n src dst)" if "stream_sync k (sycl_memcpy_async d s n (Some k) m) m'"
    using that run [of "Some k" m'] assms(3) by (auto simp: stream_sync_def copy_state_def split: if_splits)
  show "sm_blocks m' d = Some (copied n src dst)" if "sycl_memcpy d s n m m'"
    using that run [of None m'] assms(3) by (auto simp: sycl_memcpy_def copy_state_def split: if_splits)
  show "\<exists>m'. amp_sync (sycl_memcpy_async d s n (Some k) m) m' \<and> sm_blocks m' d = Some dst" if "sm_pending m = []"
    using that assms(2) by (intro exI [of _ "sycl_memcpy_async d s n (Some k) m"])
      (simp add: amp_sync_def sycl_memcpy_async_def queue_of_def)
qed

text \<open>On an idle device, with both blocks long enough, the synchronisation does return.\<close>

lemma sync_returns:
  assumes "sm_blocks m s = Some src" "sm_blocks m d = Some dst" "n \<le> length src" "n \<le> length dst" "sm_pending m = []"
  shows "\<exists>m'. stream_sync k (sycl_memcpy_async d s n (Some k) m) m' \<and> sm_pending m' = []"
proof -
  let ?c = "\<lparr>cp_queue = queue_of (Some k), cp_dst = d, cp_src = s, cp_bytes = n\<rparr>"
  let ?m = "sycl_memcpy_async d s n (Some k) m"
  let ?m' = "?m\<lparr>sm_blocks := (sm_blocks ?m)(cp_dst ?c \<mapsto> copied (cp_bytes ?c) src dst), sm_pending := remove1 ?c (sm_pending ?m)\<rparr>"
  have "sycl_step ?m ?m'" by (rule sycl_step.intros) (use assms in \<open>simp_all add: sycl_memcpy_async_def\<close>)
  then have "sycl_step\<^sup>*\<^sup>* ?m ?m'" ..
  moreover have "sm_pending ?m' = []" using assms(5) by (simp add: sycl_memcpy_async_def)
  ultimately show ?thesis unfolding stream_sync_def by (intro exI [of _ ?m']) simp
qed

end
