(* ===== verification/Page_Pool_Fast.thy ===== *)
theory Page_Pool_Fast
  imports Page_Source
begin

text \<open>
  \<open>PagePoolFast\<close> (include/pool_fast.hpp, src/pool_fast.cpp): the sharded allocator whose
  free pages form one linked stack per shard, threaded through \<open>next_\<close> and headed by
  \<open>heads_\<close>. This theory models the operations as they run without interference: each
  \<open>compare_exchange_weak\<close> then succeeds (a spurious failure only repeats the loop with the
  same head). Interference between threads is the subject of the theory on the shard stack.
  The value of \<open>now_us()\<close> is the argument \<open>ts\<close> or \<open>now\<close>.
\<close>

section \<open>Data\<close>

record page_meta =
  pm_touch_us :: u64
  pm_shard :: u32

record fast_pool =
  fp_page_bytes :: nat
  fp_n_shards :: int
  fp_dptrs :: "nat option list"
  fp_meta :: "page_meta list"
  fp_heads :: "int list"
  fp_next :: "int list"
  fp_alloc_cnt :: u64
  fp_free_cnt :: u64

record fast_stats =
  fs_total :: int
  fs_in_use :: int
  fs_alloc_cnt :: u64
  fs_free_cnt :: u64

section \<open>Operations\<close>

definition fast_ctor_page ::
  "(nat \<Rightarrow> nat \<Rightarrow> int \<times> nat option) \<Rightarrow> nat \<Rightarrow> nat \<Rightarrow> fast_pool \<Rightarrow> fast_pool res" where
  "fast_ctor_page malloc page_bytes i s =
     (let (code, ptr) = malloc i page_bytes in
      if code \<noteq> 0 then Inl (Runtime_error ''AMP error'')
      else if fp_n_shards s = 0 then Inl Div_zero
      else Inr (s\<lparr>fp_dptrs := (fp_dptrs s)[i := ptr],
        fp_meta := (fp_meta s)[i := \<lparr>pm_touch_us = 0,
          pm_shard = word_of_nat (i mod nat (fp_n_shards s))\<rparr>]\<rparr>))"

definition fast_ctor_link :: "nat \<Rightarrow> fast_pool \<Rightarrow> fast_pool res" where
  "fast_ctor_link i s =
     (if fp_n_shards s = 0 then Inl Div_zero
      else let sh = cast_int (i mod nat (fp_n_shards s)) in
        rbind (vec_at (fp_heads s) sh) (\<lambda>old.
          Inr (s\<lparr>fp_next := (fp_next s)[i := old],
                 fp_heads := (fp_heads s)[nat sh := cast_int i]\<rparr>)))"

definition fast_ctor ::
  "(nat \<Rightarrow> nat \<Rightarrow> int \<times> nat option) \<Rightarrow> nat \<Rightarrow> nat \<Rightarrow> int \<Rightarrow> fast_pool res" where
  "fast_ctor malloc n_pages page_bytes n_shards =
     (if n_shards < 0 then Inl Length_error
      else rbind (rfold (fast_ctor_page malloc page_bytes) [0..<n_pages]
          \<lparr>fp_page_bytes = page_bytes, fp_n_shards = n_shards,
           fp_dptrs = replicate n_pages None,
           fp_meta = replicate n_pages \<lparr>pm_touch_us = 0, pm_shard = 0\<rparr>,
           fp_heads = replicate (nat n_shards) (-1), fp_next = replicate n_pages 0,
           fp_alloc_cnt = 0, fp_free_cnt = 0\<rparr>)
        (\<lambda>s. rfold fast_ctor_link [0..<n_pages]
               (s\<lparr>fp_heads := replicate (nat n_shards) (-1)\<rparr>)))"

definition fast_dtor :: "fast_pool \<Rightarrow> nat list" where
  "fast_dtor s = List.map_filter (\<lambda>p. p) (fp_dptrs s)"

text \<open>
  The inner loop of \<open>alloc\<close>: pop the head of shard \<open>sh\<close> until \<open>r\<close> more pages were
  taken or the stack is empty.
\<close>

primrec fast_pop_loop ::
  "nat \<Rightarrow> u64 \<Rightarrow> int \<Rightarrow> int list \<Rightarrow> fast_pool \<Rightarrow> (int list \<times> fast_pool) res" where
  "fast_pop_loop 0 ts sh out s = Inr (out, s)"
| "fast_pop_loop (Suc r) ts sh out s =
     rbind (vec_at (fp_heads s) sh) (\<lambda>top.
       if top = -1 then Inr (out, s)
       else rbind (vec_at (fp_next s) top) (\<lambda>nxt.
         rbind (vec_at (fp_meta s) top) (\<lambda>m.
           fast_pop_loop r ts sh (out @ [top])
             (s\<lparr>fp_heads := (fp_heads s)[nat sh := nxt],
                fp_meta := (fp_meta s)[nat top := m\<lparr>pm_touch_us := ts\<rparr>]\<rparr>))))"

text \<open>The outer loop: at most \<open>tries\<close> shards, starting at \<open>sh\<close> and wrapping around.\<close>

primrec fast_scan ::
  "nat \<Rightarrow> nat \<Rightarrow> u64 \<Rightarrow> int \<Rightarrow> int list \<Rightarrow> fast_pool \<Rightarrow> (int list \<times> fast_pool) res" where
  "fast_scan 0 n ts sh out s = Inr (out, s)"
| "fast_scan (Suc tries) n ts sh out s =
     (if length out < n
      then rbind (fast_pop_loop (n - length out) ts sh out s) (\<lambda>(out', s').
        fast_scan tries n ts ((sh + 1) mod fp_n_shards s) out' s')
      else Inr (out, s))"

definition fast_push :: "int \<Rightarrow> fast_pool \<Rightarrow> fast_pool res" where
  "fast_push pid s =
     rbind (vec_at (fp_meta s) pid) (\<lambda>m.
       let sh = sint (pm_shard m) in
       rbind (vec_at (fp_heads s) sh) (\<lambda>top.
         rbind (vec_at (fp_next s) pid) (\<lambda>_.
           Inr (s\<lparr>fp_meta := (fp_meta s)[nat pid := m\<lparr>pm_touch_us := 0\<rparr>],
                  fp_next := (fp_next s)[nat pid := top],
                  fp_heads := (fp_heads s)[nat sh := pid]\<rparr>))))"

definition fast_free_pages :: "int list \<Rightarrow> fast_pool \<Rightarrow> fast_pool res" where
  "fast_free_pages ids s = rbind (rfold fast_push ids s) (\<lambda>s'.
     Inr (s'\<lparr>fp_free_cnt := fp_free_cnt s' + word_of_nat (length ids)\<rparr>))"

text \<open>
  \<open>alloc\<close>: the start shard is \<open>(unsigned)thread_hash % n_shards_\<close>. When fewer than \<open>n\<close>
  pages were found the ones already taken are given back and the result is empty.
\<close>

definition fast_alloc ::
  "u64 \<Rightarrow> int \<Rightarrow> int \<Rightarrow> fast_pool \<Rightarrow> (int list \<times> fast_pool) res" where
  "fast_alloc ts thread_hash n s =
     (if n < 0 then Inl Length_error
      else if fp_n_shards s = 0 then Inl Div_zero
      else let sh = uint (word_of_int thread_hash :: u32) mod fp_n_shards s in
        rbind (fast_scan (nat (fp_n_shards s)) (nat n) ts sh [] s) (\<lambda>(out, s').
          if length out < nat n
          then rbind (fast_free_pages out s') (\<lambda>s''. Inr ([], s''))
          else Inr (out, s'\<lparr>fp_alloc_cnt := fp_alloc_cnt s' + word_of_int n\<rparr>)))"

definition fast_touch :: "u64 \<Rightarrow> int list \<Rightarrow> fast_pool \<Rightarrow> fast_pool res" where
  "fast_touch ts ids s = rfold (\<lambda>pid s. rbind (vec_at (fp_meta s) pid) (\<lambda>m.
     Inr (s\<lparr>fp_meta := (fp_meta s)[nat pid := m\<lparr>pm_touch_us := ts\<rparr>]\<rparr>))) ids s"

text \<open>\<open>leak_scan\<close>: the age \<open>now - t\<close> and the limit \<open>ttl_ms * 1000\<close> are unsigned.\<close>

definition fast_stale :: "u64 \<Rightarrow> int \<Rightarrow> page_meta \<Rightarrow> bool" where
  "fast_stale now ttl_ms m \<longleftrightarrow>
     pm_touch_us m \<noteq> 0 \<and> word_of_int ttl_ms * 1000 < now - pm_touch_us m"

definition fast_orphans :: "u64 \<Rightarrow> int \<Rightarrow> fast_pool \<Rightarrow> int list" where
  "fast_orphans now ttl_ms s =
     map cast_int (filter (\<lambda>i. fast_stale now ttl_ms (fp_meta s ! i)) [0..<length (fp_meta s)])"

definition fast_leak_scan :: "u64 \<Rightarrow> int \<Rightarrow> fast_pool \<Rightarrow> (int \<times> fast_pool) res" where
  "fast_leak_scan now ttl_ms s =
     (let orphan = fast_orphans now ttl_ms s in
      rbind (fast_free_pages orphan s) (\<lambda>s'. Inr (cast_int (length orphan), s')))"

definition fast_in_use :: "fast_pool \<Rightarrow> nat" where
  "fast_in_use s = length (filter (\<lambda>m. pm_touch_us m \<noteq> 0) (fp_meta s))"

definition fast_get_stats :: "fast_pool \<Rightarrow> fast_stats" where
  "fast_get_stats s = \<lparr>fs_total = cast_int (length (fp_meta s)), fs_in_use = int (fast_in_use s),
     fs_alloc_cnt = fp_alloc_cnt s, fs_free_cnt = fp_free_cnt s\<rparr>"

section \<open>Linked stacks\<close>

text \<open>\<open>chain nx h xs\<close>: following \<open>nx\<close> from \<open>h\<close> visits \<open>xs\<close> and ends at -1.\<close>

primrec chain :: "int list \<Rightarrow> int \<Rightarrow> int list \<Rightarrow> bool" where
  "chain nx h [] \<longleftrightarrow> h = -1"
| "chain nx h (x # xs) \<longleftrightarrow> h = x \<and> in_range nx x \<and> chain nx (nx ! nat x) xs"

text \<open>The stack a head leads to, read with a bound on the number of links.\<close>

primrec follow :: "nat \<Rightarrow> int list \<Rightarrow> int \<Rightarrow> int list" where
  "follow 0 nx h = []"
| "follow (Suc k) nx h = (if in_range nx h then h # follow k nx (nx ! nat h) else [])"

lemma chain_in_range: "chain nx h xs \<Longrightarrow> \<forall>x\<in>set xs. in_range nx x"
  by (induction xs arbitrary: h) (simp, metis chain.simps(2) set_ConsD)

lemma chain_update:
  "in_range nx x \<Longrightarrow> x \<notin> set xs \<Longrightarrow> chain (nx[nat x := v]) h xs = chain nx h xs"
  by (induction xs arbitrary: h) (simp_all add: nth_update_in_range cong: conj_cong)

lemma chain_follow: "chain nx h xs \<Longrightarrow> length xs \<le> k \<Longrightarrow> follow k nx h = xs"
proof (induction xs arbitrary: h k)
  case Nil
  then show ?case by (cases k) (auto simp: in_range_def)
next
  case (Cons x xs)
  then obtain j where "k = Suc j" "length xs \<le> j" by (cases k) simp_all
  with Cons show ?case by simp
qed

lemma distinct_in_range_length:
  assumes "distinct xs" and "\<And>x. x \<in> set xs \<Longrightarrow> in_range nx x"
  shows "length xs \<le> length nx"
proof -
  have "set xs \<subseteq> {0..<int (length nx)}" using assms(2) by (auto simp: in_range_def)
  then have "card (set xs) \<le> card {0..<int (length nx)}" by (rule card_mono [rotated]) simp
  then show ?thesis using distinct_card [OF assms(1)] by simp
qed

section \<open>Representation\<close>

definition fast_stacks :: "fast_pool \<Rightarrow> int list list" where
  "fast_stacks s = map (follow (length (fp_next s)) (fp_next s)) (fp_heads s)"

definition fast_rep :: "int list list \<Rightarrow> fast_pool \<Rightarrow> bool" where
  "fast_rep st s \<longleftrightarrow>
     0 < fp_n_shards s \<and> fp_n_shards s < 2 ^ 31 \<and> length (fp_next s) < 2 ^ 31 \<and>
     length (fp_meta s) = length (fp_next s) \<and>
     length (fp_heads s) = nat (fp_n_shards s) \<and> length st = nat (fp_n_shards s) \<and>
     (\<forall>k<length st. chain (fp_next s) (fp_heads s ! k) (st ! k)) \<and>
     distinct (concat st) \<and>
     (\<forall>k<length st. \<forall>x\<in>set (st ! k). sint (pm_shard (fp_meta s ! nat x)) = int k) \<and>
     (\<forall>m\<in>set (fp_meta s). 0 \<le> sint (pm_shard m) \<and> sint (pm_shard m) < fp_n_shards s)"

definition fast_inv :: "fast_pool \<Rightarrow> bool" where
  "fast_inv s \<longleftrightarrow> fast_rep (fast_stacks s) s"

definition fast_universe :: "fast_pool \<Rightarrow> int set" where
  "fast_universe s = {pid. in_range (fp_meta s) pid}"

definition fast_avail :: "fast_pool \<Rightarrow> int set" where
  "fast_avail s = set (concat (fast_stacks s))"

lemma fast_repD:
  assumes "fast_rep st s"
  shows "0 < fp_n_shards s" and "fp_n_shards s < 2 ^ 31" and "length (fp_next s) < 2 ^ 31"
    and "length (fp_meta s) = length (fp_next s)" and "length (fp_heads s) = nat (fp_n_shards s)"
    and "length st = nat (fp_n_shards s)"
    and "k < length st \<Longrightarrow> chain (fp_next s) (fp_heads s ! k) (st ! k)"
    and "distinct (concat st)"
    and "k < length st \<Longrightarrow> x \<in> set (st ! k) \<Longrightarrow> sint (pm_shard (fp_meta s ! nat x)) = int k"
    and "m \<in> set (fp_meta s) \<Longrightarrow> 0 \<le> sint (pm_shard m) \<and> sint (pm_shard m) < fp_n_shards s"
  using assms unfolding fast_rep_def by blast+

lemma in_range_meta: "fast_rep st s \<Longrightarrow> in_range (fp_meta s) x = in_range (fp_next s) x"
  by (simp add: in_range_def fast_repD(4))

lemma fast_rep_in_range:
  assumes "fast_rep st s" and "x \<in> set (concat st)"
  shows "in_range (fp_next s) x"
proof -
  from assms(2) obtain k where "k < length st" "x \<in> set (st ! k)"
    unfolding in_concat_nth by blast
  with fast_repD(7) [OF assms(1)] chain_in_range show ?thesis by blast
qed

lemma distinct_concat_nth: "distinct (concat st) \<Longrightarrow> k < length st \<Longrightarrow> distinct (st ! k)"
  by (auto simp: distinct_concat_iff in_set_conv_nth)

lemma fast_rep_unique:
  assumes "fast_rep st s"
  shows "fast_stacks s = st"
proof (rule nth_equalityI)
  show "length (fast_stacks s) = length st"
    using fast_repD(5,6) [OF assms] by (simp add: fast_stacks_def)
  fix k assume "k < length (fast_stacks s)"
  then have k: "k < length st" "k < length (fp_heads s)"
    using fast_repD(5,6) [OF assms] by (simp_all add: fast_stacks_def)
  note ch = fast_repD(7) [OF assms k(1)]
  have "length (st ! k) \<le> length (fp_next s)"
    using distinct_concat_nth [OF fast_repD(8) [OF assms] k(1)] chain_in_range [OF ch]
    by (blast intro: distinct_in_range_length)
  with k(2) show "fast_stacks s ! k = st ! k"
    by (simp add: fast_stacks_def chain_follow [OF ch])
qed

lemma fast_rep_inv: "fast_rep st s \<Longrightarrow> fast_inv s \<and> fast_avail s = set (concat st)"
  by (simp add: fast_inv_def fast_avail_def fast_rep_unique)

text \<open>Popping the head of shard \<open>k\<close>.\<close>

lemma nth_concat_disjoint:
  assumes "distinct (concat st)" and "j < length st" and "k < length st" and "j \<noteq> k"
  shows "set (st ! j) \<inter> set (st ! k) = {}"
  using assms
proof (induction st arbitrary: j k)
  case Nil
  then show ?case by simp
next
  case (Cons xs st)
  have "set xs \<inter> set (st ! i) = {}" if "i < length st" for i
    using Cons.prems(1) nth_mem [OF that] by auto
  with Cons show ?case by (cases j; cases k) (auto simp: Int_commute)
qed

lemma set_concat_drop:
  "k < length st \<Longrightarrow> distinct (concat st) \<Longrightarrow> st ! k = ys @ xs \<Longrightarrow>
    set (concat (st[k := xs])) = set (concat st) - set ys \<and> distinct (concat (st[k := xs]))"
proof (induction st arbitrary: k)
  case Nil
  then show ?case by simp
next
  case (Cons zs st)
  show ?case
  proof (cases k)
    case 0
    with Cons.prems show ?thesis by auto
  next
    case (Suc j)
    with Cons.prems have j: "j < length st" "distinct (concat st)" "st ! j = ys @ xs" by auto
    have "set ys \<subseteq> set (concat st)" using j unfolding subset_iff in_concat_nth by auto
    then have "set ys \<inter> set zs = {}" using Cons.prems(2) by auto
    moreover have "set (concat (st[j := xs])) \<subseteq> set (concat st)" using Cons.IH [OF j] by blast
    ultimately show ?thesis using Suc Cons.IH [OF j] Cons.prems(2) by auto
  qed
qed

lemma set_concat_push:
  "k < length st \<Longrightarrow> distinct (concat st) \<Longrightarrow> x \<notin> set (concat st) \<Longrightarrow>
    set (concat (st[k := x # st ! k])) = insert x (set (concat st)) \<and>
    distinct (concat (st[k := x # st ! k]))"
proof (induction st arbitrary: k)
  case Nil
  then show ?case by simp
next
  case (Cons ys st)
  then show ?case by (cases k) auto
qed

lemma fast_rep_pop:
  fixes ts :: u64
  assumes rep: "fast_rep st s" and k: "k < length st" and st: "st ! k = x # xs"
  defines "s' \<equiv> s\<lparr>fp_heads := (fp_heads s)[k := fp_next s ! nat x],
     fp_meta := (fp_meta s)[nat x := (fp_meta s ! nat x)\<lparr>pm_touch_us := ts\<rparr>]\<rparr>"
  shows "fp_heads s ! k = x" and "in_range (fp_next s) x" and "fast_rep (st[k := xs]) s'"
proof -
  note ch = fast_repD(7) [OF rep k]
  show x: "fp_heads s ! k = x" "in_range (fp_next s) x" using ch st by auto
  have kh: "k < length (fp_heads s)" using k fast_repD(5,6) [OF rep] by simp
  have mem: "fp_meta s ! nat x \<in> set (fp_meta s)"
    using in_range_nat [OF x(2)] fast_repD(4) [OF rep] by simp
  have meta: "pm_shard (fp_meta s' ! nat y) = pm_shard (fp_meta s ! nat y)" if "in_range (fp_next s) y" for y
    using that x(2) in_range_meta [OF rep] by (simp add: s'_def nth_update_in_range)
  have sub: "y \<in> set (st ! j)" if "y \<in> set (st[k := xs] ! j)" "j < length st" for y j
    using that st k by (cases "j = k") auto
  show "fast_rep (st[k := xs]) s'"
    unfolding fast_rep_def
  proof (intro conjI allI impI ballI)
    fix j assume j: "j < length (st[k := xs])"
    show "chain (fp_next s') (fp_heads s' ! j) (st[k := xs] ! j)"
      using ch st k kh fast_repD(7) [OF rep, of j] j by (cases "j = k") (auto simp: s'_def)
    fix y assume "y \<in> set (st[k := xs] ! j)"
    then have y: "y \<in> set (st ! j)" using sub j by simp
    then have "in_range (fp_next s) y" using fast_rep_in_range [OF rep] j in_concat_nth by force
    then show "sint (pm_shard (fp_meta s' ! nat y)) = int j"
      using fast_repD(9) [OF rep _ y] j by (simp add: meta)
  next
    fix m assume "m \<in> set (fp_meta s')"
    then have "\<exists>m'\<in>set (fp_meta s). pm_shard m = pm_shard m'"
      using mem by (auto simp: s'_def dest!: set_update_subset_insert [THEN subsetD])
    then show "0 \<le> sint (pm_shard m)" "sint (pm_shard m) < fp_n_shards s'"
      using fast_repD(10) [OF rep] by (auto simp: s'_def)
  qed (use fast_repD(1-6) [OF rep] set_concat_drop [OF k fast_repD(8) [OF rep], of "[x]" xs] st
      in \<open>simp_all add: s'_def\<close>)
qed

lemma fast_push_ok:
  assumes rep: "fast_rep st s" and x: "in_range (fp_meta s) x" and new: "x \<notin> set (concat st)"
  defines "k \<equiv> nat (sint (pm_shard (fp_meta s ! nat x)))"
  shows "\<exists>s'. fast_push x s = Inr s' \<and> fast_rep (st[k := x # st ! k]) s' \<and> k < length st \<and>
    fp_meta s' = (fp_meta s)[nat x := (fp_meta s ! nat x)\<lparr>pm_touch_us := 0\<rparr>] \<and>
    fp_n_shards s' = fp_n_shards s \<and> fp_alloc_cnt s' = fp_alloc_cnt s \<and>
    fp_free_cnt s' = fp_free_cnt s"
proof -
  let ?m = "fp_meta s ! nat x"
  have mem: "?m \<in> set (fp_meta s)" using in_range_nat [OF x] by simp
  note sh = fast_repD(10) [OF rep mem]
  have k: "k < length st" "sint (pm_shard ?m) = int k"
    using sh fast_repD(6) [OF rep] by (auto simp: k_def)
  have kh: "k < length (fp_heads s)" using k(1) fast_repD(5,6) [OF rep] by simp
  have xn: "in_range (fp_next s) x" using x in_range_meta [OF rep] by simp
  let ?s = "s\<lparr>fp_meta := (fp_meta s)[nat x := ?m\<lparr>pm_touch_us := 0\<rparr>],
     fp_next := (fp_next s)[nat x := fp_heads s ! k], fp_heads := (fp_heads s)[k := x]\<rparr>"
  have "fast_push x s = Inr ?s"
    using x xn kh by (simp add: fast_push_def Let_def k(2))
  moreover have "fast_rep (st[k := x # st ! k]) ?s"
    unfolding fast_rep_def
  proof (intro conjI allI impI ballI)
    fix j assume j: "j < length (st[k := x # st ! k])"
    have nx: "x \<notin> set (st ! j)" using new j in_concat_nth by force
    note cu = chain_update [OF xn nx]
    show "chain (fp_next ?s) (fp_heads ?s ! j) (st[k := x # st ! k] ! j)"
      using fast_repD(7) [OF rep, of j] j kh k(1) xn cu
      by (cases "j = k") (auto simp: nth_update_in_range)
    fix y assume y: "y \<in> set (st[k := x # st ! k] ! j)"
    show "sint (pm_shard (fp_meta ?s ! nat y)) = int j"
    proof (cases "y = x")
      case True
      then have "j = k" using y nx j by (cases "j = k") auto
      with True k x in_range_nat [OF x] show ?thesis by simp
    next
      case False
      then have yj: "y \<in> set (st ! j)" using y j by (cases "j = k") auto
      then have "in_range (fp_meta s) y"
        using fast_rep_in_range [OF rep] j in_concat_nth in_range_meta [OF rep] by force
      then show ?thesis
        using False x fast_repD(9) [OF rep _ yj] j by (simp add: nth_update_in_range)
    qed
  next
    fix m assume "m \<in> set (fp_meta ?s)"
    then have "\<exists>m'\<in>set (fp_meta s). pm_shard m = pm_shard m'"
      using mem by (auto dest!: set_update_subset_insert [THEN subsetD])
    then show "0 \<le> sint (pm_shard m)" "sint (pm_shard m) < fp_n_shards ?s"
      using fast_repD(10) [OF rep] by auto
  qed (use fast_repD(1-6) [OF rep] set_concat_push [OF k(1) fast_repD(8) [OF rep] new]
      in simp_all)
  ultimately show ?thesis using k(1) by simp
qed

section \<open>Whole operations\<close>

text \<open>What an operation keeps, and which pages it stamped.\<close>

definition fast_touched :: "u64 \<Rightarrow> int set \<Rightarrow> fast_pool \<Rightarrow> fast_pool \<Rightarrow> bool" where
  "fast_touched ts X s s' \<longleftrightarrow> fp_n_shards s' = fp_n_shards s \<and>
     length (fp_meta s') = length (fp_meta s) \<and> length (fp_next s') = length (fp_next s) \<and>
     (\<forall>y. in_range (fp_meta s) y \<longrightarrow> pm_touch_us (fp_meta s' ! nat y) =
        (if y \<in> X then ts else pm_touch_us (fp_meta s ! nat y)))"

lemma fast_touched_refl: "fast_touched ts {} s s"
  by (simp add: fast_touched_def)

lemma fast_touched_trans:
  "fast_touched ts X s s' \<Longrightarrow> fast_touched ts Y s' s'' \<Longrightarrow> fast_touched ts (X \<union> Y) s s''"
  by (auto simp: fast_touched_def in_range_def)

lemma fast_touched_overwrite:
  "fast_touched ts X s s' \<Longrightarrow> fast_touched ts' Y s' s'' \<Longrightarrow> X \<subseteq> Y \<Longrightarrow> fast_touched ts' Y s s''"
  by (auto simp: fast_touched_def in_range_def)

lemma fast_touched_universe: "fast_touched ts X s s' \<Longrightarrow> fast_universe s' = fast_universe s"
  by (simp add: fast_touched_def fast_universe_def in_range_def)

definition fast_counts :: "fast_pool \<Rightarrow> u64 \<times> u64" where
  "fast_counts s = (fp_alloc_cnt s, fp_free_cnt s)"

lemma fast_pop_loop_ok:
  assumes "fast_rep st s" and "k < length st"
  shows "\<exists>s'. fast_pop_loop r ts (int k) out s = Inr (out @ take r (st ! k), s') \<and>
    fast_rep (st[k := drop r (st ! k)]) s' \<and> fast_touched ts (set (take r (st ! k))) s s' \<and>
    fast_counts s' = fast_counts s"
  using assms
proof (induction r arbitrary: st s out)
  case 0
  then show ?case by (simp add: fast_touched_refl)
next
  case (Suc r)
  have kh: "k < length (fp_heads s)" using Suc.prems fast_repD(5,6) [OF Suc.prems(1)] by simp
  note ch = fast_repD(7) [OF Suc.prems]
  show ?case
  proof (cases "st ! k")
    case Nil
    with ch kh Suc.prems show ?thesis
      by (auto simp: fast_touched_refl) (metis list_update_id)
  next
    case (Cons x xs)
    let ?s = "s\<lparr>fp_heads := (fp_heads s)[k := fp_next s ! nat x],
       fp_meta := (fp_meta s)[nat x := (fp_meta s ! nat x)\<lparr>pm_touch_us := ts\<rparr>]\<rparr>"
    note pop = fast_rep_pop [OF Suc.prems Cons]
    have xm: "in_range (fp_meta s) x" using pop(2) in_range_meta [OF Suc.prems(1)] by simp
    then have x1: "x \<noteq> -1" by (auto simp: in_range_def)
    have len: "k < length (st[k := xs])" using Suc.prems(2) by simp
    from Suc.IH [OF pop(3) len, of "out @ [x]"] obtain s' where
      s': "fast_pop_loop r ts (int k) (out @ [x]) ?s = Inr ((out @ [x]) @ take r (st[k := xs] ! k), s')"
        "fast_rep (st[k := xs, k := drop r (st[k := xs] ! k)]) s'"
        "fast_touched ts (set (take r (st[k := xs] ! k))) ?s s'" "fast_counts s' = fast_counts ?s"
      by blast
    have "fast_touched ts {x} s ?s"
      using xm by (auto simp: fast_touched_def nth_update_in_range)
    from fast_touched_trans [OF this s'(3)] s'(1,2,4) Suc.prems(2) pop(1,2) xm x1 kh Cons
    show ?thesis by (simp add: fast_counts_def)
  qed
qed

text \<open>What taking the pages \<open>new\<close> off the stacks does, and that two such steps make one.\<close>

definition scanned :: "u64 \<Rightarrow> int list list \<Rightarrow> fast_pool \<Rightarrow> int list \<Rightarrow> int list list \<Rightarrow> fast_pool \<Rightarrow> bool" where
  "scanned ts st s new st' s' \<longleftrightarrow> fast_rep st' s' \<and> distinct new \<and> set new \<subseteq> set (concat st) \<and>
     set (concat st') = set (concat st) - set new \<and> fast_touched ts (set new) s s' \<and>
     fast_counts s' = fast_counts s \<and> length st' = length st \<and> (\<forall>i<length st. st ! i = [] \<longrightarrow> st' ! i = [])"

lemma scanned_refl: "fast_rep st s \<Longrightarrow> scanned ts st s [] st s"
  by (simp add: scanned_def fast_touched_refl)

lemma scanned_trans:
  assumes "scanned ts st s new st1 s1" and "scanned ts st1 s1 new' st2 s2"
  shows "scanned ts st s (new @ new') st2 s2"
  using assms fast_touched_trans [of ts "set new" s s1 "set new'" s2] unfolding scanned_def by auto

lemma scanned_pop:
  assumes rep: "fast_rep st s" and k: "k < length st"
  shows "\<exists>s1. fast_pop_loop r ts (int k) out s = Inr (out @ take r (st ! k), s1) \<and>
    scanned ts st s (take r (st ! k)) (st[k := drop r (st ! k)]) s1"
proof -
  from fast_pop_loop_ok [OF assms, of r ts out] obtain s1 where
    s1: "fast_pop_loop r ts (int k) out s = Inr (out @ take r (st ! k), s1)" "fast_rep (st[k := drop r (st ! k)]) s1"
      "fast_touched ts (set (take r (st ! k))) s s1" "fast_counts s1 = fast_counts s"
    by blast
  have sp: "st ! k = take r (st ! k) @ drop r (st ! k)" by simp
  note cd = set_concat_drop [OF k fast_repD(8) [OF rep] sp]
  have "distinct (st ! k)" by (rule distinct_concat_nth [OF fast_repD(8) [OF rep] k])
  moreover have "set (take r (st ! k)) \<subseteq> set (concat st)"
    using k set_take_subset [of r "st ! k"] unfolding in_concat_nth subset_iff by blast
  moreover have "st[k := drop r (st ! k)] ! i = []" if "st ! i = []" "i < length st" for i
    using that k by (cases "i = k") auto
  ultimately show ?thesis using s1 cd by (intro exI [of _ s1]) (auto simp: scanned_def)
qed

lemma fast_scan_ok:
  assumes "fast_rep st s" and "k < length st"
  shows "\<exists>new st' s'. fast_scan t n ts (int k) out s = Inr (out @ new, s') \<and> scanned ts st s new st' s' \<and>
    (length out \<le> n \<longrightarrow> length out + length new \<le> n) \<and>
    (n \<le> length out + length new \<or> (\<forall>j<t. st' ! ((k + j) mod length st) = []))"
  using assms
proof (induction t arbitrary: k out st s)
  case 0
  then show ?case
    by (intro exI [of _ "[]"] exI [of _ st] exI [of _ s]) (simp add: scanned_refl)
next
  case (Suc t)
  show ?case
  proof (cases "length out < n")
    case False
    with Suc.prems show ?thesis
      by (intro exI [of _ "[]"] exI [of _ st] exI [of _ s]) (simp add: scanned_refl)
  next
    case True
    let ?r = "n - length out" and ?ns = "length st"
    let ?k' = "Suc k mod ?ns" and ?a = "take ?r (st ! k)" and ?st = "st[k := drop ?r (st ! k)]"
    from scanned_pop [OF Suc.prems, of ?r ts out] obtain s1 where
      s1: "fast_pop_loop ?r ts (int k) out s = Inr (out @ ?a, s1)" "scanned ts st s ?a ?st s1"
      by blast
    have rep1: "fast_rep ?st s1" using s1(2) by (simp add: scanned_def)
    have k': "(int k + 1) mod fp_n_shards s = int ?k'"
      using fast_repD(1,6) [OF Suc.prems(1)] by (simp add: zmod_int add.commute)
    have "0 < ?ns" using Suc.prems(2) by linarith
    then have "?k' < length ?st" by simp
    from Suc.IH [OF rep1 this, of "out @ ?a"] obtain new st' s' where
      IH: "fast_scan t n ts (int ?k') (out @ ?a) s1 = Inr ((out @ ?a) @ new, s')" "scanned ts ?st s1 new st' s'"
        "length (out @ ?a) \<le> n \<longrightarrow> length (out @ ?a) + length new \<le> n"
        "n \<le> length (out @ ?a) + length new \<or> (\<forall>j<t. st' ! ((?k' + j) mod length ?st) = [])"
      by blast
    have empty: "st' ! ((k + j) mod ?ns) = []"
      if "\<not> n \<le> length out + length (?a @ new)" "j < Suc t" for j
    proof (cases j)
      case 0
      have "length (st ! k) \<le> ?r" using that(1) by (auto split: if_splits simp: min_def)
      then have "?st ! k = []" using Suc.prems(2) by simp
      with 0 IH(2) Suc.prems(2) show ?thesis by (simp add: scanned_def)
    next
      case (Suc i)
      then have "st' ! ((?k' + i) mod ?ns) = []" using IH(4) that by auto
      with Suc show ?thesis by (simp add: mod_simps)
    qed
    have "fast_scan (Suc t) n ts (int k) out s = Inr (out @ (?a @ new), s')"
      using True s1(1) IH(1) k' by simp
    moreover have "length out + length (?a @ new) \<le> n" using IH(3) True by auto
    ultimately show ?thesis
      using scanned_trans [OF s1(2) IH(2)] empty
      by (intro exI [of _ "?a @ new"] exI [of _ st'] exI [of _ s']) auto
  qed
qed

lemma fast_push_loop_ok:
  assumes "fast_rep st s" and "distinct ids" and "\<forall>x\<in>set ids. in_range (fp_meta s) x"
    and "set ids \<inter> set (concat st) = {}"
  shows "\<exists>st' s'. rfold fast_push ids s = Inr s' \<and> fast_rep st' s' \<and>
    set (concat st') = set (concat st) \<union> set ids \<and> fast_touched 0 (set ids) s s' \<and>
    fast_counts s' = fast_counts s"
  using assms
proof (induction ids arbitrary: st s)
  case Nil
  then show ?case using fast_touched_refl [of 0 s] by auto
next
  case (Cons x ids)
  let ?k = "nat (sint (pm_shard (fp_meta s ! nat x)))"
  have x: "in_range (fp_meta s) x" "x \<notin> set (concat st)" using Cons.prems by auto
  from fast_push_ok [OF Cons.prems(1) x] obtain s1 where
    s1: "fast_push x s = Inr s1" "fast_rep (st[?k := x # st ! ?k]) s1" "?k < length st"
      "fp_meta s1 = (fp_meta s)[nat x := (fp_meta s ! nat x)\<lparr>pm_touch_us := 0\<rparr>]"
      "fp_n_shards s1 = fp_n_shards s" "fp_alloc_cnt s1 = fp_alloc_cnt s"
      "fp_free_cnt s1 = fp_free_cnt s"
    by blast
  note sc = set_concat_push [OF s1(3) fast_repD(8) [OF Cons.prems(1)] x(2)]
  have t1: "fast_touched 0 {x} s s1"
    using x(1) s1(4,5) fast_repD(4) [OF s1(2)] fast_repD(4) [OF Cons.prems(1)]
    by (auto simp: fast_touched_def nth_update_in_range)
  have "\<forall>y\<in>set ids. in_range (fp_meta s1) y" using Cons.prems(3) s1(4) by simp
  moreover have "set ids \<inter> set (concat (st[?k := x # st ! ?k])) = {}"
    using sc Cons.prems(2,4) by auto
  ultimately obtain st' s' where
    s': "rfold fast_push ids s1 = Inr s'" "fast_rep st' s'"
      "set (concat st') = set (concat (st[?k := x # st ! ?k])) \<union> set ids"
      "fast_touched 0 (set ids) s1 s'" "fast_counts s' = fast_counts s1"
    using Cons.IH [OF s1(2)] Cons.prems(2) by auto
  have "fast_touched 0 (set (x # ids)) s s'"
    using fast_touched_trans [OF t1 s'(4)] by simp
  then show ?case
    using s' s1 sc by (intro exI [of _ st'] exI [of _ s']) (auto simp: fast_counts_def)
qed

lemma fast_rep_count_irrelevant [simp]:
  "fast_rep st (s\<lparr>fp_free_cnt := c\<rparr>) = fast_rep st s"
  "fast_rep st (s\<lparr>fp_alloc_cnt := c\<rparr>) = fast_rep st s"
  "fast_touched ts X s0 (s\<lparr>fp_free_cnt := c\<rparr>) = fast_touched ts X s0 s"
  "fast_touched ts X s0 (s\<lparr>fp_alloc_cnt := c\<rparr>) = fast_touched ts X s0 s"
  by (simp_all add: fast_rep_def fast_touched_def)

lemma fast_inv_rep: "fast_inv s \<Longrightarrow> fast_rep (fast_stacks s) s"
  by (simp add: fast_inv_def)

lemma fast_free_pages_ok:
  assumes "fast_inv s" and "distinct ids" and "set ids \<subseteq> fast_universe s - fast_avail s"
  shows "\<exists>s'. fast_free_pages ids s = Inr s' \<and> fast_inv s' \<and>
    fast_avail s' = fast_avail s \<union> set ids \<and> fast_touched 0 (set ids) s s' \<and>
    fp_alloc_cnt s' = fp_alloc_cnt s \<and>
    fp_free_cnt s' = fp_free_cnt s + word_of_nat (length ids)"
proof -
  note rep = fast_inv_rep [OF assms(1)]
  have "\<forall>x\<in>set ids. in_range (fp_meta s) x" "set ids \<inter> set (concat (fast_stacks s)) = {}"
    using assms(3) by (auto simp: fast_universe_def fast_avail_def)
  from fast_push_loop_ok [OF rep assms(2) this] obtain st' s' where
    s': "rfold fast_push ids s = Inr s'" "fast_rep st' s'"
      "set (concat st') = set (concat (fast_stacks s)) \<union> set ids" "fast_touched 0 (set ids) s s'"
      "fast_counts s' = fast_counts s"
    by blast
  let ?s = "s'\<lparr>fp_free_cnt := fp_free_cnt s' + word_of_nat (length ids)\<rparr>"
  have "fast_rep st' ?s" using s'(2) by simp
  from fast_rep_inv [OF this] s' show ?thesis
    by (auto simp: fast_free_pages_def fast_avail_def fast_counts_def)
qed

text \<open>Allocation without interference: all or nothing.\<close>

lemma fast_scan_all:
  assumes "fast_inv s" and "0 \<le> sh" and "sh < fp_n_shards s"
  shows "\<exists>new s'. fast_scan (nat (fp_n_shards s)) n ts sh [] s = Inr (new, s') \<and> fast_inv s' \<and>
    distinct new \<and> set new \<subseteq> fast_avail s \<and> fast_avail s' = fast_avail s - set new \<and>
    fast_touched ts (set new) s s' \<and> fast_counts s' = fast_counts s \<and>
    length new \<le> n \<and> (length new = n \<or> set new = fast_avail s)"
proof -
  let ?st = "fast_stacks s"
  note rep = fast_inv_rep [OF assms(1)]
  note ns = fast_repD(6) [OF rep]
  have k: "nat sh < length ?st" "int (nat sh) = sh" using assms(2,3) ns by auto
  from fast_scan_ok [OF rep k(1), of "length ?st" n ts "[]"] obtain new st' s' where
    s': "fast_scan (length ?st) n ts (int (nat sh)) [] s = Inr (new, s')"
      "fast_rep st' s'" "distinct new" "set new \<subseteq> set (concat ?st)"
      "set (concat st') = set (concat ?st) - set new" "fast_touched ts (set new) s s'"
      "fast_counts s' = fast_counts s" "length new \<le> n"
      "n \<le> length new \<or> (\<forall>j<length ?st. st' ! ((nat sh + j) mod length ?st) = [])"
    unfolding scanned_def by auto
  have "set new = set (concat ?st)" if "length new \<noteq> n"
  proof -
    have all: "\<forall>j<length ?st. st' ! ((nat sh + j) mod length ?st) = []" using s'(8,9) that by auto
    have "st' ! i = []" if i: "i < length ?st" for i
    proof -
      let ?j = "(i + length ?st - nat sh) mod length ?st"
      have "(nat sh + ?j) mod length ?st = (nat sh + (i + length ?st - nat sh)) mod length ?st"
        by (simp add: mod_simps)
      also have "\<dots> = i" using i k(1) by simp
      finally show ?thesis using all i by (metis gr_implies_not0 mod_less_divisor neq0_conv)
    qed
    then have "set (concat st') = {}"
      using fast_repD(6) [OF s'(2)] s'(6) ns unfolding fast_touched_def
      by (metis empty_iff equals0I in_concat_nth list.set(1))
    with s'(4,5) show ?thesis by auto
  qed
  with s' k(2) ns fast_rep_inv [OF s'(2)] show ?thesis
    by (auto simp: fast_avail_def)
qed

text \<open>Pages that are not enough go back.\<close>

lemma fast_give_back:
  assumes inv: "fast_inv s" and inv1: "fast_inv s1" and new: "distinct new" "set new = fast_avail s"
    and s1: "fast_avail s1 = fast_avail s - set new" "fast_touched ts (set new) s s1" "fast_counts s1 = fast_counts s"
  shows "\<exists>s2. fast_free_pages new s1 = Inr s2 \<and> fast_inv s2 \<and> fast_avail s2 = fast_avail s \<and>
    fast_universe s2 = fast_universe s \<and> fast_touched 0 (fast_avail s) s s2 \<and> fp_alloc_cnt s2 = fp_alloc_cnt s \<and>
    fp_free_cnt s2 = fp_free_cnt s + word_of_nat (card (fast_avail s))"
proof -
  note rep = fast_inv_rep [OF inv]
  have uni: "fast_universe s1 = fast_universe s" by (rule fast_touched_universe [OF s1(2)])
  have "fast_avail s \<subseteq> fast_universe s"
    using fast_rep_in_range [OF rep] in_range_meta [OF rep]
    by (auto simp: fast_avail_def fast_universe_def)
  then have "set new \<subseteq> fast_universe s1 - fast_avail s1" using new(2) uni s1(1) by auto
  from fast_free_pages_ok [OF inv1 new(1) this] obtain s2 where
    s2: "fast_free_pages new s1 = Inr s2" "fast_inv s2" "fast_avail s2 = fast_avail s1 \<union> set new"
      "fast_touched 0 (set new) s1 s2" "fp_alloc_cnt s2 = fp_alloc_cnt s1"
      "fp_free_cnt s2 = fp_free_cnt s1 + word_of_nat (length new)"
    by blast
  moreover have "fast_touched 0 (fast_avail s) s s2"
    using fast_touched_overwrite [OF s1(2) s2(4)] new(2) by simp
  moreover have "length new = card (fast_avail s)" using distinct_card [OF new(1)] new(2) by simp
  ultimately show ?thesis
    using new(2) s1(1,3) uni fast_touched_universe [OF s2(4)] by (simp add: fast_counts_def)
qed

lemma fast_alloc_ok:
  assumes inv: "fast_inv s" and n: "0 \<le> n"
  shows "\<exists>ids s'. fast_alloc ts h n s = Inr (ids, s') \<and> fast_inv s' \<and> distinct ids \<and>
    set ids \<subseteq> fast_avail s \<and> fast_avail s' = fast_avail s - set ids \<and>
    fast_universe s' = fast_universe s \<and>
    (if n \<le> int (card (fast_avail s))
     then int (length ids) = n \<and> fast_touched ts (set ids) s s' \<and>
       fp_alloc_cnt s' = fp_alloc_cnt s + word_of_int n \<and> fp_free_cnt s' = fp_free_cnt s
     else ids = [] \<and> fast_touched 0 (fast_avail s) s s' \<and> fp_alloc_cnt s' = fp_alloc_cnt s \<and>
       fp_free_cnt s' = fp_free_cnt s + word_of_nat (card (fast_avail s)))"
proof -
  note ns = fast_repD(1) [OF fast_inv_rep [OF inv]]
  let ?sh = "uint (word_of_int h :: u32) mod fp_n_shards s"
  have sh: "0 \<le> ?sh" "?sh < fp_n_shards s" using ns by simp_all
  from fast_scan_all [OF inv sh, of "nat n" ts] obtain new s1 where
    s1: "fast_scan (nat (fp_n_shards s)) (nat n) ts ?sh [] s = Inr (new, s1)" "fast_inv s1"
      "distinct new" "set new \<subseteq> fast_avail s" "fast_avail s1 = fast_avail s - set new"
      "fast_touched ts (set new) s s1" "fast_counts s1 = fast_counts s"
      "length new \<le> nat n" "length new = nat n \<or> set new = fast_avail s"
    by blast
  show ?thesis
  proof (cases "length new < nat n")
    case True
    then have all: "set new = fast_avail s" using s1(9) by auto
    from fast_give_back [OF inv s1(2,3) all s1(5-7)] obtain s2 where
      s2: "fast_free_pages new s1 = Inr s2" "fast_inv s2" "fast_avail s2 = fast_avail s" "fast_universe s2 = fast_universe s"
        "fast_touched 0 (fast_avail s) s s2" "fp_alloc_cnt s2 = fp_alloc_cnt s"
        "fp_free_cnt s2 = fp_free_cnt s + word_of_nat (card (fast_avail s))" by blast
    have "fast_alloc ts h n s = Inr ([], s2)"
      using n ns s1(1) s2(1) True by (simp add: fast_alloc_def Let_def)
    moreover have "\<not> n \<le> int (card (fast_avail s))" using True distinct_card [OF s1(3)] all by simp
    ultimately show ?thesis using s2 by simp
  next
    case False
    let ?s = "s1\<lparr>fp_alloc_cnt := fp_alloc_cnt s1 + word_of_int n\<rparr>"
    have len: "length new = nat n" using False s1(8) by simp
    have "fast_stacks ?s = fast_stacks s1" by (simp add: fast_stacks_def)
    then have "fast_inv ?s" "fast_avail ?s = fast_avail s1"
      using s1(2) by (simp_all add: fast_inv_def fast_avail_def)
    moreover have "fast_alloc ts h n s = Inr (new, ?s)"
      using n ns s1(1) len by (simp add: fast_alloc_def Let_def)
    moreover have "length new \<le> card (fast_avail s)"
      using s1(3,4) by (metis card_mono distinct_card fast_avail_def finite_set)
    then have "n \<le> int (card (fast_avail s))" using len by simp
    moreover have "fast_touched ts (set new) s ?s" using s1(6) by simp
    ultimately show ?thesis
      using s1 len n fast_touched_universe [of ts "set new" s ?s] by (simp add: fast_counts_def)
  qed
qed

lemma fast_avail_universe: "fast_inv s \<Longrightarrow> fast_avail s \<subseteq> fast_universe s"
  using fast_rep_in_range [OF fast_inv_rep] in_range_meta [OF fast_inv_rep]
  by (auto simp: fast_avail_def fast_universe_def)

lemma fast_universe_finite [simp]: "finite (fast_universe s)"
proof -
  have "fast_universe s \<subseteq> {0..<int (length (fp_meta s))}"
    by (auto simp: fast_universe_def in_range_def)
  then show ?thesis by (rule finite_subset) simp
qed

section \<open>The fast pool is a complete page source\<close>

interpretation fast: complete_page_source fast_inv fast_universe fast_avail
  "fast_alloc ts h" fast_free_pages for ts h
proof
  fix s and n :: int
  assume "fast_inv s" "0 \<le> n"
  from fast_alloc_ok [OF this, of ts h]
  show "\<exists>ids s'. fast_alloc ts h n s = Inr (ids, s') \<and> fast_inv s' \<and> distinct ids \<and>
      set ids \<subseteq> fast_avail s \<and> fast_avail s' = fast_avail s - set ids \<and>
      fast_universe s' = fast_universe s \<and> (ids = [] \<or> int (length ids) = n)"
    by (elim exE conjE) (auto split: if_splits)
next
  fix s ids
  assume "fast_inv s" "distinct ids" "set ids \<subseteq> fast_universe s - fast_avail s"
  from fast_free_pages_ok [OF this] fast_touched_universe
  show "\<exists>s'. fast_free_pages ids s = Inr s' \<and> fast_inv s' \<and>
      fast_avail s' = fast_avail s \<union> set ids \<and> fast_universe s' = fast_universe s"
    by blast
next
  fix s ids s' and n :: int
  assume a: "fast_inv s" "0 \<le> n" "n \<le> int (card (fast_avail s))" "fast_alloc ts h n s = Inr (ids, s')"
  with fast_alloc_ok [OF a(1,2), of ts h] show "int (length ids) = n" by auto
qed (simp_all add: fast_avail_universe)

section \<open>Time stamps and the leak scan\<close>

text \<open>
  \<open>touch_us\<close> is 0 exactly for the pages on a stack. Every operation keeps this as long as
  the clock does not read 0 and \<open>touch\<close> is only called on pages in use.
\<close>

definition fast_live :: "fast_pool \<Rightarrow> bool" where
  "fast_live s \<longleftrightarrow> fast_inv s \<and>
     (\<forall>y\<in>fast_universe s. pm_touch_us (fp_meta s ! nat y) = 0 \<longleftrightarrow> y \<in> fast_avail s)"

lemma fast_live_step:
  assumes "fast_live s" and "fast_inv s'" and "fast_touched ts X s s'"
    and "ts = 0 \<and> fast_avail s' = fast_avail s \<union> X \<or>
      ts \<noteq> 0 \<and> fast_avail s' = fast_avail s - X"
  shows "fast_live s'"
  using assms fast_touched_universe [OF assms(3)]
  by (auto simp: fast_live_def fast_touched_def fast_universe_def)

lemma fast_alloc_live:
  assumes "fast_live s" and "0 \<le> n" and "ts \<noteq> 0" and "fast_alloc ts h n s = Inr (ids, s')"
  shows "fast_live s'"
proof -
  have inv: "fast_inv s" using assms(1) by (simp add: fast_live_def)
  note ok = fast_alloc_ok [OF inv assms(2), of ts h]
  show ?thesis
  proof (cases "n \<le> int (card (fast_avail s))")
    case True
    with ok assms(3,4) show ?thesis
      by (intro fast_live_step [OF assms(1), of s' ts "set ids"]) auto
  next
    case False
    with ok assms(4) show ?thesis
      by (intro fast_live_step [OF assms(1), of s' 0 "fast_avail s"]) auto
  qed
qed

lemma fast_free_live:
  assumes "fast_live s" and "distinct ids" and "set ids \<subseteq> fast_universe s - fast_avail s"
    and "fast_free_pages ids s = Inr s'"
  shows "fast_live s'"
  using fast_free_pages_ok [OF _ assms(2,3)] assms(1,4)
  by (intro fast_live_step [OF assms(1), of s' 0 "set ids"]) (auto simp: fast_live_def)

lemma fast_touch_ok:
  assumes "fast_inv s" and "\<forall>y\<in>set ids. in_range (fp_meta s) y"
  shows "\<exists>s'. fast_touch ts ids s = Inr s' \<and> fast_inv s' \<and> fast_stacks s' = fast_stacks s \<and>
    fast_touched ts (set ids) s s' \<and> fast_counts s' = fast_counts s"
  using assms
proof (induction ids arbitrary: s)
  case Nil
  then show ?case by (simp add: fast_touch_def fast_touched_refl)
next
  case (Cons x ids)
  let ?s = "s\<lparr>fp_meta := (fp_meta s)[nat x := (fp_meta s ! nat x)\<lparr>pm_touch_us := ts\<rparr>]\<rparr>"
  have x: "in_range (fp_meta s) x" using Cons.prems(2) by simp
  have st: "fast_stacks ?s = fast_stacks s" by (simp add: fast_stacks_def)
  have mem: "fp_meta s ! nat x \<in> set (fp_meta s)" using in_range_nat [OF x] by simp
  note rep = fast_inv_rep [OF Cons.prems(1)]
  have "fast_rep (fast_stacks s) ?s"
    unfolding fast_rep_def
  proof (intro conjI allI impI ballI)
    fix j y assume j: "j < length (fast_stacks s)" and y: "y \<in> set (fast_stacks s ! j)"
    then have "in_range (fp_meta s) y"
      using fast_rep_in_range [OF rep] in_concat_nth in_range_meta [OF rep] by force
    then show "sint (pm_shard (fp_meta ?s ! nat y)) = int j"
      using fast_repD(9) [OF rep j y] x by (auto simp: nth_update_in_range)
  next
    fix m assume "m \<in> set (fp_meta ?s)"
    then have "\<exists>m'\<in>set (fp_meta s). pm_shard m = pm_shard m'"
      using mem by (auto dest!: set_update_subset_insert [THEN subsetD])
    then show "0 \<le> sint (pm_shard m)" "sint (pm_shard m) < fp_n_shards ?s"
      using fast_repD(10) [OF rep] by auto
  qed (use fast_repD(1-8) [OF rep] in simp_all)
  then have inv: "fast_inv ?s" by (simp add: fast_inv_def st)
  have t1: "fast_touched ts {x} s ?s" using x by (auto simp: fast_touched_def nth_update_in_range)
  from Cons.IH [OF inv] Cons.prems(2) obtain s' where
    s': "fast_touch ts ids ?s = Inr s'" "fast_inv s'" "fast_stacks s' = fast_stacks ?s"
      "fast_touched ts (set ids) ?s s'" "fast_counts s' = fast_counts ?s"
    by auto
  have "fast_touch ts (x # ids) s = Inr s'" using s'(1) x by (simp add: fast_touch_def)
  with s' st fast_touched_trans [OF t1 s'(4)] show ?case by (simp add: fast_counts_def)
qed

lemma fast_touch_live:
  assumes "fast_live s" and "set ids \<subseteq> fast_universe s - fast_avail s" and "ts \<noteq> 0"
    and "fast_touch ts ids s = Inr s'"
  shows "fast_live s'" and "fast_avail s' = fast_avail s"
proof -
  have "\<forall>y\<in>set ids. in_range (fp_meta s) y" using assms(2) by (auto simp: fast_universe_def)
  with fast_touch_ok [of s ids ts] assms(1,4) have t: "fast_inv s'" "fast_stacks s' = fast_stacks s"
    "fast_touched ts (set ids) s s'"
    by (auto simp: fast_live_def)
  show av: "fast_avail s' = fast_avail s" by (simp add: fast_avail_def t(2))
  show "fast_live s'"
    using assms(2,3) av by (intro fast_live_step [OF assms(1) t(1,3)]) auto
qed

text \<open>The pages the scan reclaims: stamped, and by unsigned subtraction older than the limit.\<close>

definition fast_stale_pages :: "u64 \<Rightarrow> int \<Rightarrow> fast_pool \<Rightarrow> int set" where
  "fast_stale_pages now ttl_ms s = {y \<in> fast_universe s. fast_stale now ttl_ms (fp_meta s ! nat y)}"

lemma fast_orphans_set:
  assumes "fast_inv s"
  shows "set (fast_orphans now ttl s) = fast_stale_pages now ttl s"
    and "distinct (fast_orphans now ttl s)"
proof -
  have len: "length (fp_meta s) < 2 ^ 31" using fast_repD(3,4) [OF fast_inv_rep [OF assms]] by simp
  have eq: "fast_orphans now ttl s =
      map int (filter (\<lambda>i. fast_stale now ttl (fp_meta s ! i)) [0..<length (fp_meta s)])"
    unfolding fast_orphans_def using len by (intro map_cong) auto
  show "set (fast_orphans now ttl s) = fast_stale_pages now ttl s"
  proof (intro set_eqI iffI)
    fix y assume "y \<in> fast_stale_pages now ttl s"
    then have "in_range (fp_meta s) y" "fast_stale now ttl (fp_meta s ! nat y)"
      by (auto simp: fast_stale_pages_def fast_universe_def)
    then show "y \<in> set (fast_orphans now ttl s)"
      using in_range_nat [of "fp_meta s" y] by (force simp: eq)
  qed (auto simp: eq fast_stale_pages_def fast_universe_def)
  show "distinct (fast_orphans now ttl s)" by (simp add: eq distinct_map)
qed

lemma fast_leak_scan_ok:
  assumes "fast_live s"
  shows "\<exists>s'. fast_leak_scan now ttl s = Inr (int (card (fast_stale_pages now ttl s)), s') \<and>
    fast_live s' \<and> fast_universe s' = fast_universe s \<and>
    fast_avail s' = fast_avail s \<union> fast_stale_pages now ttl s \<and>
    fast_touched 0 (fast_stale_pages now ttl s) s s'"
proof -
  have inv: "fast_inv s" using assms by (simp add: fast_live_def)
  note orph = fast_orphans_set [OF inv, of now ttl]
  have "fast_stale_pages now ttl s \<subseteq> fast_universe s - fast_avail s"
    using assms by (auto simp: fast_stale_pages_def fast_stale_def fast_live_def)
  then have sub: "set (fast_orphans now ttl s) \<subseteq> fast_universe s - fast_avail s" by (simp add: orph(1))
  from fast_free_pages_ok [OF inv orph(2) sub] obtain s' where
    s': "fast_free_pages (fast_orphans now ttl s) s = Inr s'"
      "fast_avail s' = fast_avail s \<union> set (fast_orphans now ttl s)"
      "fast_touched 0 (set (fast_orphans now ttl s)) s s'"
    by blast
  have "length (fast_orphans now ttl s) \<le> length (fp_meta s)"
    by (simp add: fast_orphans_def length_filter_le [THEN le_trans])
  then have "cast_int (length (fast_orphans now ttl s)) = int (card (fast_stale_pages now ttl s))"
    using fast_repD(3,4) [OF fast_inv_rep [OF inv]] distinct_card [OF orph(2)] orph(1) by simp
  with s' fast_free_live [OF assms orph(2) sub s'(1)] fast_touched_universe [OF s'(3)] show ?thesis
    by (simp add: fast_leak_scan_def Let_def orph)
qed

section \<open>Construction\<close>

definition fast_fresh ::
  "(nat \<Rightarrow> nat \<Rightarrow> int \<times> nat option) \<Rightarrow> nat \<Rightarrow> nat \<Rightarrow> int \<Rightarrow> nat \<Rightarrow> fast_pool" where
  "fast_fresh malloc n b ns k = \<lparr>fp_page_bytes = b, fp_n_shards = ns,
     fp_dptrs = map (\<lambda>i. snd (malloc i b)) [0..<k] @ replicate (n - k) None,
     fp_meta = map (\<lambda>i. \<lparr>pm_touch_us = 0, pm_shard = word_of_nat (i mod nat ns)\<rparr>) [0..<k]
       @ replicate (n - k) \<lparr>pm_touch_us = 0, pm_shard = 0\<rparr>,
     fp_heads = replicate (nat ns) (-1), fp_next = replicate n 0,
     fp_alloc_cnt = 0, fp_free_cnt = 0\<rparr>"

lemma fast_ctor_pages:
  assumes "\<forall>i<n. fst (malloc i b) = 0" and "0 < ns" and "k \<le> n"
  shows "rfold (fast_ctor_page malloc b) [0..<k] (fast_fresh malloc n b ns 0) =
    Inr (fast_fresh malloc n b ns k)"
  using assms(3)
proof (induction k)
  case 0
  then show ?case by simp
next
  case (Suc k)
  then have IH: "rfold (fast_ctor_page malloc b) [0..<k] (fast_fresh malloc n b ns 0) =
      Inr (fast_fresh malloc n b ns k)" by simp
  have ok: "fst (malloc k b) = 0" using assms(1) Suc.prems by simp
  have rep: "replicate (n - k) x = x # replicate (n - Suc k) x" for x :: 'x
    using Suc.prems by (metis Suc_diff_Suc Suc_le_lessD replicate_Suc)
  have app: "[0..<Suc k] = [0..<k] @ [k]" by simp
  show ?case
    unfolding app rfold_append IH
    using ok assms(2)
    by (simp add: fast_ctor_page_def split_beta fast_fresh_def rep list_update_append)
qed

lemma fast_ctor_link_push:
  assumes "fp_n_shards s \<noteq> 0" and "i < length (fp_meta s)" and "i < length (fp_next s)"
    and "i < 2 ^ 31" and "fp_n_shards s < 2 ^ 31" and "0 < fp_n_shards s"
    and "fp_meta s ! i = \<lparr>pm_touch_us = 0, pm_shard = word_of_nat (i mod nat (fp_n_shards s))\<rparr>"
  shows "fast_ctor_link i s = fast_push (int i) s"
proof -
  have small: "i mod nat (fp_n_shards s) < 2 ^ 31"
    using assms(4) by (meson le_less_trans mod_less_eq_dividend)
  have "(fp_meta s)[i := \<lparr>pm_touch_us = 0, pm_shard = word_of_nat (i mod nat (fp_n_shards s))\<rparr>] =
      fp_meta s"
    using assms(7) by (metis list_update_id)
  with assms small show ?thesis
    by (simp add: fast_ctor_link_def fast_push_def Let_def)
qed

lemma fast_link_loop:
  assumes "0 < ns" and "ns < 2 ^ 31" and "n < 2 ^ 31" and "k \<le> n"
    and "fp_n_shards s = ns" and "length (fp_next s) = n"
    and "fp_meta s = map (\<lambda>i. \<lparr>pm_touch_us = 0, pm_shard = word_of_nat (i mod nat ns)\<rparr>) [0..<n]"
  shows "rfold fast_ctor_link [k..<n] s = rfold fast_push (map int [k..<n]) s"
  using assms(4-)
proof (induction "n - k" arbitrary: k s)
  case 0
  then show ?case by simp
next
  case (Suc j)
  then have k: "k < n" "[k..<n] = k # [Suc k..<n]" by (simp_all add: upt_conv_Cons)
  have link: "fast_ctor_link k s = fast_push (int k) s"
    using assms(1-3) Suc.prems k(1) by (intro fast_ctor_link_push) auto
  have "rfold fast_ctor_link [Suc k..<n] s' = rfold fast_push (map int [Suc k..<n]) s'"
    if "fast_push (int k) s = Inr s'" for s'
  proof (rule Suc.hyps(1))
    have meta: "fp_meta s' = (fp_meta s)[k := (fp_meta s ! k)\<lparr>pm_touch_us := 0\<rparr>]"
      "length (fp_next s') = length (fp_next s)" "fp_n_shards s' = fp_n_shards s"
      using that by (auto simp: fast_push_def Let_def vec_at_Inr_iff)
    have "(fp_meta s ! k)\<lparr>pm_touch_us := 0\<rparr> = fp_meta s ! k" using Suc.prems(4) k(1) by simp
    then have "fp_meta s' = fp_meta s" using meta(1) by simp
    then show "fp_meta s' = map (\<lambda>i. \<lparr>pm_touch_us = 0, pm_shard = word_of_nat (i mod nat ns)\<rparr>) [0..<n]"
      using Suc.prems(4) by simp
  qed (use that Suc k in \<open>auto simp: fast_push_def Let_def vec_at_Inr_iff\<close>)
  then show ?case
    by (cases "fast_push (int k) s") (simp_all add: k(2) link)
qed

lemma fast_ctor_ok:
  assumes "\<forall>i<n. fst (malloc i b) = 0" and "0 < ns" and "ns < 2 ^ 31" and "n < 2 ^ 31"
  shows "\<exists>s. fast_ctor malloc n b ns = Inr s \<and> fast_live s \<and>
    fast_universe s = {0..<int n} \<and> fast_avail s = {0..<int n} \<and> fp_n_shards s = ns \<and>
    fast_counts s = (0, 0)"
proof -
  let ?s = "fast_fresh malloc n b ns n" and ?st = "replicate (nat ns) ([] :: int list)"
  have lt: "m mod nat ns < nat ns" for m using assms(2) by simp
  then have sh: "sint (word_of_nat (m mod nat ns) :: u32) = int (m mod nat ns)" for m
    using assms(3) by (intro sint_word_of_nat_small) (metis less_trans nat_less_numeral_power_cancel_iff)
  have "int (m mod nat ns) < ns" for m using lt [of m] by linarith
  then have "fast_rep ?st ?s"
    using assms(2-4) by (auto simp: fast_rep_def fast_fresh_def sh)
  moreover have "fast_universe ?s = {0..<int n}"
    by (auto simp: fast_universe_def fast_fresh_def in_range_def)
  ultimately obtain st' s' where
    s': "rfold fast_push (map int [0..<n]) ?s = Inr s'" "fast_rep st' s'"
      "set (concat st') = set (concat ?st) \<union> set (map int [0..<n])"
      "fast_touched 0 (set (map int [0..<n])) ?s s'" "fast_counts s' = fast_counts ?s"
    using fast_push_loop_ok [of ?st ?s "map int [0..<n]"]
    by (auto simp: distinct_map fast_fresh_def in_range_def)
  have mem: "set (map int [0..<n]) = {0..<int n}"
    by (auto intro: image_eqI [of _ _ "nat pid" for pid]) (metis atLeastLessThan_iff image_eqI le0 nat_less_iff int_nat_eq)
  have "fast_ctor malloc n b ns = Inr s'"
    using assms(2) fast_ctor_pages [of n malloc b ns n] assms(1)
      fast_link_loop [OF assms(2,3,4), of 0 ?s] s'(1)
    by (simp add: fast_ctor_def fast_fresh_def)
  moreover have "pm_touch_us (fp_meta s' ! nat y) = 0" if "0 \<le> y" "y < int n" for y
    using s'(4) that unfolding fast_touched_def mem by (simp add: in_range_def fast_fresh_def)
  moreover have "fast_universe s' = {0..<int n}"
    using fast_touched_universe [OF s'(4)] \<open>fast_universe ?s = {0..<int n}\<close> by simp
  moreover have "fast_inv s'" "fast_avail s' = {0..<int n}"
    using fast_rep_inv [OF s'(2)] s'(3) mem by simp_all
  moreover have "fp_n_shards s' = ns" "fast_counts s' = (0, 0)"
    using s'(4,5) by (simp_all add: fast_touched_def fast_counts_def fast_fresh_def)
  ultimately show ?thesis by (simp add: fast_live_def)
qed

section \<open>Properties\<close>

lemma sample_fast_pool:
  obtains s where "fast_ctor (\<lambda>i b. (0, Some i)) 4 64 2 = Inr s" "fast_live s"
    "fast_universe s = {0..<4}" "fast_avail s = {0..<4}"
  using fast_ctor_ok [of 4 "\<lambda>i b. (0, Some i)" 64 2] by auto

text \<open>
  C5: \<open>PagePoolFast::alloc\<close> is all or nothing. When \<open>n\<close> pages are free it returns \<open>n\<close>
  different pages that were free, takes exactly those off the stacks and stamps exactly
  those, whatever shard the thread hash starts at and however many shards it has to visit.
  Otherwise it returns nothing and every page is free as before, but the pages it took and
  gave back are added to \<open>free_cnt_\<close> although none of them was ever allocated.
\<close>

theorem fast_alloc_spec:
  assumes "fast_live s" and "0 \<le> n" and "ts \<noteq> 0"
  shows "\<exists>ids s'. fast_alloc ts h n s = Inr (ids, s') \<and> fast_live s' \<and>
    (if n \<le> int (card (fast_avail s))
     then int (length ids) = n \<and> distinct ids \<and> set ids \<subseteq> fast_avail s \<and>
       fast_avail s' = fast_avail s - set ids \<and> fast_touched ts (set ids) s s' \<and>
       fp_alloc_cnt s' = fp_alloc_cnt s + word_of_int n \<and> fp_free_cnt s' = fp_free_cnt s
     else ids = [] \<and> fast_avail s' = fast_avail s \<and> fp_alloc_cnt s' = fp_alloc_cnt s \<and>
       fp_free_cnt s' = fp_free_cnt s + word_of_nat (card (fast_avail s)))"
proof -
  have inv: "fast_inv s" using assms(1) by (simp add: fast_live_def)
  obtain ids s' where r: "fast_alloc ts h n s = Inr (ids, s')"
    using fast_alloc_ok [OF inv assms(2)] by blast
  with fast_alloc_live [OF assms r] fast_alloc_ok [OF inv assms(2), of ts h] show ?thesis
    by (auto split: if_splits)
qed

theorem fast_alloc_spec_witness:
  "\<exists>s ids s'. fast_live s \<and> fast_alloc 7 5 3 s = Inr (ids, s') \<and> fast_live s' \<and>
     length ids = 3 \<and> distinct ids \<and> set ids \<subseteq> {0..<4}"
proof -
  obtain s where s: "fast_live s" "fast_avail s = {0..<4}" using sample_fast_pool .
  show ?thesis using fast_alloc_spec [OF s(1), of 3 7 5] s by auto
qed

text \<open>
  \<open>free_pages\<close> of pages that are in use puts each of them on the stack of its own shard,
  clears its stamp, leaves every other page as it was and counts them.
\<close>

theorem fast_free_pages_spec:
  assumes "fast_live s" and "distinct ids" and "set ids \<subseteq> fast_universe s - fast_avail s"
  shows "\<exists>s'. fast_free_pages ids s = Inr s' \<and> fast_live s' \<and>
    fast_avail s' = fast_avail s \<union> set ids \<and> fast_touched 0 (set ids) s s' \<and>
    fp_free_cnt s' = fp_free_cnt s + word_of_nat (length ids)"
proof -
  have inv: "fast_inv s" using assms(1) by (simp add: fast_live_def)
  from fast_free_pages_ok [OF inv assms(2,3)] fast_free_live [OF assms] show ?thesis by blast
qed

theorem fast_free_pages_spec_witness:
  "\<exists>s ids s'. fast_live s \<and> length ids = 3 \<and> fast_free_pages ids s = Inr s' \<and> fast_live s' \<and>
     fast_avail s' = {0..<4}"
proof -
  obtain s where s: "fast_live s" "fast_universe s = {0..<4}" "fast_avail s = {0..<4}"
    using sample_fast_pool .
  have inv: "fast_inv s" using s(1) by (simp add: fast_live_def)
  obtain ids s1 where a: "fast_alloc 7 5 3 s = Inr (ids, s1)" "length ids = 3" "distinct ids"
      "set ids \<subseteq> {0..<4}" "fast_avail s1 = {0..<4} - set ids" "fast_universe s1 = {0..<4}"
    using fast_alloc_ok [OF inv, of 3 7 5] s(2,3) by auto
  have live: "fast_live s1" by (rule fast_alloc_live [OF s(1) _ _ a(1)]) simp_all
  have "set ids \<subseteq> fast_universe s1 - fast_avail s1" using a(4-6) by auto
  from fast_free_pages_spec [OF live a(3) this] obtain s2 where
    "fast_free_pages ids s1 = Inr s2" "fast_live s2" "fast_avail s2 = fast_avail s1 \<union> set ids"
    by blast
  moreover from this(3) have "fast_avail s2 = {0..<4}" using a(4,5) by auto
  ultimately show ?thesis using live a(2) by blast
qed

text \<open>
  \<open>leak_scan\<close> reclaims exactly the stamped pages whose unsigned age exceeds the limit,
  returns their number and keeps the pool consistent.
\<close>

theorem fast_leak_scan_spec:
  assumes "fast_live s"
  shows "\<exists>s'. fast_leak_scan now ttl s = Inr (int (card (fast_stale_pages now ttl s)), s') \<and>
    fast_live s' \<and> fast_avail s' = fast_avail s \<union> fast_stale_pages now ttl s \<and>
    fast_touched 0 (fast_stale_pages now ttl s) s s'"
  using fast_leak_scan_ok [OF assms] by blast

theorem fast_leak_scan_spec_witness:
  "\<exists>s s' k. fast_live s \<and> fast_leak_scan 9 30000 s = Inr (k, s') \<and> fast_live s'"
proof -
  obtain s where "fast_live s" using sample_fast_pool .
  with fast_leak_scan_spec [OF this, of 9 30000] show ?thesis by blast
qed

text \<open>
  The subtraction in \<open>leak_scan\<close> wraps. A page stamped one microsecond after the scan
  read its clock (another thread allocated or touched it in between) has the largest
  possible age and is reclaimed, whatever the limit of up to about 24 days.
\<close>

theorem fast_leak_scan_future_stamp:
  assumes "pm_touch_us m = now + 1" and "pm_touch_us m \<noteq> 0" and "0 \<le> ttl" and "ttl < 2 ^ 31"
  shows "fast_stale now ttl m"
proof -
  have "now - pm_touch_us m = -1" using assms(1) by simp
  moreover have "word_of_int ttl * 1000 < (-1 :: u64)"
  proof -
    have "word_of_int ttl * 1000 = (word_of_int (ttl * 1000) :: u64)" by simp
    moreover have "uint (word_of_int (ttl * 1000) :: u64) = ttl * 1000"
      using assms(3,4) by (subst uint_word_of_int_eq) (simp add: take_bit_int_eq_self)
    moreover have "uint (-1 :: u64) = 2 ^ 64 - 1"
      by (simp add: unsigned_minus_1_eq_mask mask_eq_exp_minus_1)
    ultimately show ?thesis using assms(4) unfolding word_less_def by simp
  qed
  ultimately show ?thesis using assms(2) by (simp add: fast_stale_def)
qed

theorem fast_leak_scan_future_stamp_witness:
  "fast_stale 1000000 30000 \<lparr>pm_touch_us = 1000001, pm_shard = 0\<rparr>"
  by (rule fast_leak_scan_future_stamp) simp_all

text \<open>
  Unlike \<open>PagePool::free_pages\<close>, the fast pool does not notice a second free of the same
  page. On a one-shard pool of two pages whose page 1 was allocated, freeing page 1 twice
  links it to itself, and the next allocation of two pages returns page 1 twice.
\<close>

definition pair_pool :: fast_pool where
  "pair_pool = \<lparr>fp_page_bytes = 64, fp_n_shards = 1, fp_dptrs = [Some 0, Some 1],
     fp_meta = [\<lparr>pm_touch_us = 0, pm_shard = 0\<rparr>, \<lparr>pm_touch_us = 7, pm_shard = 0\<rparr>],
     fp_heads = [0], fp_next = [-1, 0], fp_alloc_cnt = 1, fp_free_cnt = 0\<rparr>"

definition pair_pool_freed :: "int \<Rightarrow> u64 \<Rightarrow> fast_pool" where
  "pair_pool_freed nxt k = \<lparr>fp_page_bytes = 64, fp_n_shards = 1, fp_dptrs = [Some 0, Some 1],
     fp_meta = [\<lparr>pm_touch_us = 0, pm_shard = 0\<rparr>, \<lparr>pm_touch_us = 0, pm_shard = 0\<rparr>],
     fp_heads = [1], fp_next = [-1, nxt], fp_alloc_cnt = 1, fp_free_cnt = k\<rparr>"

theorem fast_double_free_aliases:
  "\<exists>s0 s3. fast_ctor (\<lambda>i b. (0, Some i)) 2 64 1 = Inr s0 \<and>
     fast_alloc 7 0 1 s0 = Inr ([1], pair_pool) \<and>
     fast_free_pages [1] pair_pool = Inr (pair_pool_freed 0 1) \<and>
     fast_free_pages [1] (pair_pool_freed 0 1) = Inr (pair_pool_freed 1 2) \<and>
     fast_alloc 8 0 2 (pair_pool_freed 1 2) = Inr ([1, 1], s3)"
proof (intro exI conjI)
  let ?s0 = "(pair_pool_freed 0 0)\<lparr>fp_alloc_cnt := 0\<rparr>"
  show "fast_ctor (\<lambda>i b. (0, Some i)) 2 64 1 = Inr ?s0" by code_simp
  show "fast_alloc 7 0 1 ?s0 = Inr ([1], pair_pool)" by code_simp
  show "fast_free_pages [1] pair_pool = Inr (pair_pool_freed 0 1)" by code_simp
  show "fast_free_pages [1] (pair_pool_freed 0 1) = Inr (pair_pool_freed 1 2)" by code_simp
  show "fast_alloc 8 0 2 (pair_pool_freed 1 2) = Inr ([1, 1], (pair_pool_freed 1 2)
      \<lparr>fp_alloc_cnt := 3, fp_meta := [\<lparr>pm_touch_us = 0, pm_shard = 0\<rparr>,
        \<lparr>pm_touch_us = 8, pm_shard = 0\<rparr>]\<rparr>)" by code_simp
qed

end
