(* ===== verification/Shard_Stack.thy ===== *)
theory Shard_Stack
  imports Page_Pool_Fast
begin

text \<open>
  One shard of \<open>PagePoolFast\<close> under concurrency. The free stack of a shard is manipulated
  by \<open>compare_exchange_weak\<close> on its head, so the atomic accesses of \<open>alloc\<close>
  (src/pool_fast.cpp, lines 39-48) and \<open>free_pages\<close> (lines 66-70) are modelled one by one
  and threads interleave between them. A thread's program counter carries its local
  variables \<open>top\<close>, \<open>nxt\<close> and \<open>id\<close>; \<open>sh_held\<close> is the vector of page ids it has obtained.
\<close>

section \<open>State and steps\<close>

datatype pc =
    Idle
  | Loaded int              \<comment> \<open>\<open>top\<close> was read, \<open>next_[top]\<close> is read next\<close>
  | Ready int int           \<comment> \<open>\<open>top\<close> and \<open>nxt\<close> were read, the exchange comes next\<close>
  | Push_Loaded int int     \<comment> \<open>freeing \<open>id\<close>: the head \<open>top\<close> was read\<close>
  | Push_Ready int int      \<comment> \<open>freeing \<open>id\<close>: \<open>next_[id] = top\<close> was stored\<close>

record shard =
  sh_head :: int
  sh_next :: "int list"
  sh_pc :: "nat \<Rightarrow> pc"
  sh_held :: "nat \<Rightarrow> int list"

datatype shard_event =
    Load_Head nat
  | Read_Next nat
  | Pop_Cas nat
  | Pop_Spurious nat
  | Begin_Free nat int
  | Store_Next nat
  | Push_Cas nat
  | Push_Spurious nat

definition set_pc :: "nat \<Rightarrow> pc \<Rightarrow> shard \<Rightarrow> shard" where
  "set_pc t p s = s\<lparr>sh_pc := (sh_pc s)(t := p)\<rparr>"

text \<open>The loop test \<open>while (tp != -1)\<close> on the head just read.\<close>

definition loaded :: "int \<Rightarrow> pc" where
  "loaded tp = (if tp = -1 then Idle else Loaded tp)"

text \<open>
  One atomic access; \<open>None\<close> when the thread is not at that access (or the access would be
  outside \<open>next_\<close>, which the invariant below excludes). A failed or spurious
  exchange reloads the head into \<open>top\<close>.
\<close>

fun shard_step :: "shard_event \<Rightarrow> shard \<Rightarrow> shard option" where
  "shard_step (Load_Head t) s =
     (case sh_pc s t of Idle \<Rightarrow> Some (set_pc t (loaded (sh_head s)) s) | _ \<Rightarrow> None)"
| "shard_step (Read_Next t) s =
     (case sh_pc s t of
        Loaded tp \<Rightarrow> (if in_range (sh_next s) tp
          then Some (set_pc t (Ready tp (sh_next s ! nat tp)) s) else None)
      | _ \<Rightarrow> None)"
| "shard_step (Pop_Cas t) s =
     (case sh_pc s t of
        Ready tp nxt \<Rightarrow>
          (if sh_head s = tp
           then Some (set_pc t Idle (s\<lparr>sh_head := nxt,
             sh_held := (sh_held s)(t := sh_held s t @ [tp])\<rparr>))
           else Some (set_pc t (loaded (sh_head s)) s))
      | _ \<Rightarrow> None)"
| "shard_step (Pop_Spurious t) s =
     (case sh_pc s t of Ready tp nxt \<Rightarrow> Some (set_pc t (loaded (sh_head s)) s) | _ \<Rightarrow> None)"
| "shard_step (Begin_Free t pid) s =
     (case sh_pc s t of
        Idle \<Rightarrow> (if pid \<in> set (sh_held s t)
          then Some (set_pc t (Push_Loaded pid (sh_head s))
            (s\<lparr>sh_held := (sh_held s)(t := remove1 pid (sh_held s t))\<rparr>))
          else None)
      | _ \<Rightarrow> None)"
| "shard_step (Store_Next t) s =
     (case sh_pc s t of
        Push_Loaded pid tp \<Rightarrow> Some (set_pc t (Push_Ready pid tp)
          (s\<lparr>sh_next := (sh_next s)[nat pid := tp]\<rparr>))
      | _ \<Rightarrow> None)"
| "shard_step (Push_Cas t) s =
     (case sh_pc s t of
        Push_Ready pid tp \<Rightarrow>
          (if sh_head s = tp then Some (set_pc t Idle (s\<lparr>sh_head := pid\<rparr>))
           else Some (set_pc t (Push_Loaded pid (sh_head s)) s))
      | _ \<Rightarrow> None)"
| "shard_step (Push_Spurious t) s =
     (case sh_pc s t of
        Push_Ready pid tp \<Rightarrow> Some (set_pc t (Push_Loaded pid (sh_head s)) s) | _ \<Rightarrow> None)"

primrec shard_run :: "shard_event list \<Rightarrow> shard \<Rightarrow> shard option" where
  "shard_run [] s = Some s"
| "shard_run (e # es) s = Option.bind (shard_step e s) (shard_run es)"

text \<open>The shard as the constructor links it: page \<open>n - 1\<close> on top, page 0 at the bottom.\<close>

definition shard_init :: "nat \<Rightarrow> shard" where
  "shard_init n = \<lparr>sh_head = int n - 1, sh_next = map (\<lambda>i. int i - 1) [0..<n],
     sh_pc = (\<lambda>_. Idle), sh_held = (\<lambda>_. [])\<rparr>"

section \<open>Schedules without a free inside an allocation\<close>

text \<open>
  \<open>popping p\<close>: the thread is between its load of the head and its exchange. A schedule is
  quiet when no other thread is popping at the moment a freed page is linked in.
\<close>

fun popping :: "pc \<Rightarrow> bool" where
  "popping (Loaded tp) = True"
| "popping (Ready tp nxt) = True"
| "popping _ = False"

fun is_push_cas :: "shard_event \<Rightarrow> bool" where
  "is_push_cas (Push_Cas t) = True"
| "is_push_cas _ = False"

inductive quiet_reachable :: "nat \<Rightarrow> shard \<Rightarrow> bool" for n :: nat where
  quiet_init: "quiet_reachable n (shard_init n)"
| quiet_step: "quiet_reachable n s \<Longrightarrow> shard_step e s = Some s' \<Longrightarrow>
    (is_push_cas e \<Longrightarrow> \<forall>u. \<not> popping (sh_pc s u)) \<Longrightarrow> quiet_reachable n s'"

text \<open>The pages a thread answers for: those it obtained and the one it is freeing.\<close>

fun freeing :: "pc \<Rightarrow> int list" where
  "freeing (Push_Loaded pid tp) = [pid]"
| "freeing (Push_Ready pid tp) = [pid]"
| "freeing _ = []"

definition owned :: "shard \<Rightarrow> nat \<Rightarrow> int list" where
  "owned s t = sh_held s t @ freeing (sh_pc s t)"

fun pc_ok :: "int list \<Rightarrow> int list \<Rightarrow> pc \<Rightarrow> bool" where
  "pc_ok nx xs (Loaded tp) \<longleftrightarrow> in_range nx tp"
| "pc_ok nx xs (Ready tp nxt) \<longleftrightarrow> in_range nx tp \<and> (tp \<in> set xs \<longrightarrow> nxt = nx ! nat tp)"
| "pc_ok nx xs (Push_Ready pid tp) \<longleftrightarrow> nx ! nat pid = tp"
| "pc_ok nx xs _ \<longleftrightarrow> True"

definition shard_ok :: "nat \<Rightarrow> int list \<Rightarrow> shard \<Rightarrow> bool" where
  "shard_ok n xs s \<longleftrightarrow> length (sh_next s) = n \<and> chain (sh_next s) (sh_head s) xs \<and> distinct xs \<and>
     owns {0..<int n} (set xs) UNIV (owned s) \<and> (\<forall>t. pc_ok (sh_next s) xs (sh_pc s t))"

lemma in_range_iff: "length nx = n \<Longrightarrow> in_range nx x \<longleftrightarrow> x \<in> {0..<int n}"
  by (auto simp: in_range_def)

lemma owned_set_pc: "freeing p = freeing (sh_pc s t) \<Longrightarrow> owned (set_pc t p s) = owned s"
  by (auto simp: owned_def set_pc_def)

lemma freeing_loaded [simp]: "freeing (loaded tp) = []"
  by (simp add: loaded_def)

lemma pc_ok_loaded: "chain nx h xs \<Longrightarrow> pc_ok nx xs (loaded h)"
  by (cases xs) (auto simp: loaded_def)

lemma set_pc_simps [simp]:
  "sh_head (set_pc t p s) = sh_head s" "sh_next (set_pc t p s) = sh_next s"
  "sh_held (set_pc t p s) = sh_held s" "sh_pc (set_pc t p s) u = (if u = t then p else sh_pc s u)"
  by (simp_all add: set_pc_def)

text \<open>A step that only moves a program counter.\<close>

lemma shard_ok_set_pc:
  "shard_ok n xs s \<Longrightarrow> freeing p = freeing (sh_pc s t) \<Longrightarrow> pc_ok (sh_next s) xs p \<Longrightarrow>
    shard_ok n xs (set_pc t p s)"
  by (simp add: shard_ok_def owned_set_pc)

lemma shard_ok_reload:
  "shard_ok n xs s \<Longrightarrow> freeing (sh_pc s t) = [] \<Longrightarrow>
    shard_ok n xs (set_pc t (loaded (sh_head s)) s)"
  by (rule shard_ok_set_pc) (auto simp: shard_ok_def pc_ok_loaded)


lemma shard_ok_repush:
  "shard_ok n xs s \<Longrightarrow> sh_pc s t = Push_Ready pid tp \<Longrightarrow>
    shard_ok n xs (set_pc t (Push_Loaded pid (sh_head s)) s)"
  by (rule shard_ok_set_pc) auto

lemma pc_ok_pop: "pc_ok nx xs p \<Longrightarrow> set ys \<subseteq> set xs \<Longrightarrow> pc_ok nx ys p"
  by (cases p) auto

lemma pc_ok_quiet: "pc_ok nx xs p \<Longrightarrow> \<not> popping p \<Longrightarrow> pc_ok nx ys p"
  by (cases p) auto

lemma pc_ok_store:
  assumes "pc_ok nx xs p" and "in_range nx x" and "x \<notin> set xs"
    and "\<And>y. y \<in> set (freeing p) \<Longrightarrow> in_range nx y \<and> y \<noteq> x"
    and "\<And>y. y \<in> set xs \<Longrightarrow> in_range nx y"
  shows "pc_ok (nx[nat x := v]) xs p"
  using assms by (cases p) (auto simp: nth_update_in_range)

lemma shard_okD:
  assumes "shard_ok n xs s"
  shows "length (sh_next s) = n" and "chain (sh_next s) (sh_head s) xs" and "distinct xs"
    and "owns {0..<int n} (set xs) UNIV (owned s)" and "pc_ok (sh_next s) xs (sh_pc s t)"
    and "y \<in> set xs \<Longrightarrow> in_range (sh_next s) y"
    and "y \<in> set (owned s t) \<Longrightarrow> in_range (sh_next s) y \<and> y \<notin> set xs"
  using assms chain_in_range [of "sh_next s" "sh_head s" xs]
    ownsD(2,3) [of "{0..<int n}" "set xs" UNIV "owned s" t]
  by (auto simp: shard_ok_def in_range_iff)

lemma shard_ok_pop:
  assumes ok: "shard_ok n xs s" and pc: "sh_pc s t = Ready tp nxt" and hd: "sh_head s = tp"
  shows "shard_ok n (tl xs) (set_pc t Idle (s\<lparr>sh_head := nxt,
    sh_held := (sh_held s)(t := sh_held s t @ [tp])\<rparr>))" (is "shard_ok n _ ?s")
proof -
  note d = shard_okD [OF ok]
  have "in_range (sh_next s) tp" using d(5) [of t] pc by simp
  then obtain ys where xs: "xs = tp # ys"
    using d(2) hd by (cases xs) (auto simp: in_range_def)
  with d(5) [of t] pc have nxt: "nxt = sh_next s ! nat tp" by simp
  have o: "owned ?s = (owned s)(t := owned s t @ [tp])"
    using pc by (auto simp: owned_def set_pc_def)
  have "owns {0..<int n} (set xs - set [tp]) UNIV (owned ?s)"
    unfolding o using d(1,6) xs
    by (intro owns_give [OF d(4)]) (auto simp: in_range_def)
  with xs d(3) have "owns {0..<int n} (set ys) UNIV (owned ?s)" by simp
  with d(1,2,3) xs nxt show ?thesis
    by (auto simp: shard_ok_def intro: pc_ok_pop [OF d(5)])
qed

lemma shard_ok_begin_free:
  assumes ok: "shard_ok n xs s" and pc: "sh_pc s t = Idle" and pid: "pid \<in> set (sh_held s t)"
  shows "shard_ok n xs (set_pc t (Push_Loaded pid h)
    (s\<lparr>sh_held := (sh_held s)(t := remove1 pid (sh_held s t))\<rparr>))" (is "shard_ok n _ ?s")
proof -
  note d = shard_okD [OF ok]
  have o: "owned ?s = (owned s)(t := remove1 pid (owned s t) @ [pid])"
    using pc by (auto simp: owned_def set_pc_def)
  have "pid \<in> set (owned s t)" using pid by (simp add: owned_def)
  with ownsD(1) [OF d(4), of t] have "owns {0..<int n} (set xs) UNIV (owned ?s)"
    unfolding o by (intro owns_shrink [OF d(4)]) auto
  with d show ?thesis by (simp add: shard_ok_def)
qed

lemma shard_ok_store:
  assumes ok: "shard_ok n xs s" and pc: "sh_pc s t = Push_Loaded pid tp"
  shows "shard_ok n xs (set_pc t (Push_Ready pid tp)
    (s\<lparr>sh_next := (sh_next s)[nat pid := tp]\<rparr>))" (is "shard_ok n _ ?s")
proof -
  note d = shard_okD [OF ok]
  have fr: "set (freeing (sh_pc s u)) \<subseteq> set (owned s u)" for u by (simp add: owned_def)
  have pid: "in_range (sh_next s) pid" "pid \<notin> set xs" "pid \<in> set (owned s t)"
    using d(7) [of pid t] fr [of t] pc by auto
  have "pc_ok ((sh_next s)[nat pid := tp]) xs (sh_pc s u)" if "u \<noteq> t" for u
  proof (rule pc_ok_store [OF d(5) pid(1,2)])
    show "in_range (sh_next s) y \<and> y \<noteq> pid" if "y \<in> set (freeing (sh_pc s u))" for y
      using that fr [of u] d(7) [of y u] ownsD(4) [OF d(4), of u t] pid(3) \<open>u \<noteq> t\<close> by auto
  qed (rule d(6))
  moreover have "owned ?s = owned s" using pc by (auto simp: owned_def set_pc_def)
  ultimately show ?thesis
    using d pid(1,2) by (auto simp: shard_ok_def chain_update in_range_def)
qed

lemma shard_ok_push:
  assumes ok: "shard_ok n xs s" and pc: "sh_pc s t = Push_Ready pid tp" and hd: "sh_head s = tp"
    and quiet: "\<forall>u. \<not> popping (sh_pc s u)"
  shows "shard_ok n (pid # xs) (set_pc t Idle (s\<lparr>sh_head := pid\<rparr>))" (is "shard_ok n _ ?s")
proof -
  note d = shard_okD [OF ok]
  have o: "owned s t = sh_held s t @ [pid]" "owned ?s = (owned s)(t := sh_held s t)"
    using pc by (auto simp: owned_def set_pc_def)
  have pid: "in_range (sh_next s) pid" "pid \<notin> set xs" using d(7) [of pid t] o by auto
  have "owns {0..<int n} (set (pid # xs)) UNIV (owned ?s)"
    unfolding o(2) using ownsD(1) [OF d(4), of t] o(1) by (intro owns_shrink [OF d(4)]) auto
  moreover have "sh_next s ! nat pid = tp" using d(5) [of t] pc by simp
  ultimately show ?thesis
    using d(1,2,3) pid hd quiet by (auto simp: shard_ok_def intro: pc_ok_quiet [OF d(5)])
qed

lemma shard_ok_step:
  assumes ok: "shard_ok n xs s" and step: "shard_step e s = Some s'"
    and quiet: "is_push_cas e \<Longrightarrow> \<forall>u. \<not> popping (sh_pc s u)"
  shows "\<exists>xs'. shard_ok n xs' s'"
proof (cases e)
  case (Load_Head t)
  with step shard_ok_reload [OF ok, of t] show ?thesis by (auto split: pc.splits)
next
  case (Read_Next t)
  with step obtain tp where "sh_pc s t = Loaded tp" "in_range (sh_next s) tp"
      "s' = set_pc t (Ready tp (sh_next s ! nat tp)) s"
    by (auto split: pc.splits if_splits)
  then show ?thesis using shard_ok_set_pc [OF ok, of "Ready tp (sh_next s ! nat tp)" t] by auto
next
  case (Pop_Cas t)
  with step shard_ok_pop [OF ok, of t] shard_ok_reload [OF ok, of t] show ?thesis
    by (auto split: pc.splits if_splits)
next
  case (Pop_Spurious t)
  with step shard_ok_reload [OF ok, of t] show ?thesis by (auto split: pc.splits)
next
  case (Begin_Free t pid)
  with step shard_ok_begin_free [OF ok, of t pid "sh_head s"] show ?thesis
    by (auto split: pc.splits if_splits)
next
  case (Store_Next t)
  with step shard_ok_store [OF ok, of t] show ?thesis by (auto split: pc.splits)
next
  case (Push_Cas t)
  with quiet have "\<forall>u. \<not> popping (sh_pc s u)" by simp
  with Push_Cas step shard_ok_push [OF ok, of t] shard_ok_repush [OF ok, of t] show ?thesis
    by (auto split: pc.splits if_splits)
next
  case (Push_Spurious t)
  with step shard_ok_repush [OF ok, of t] show ?thesis by (auto split: pc.splits)
qed

lemma chain_init:
  assumes "\<And>i. i < n \<Longrightarrow> in_range nx (int i) \<and> nx ! i = int i - 1"
  shows "chain nx (int n - 1) (rev (map int [0..<n]))"
  using assms by (induction n) auto

lemma shard_ok_init: "shard_ok n (rev (map int [0..<n])) (shard_init n)"
proof -
  have "chain (map (\<lambda>i. int i - 1) [0..<n]) (int n - 1) (rev (map int [0..<n]))"
    by (rule chain_init) simp
  then show ?thesis
    by (auto simp: shard_ok_def shard_init_def owns_def owned_def distinct_map inj_on_def)
qed

lemma quiet_shard_ok: "quiet_reachable n s \<Longrightarrow> \<exists>xs. shard_ok n xs s"
proof (induction rule: quiet_reachable.induct)
  case quiet_init
  show ?case using shard_ok_init by blast
next
  case (quiet_step s e s')
  then show ?case using shard_ok_step by blast
qed

lemma quiet_run_pops:
  "shard_run es s = Some s' \<Longrightarrow> list_all (\<lambda>e. \<not> is_push_cas e) es \<Longrightarrow> quiet_reachable n s \<Longrightarrow>
    quiet_reachable n s'"
proof (induction es arbitrary: s)
  case Nil
  then show ?case by simp
next
  case (Cons e es)
  then obtain s1 where s1: "shard_step e s = Some s1" "shard_run es s1 = Some s'"
    by (auto simp: bind_eq_Some_conv)
  moreover have "quiet_reachable n s1"
    using quiet_step [OF Cons.prems(3) s1(1)] Cons.prems(2) by simp
  ultimately show ?case using Cons.IH Cons.prems(2) by simp
qed

text \<open>Two schedules: two threads racing for the head, and a pop overlapping a pop-pop-push.\<close>

definition race_schedule :: "shard_event list" where
  "race_schedule = [Load_Head 0, Load_Head 1, Read_Next 0, Read_Next 1, Pop_Cas 0, Pop_Cas 1,
     Read_Next 1, Pop_Cas 1]"

definition aba_schedule :: "shard_event list" where
  "aba_schedule = [Load_Head 0, Read_Next 0,
     Load_Head 1, Read_Next 1, Pop_Cas 1, Load_Head 1, Read_Next 1, Pop_Cas 1,
     Begin_Free 1 2, Store_Next 1, Push_Cas 1,
     Pop_Cas 0, Load_Head 0, Read_Next 0, Pop_Cas 0]"

lemmas shard_eval = shard_init_def loaded_def set_pc_def in_range_def upt_rec numeral_nat

section \<open>Properties\<close>

text \<open>
  C6: as long as no page is linked back into a shard while another thread is inside its pop
  loop, every interleaving of the atomic accesses of \<open>alloc\<close> and \<open>free_pages\<close> keeps the
  pages exclusive: no page id is held twice, neither by two threads nor by one, and every held
  id is a page of the pool. Concurrent allocations alone are therefore safe.
\<close>

theorem quiet_exclusive:
  assumes "quiet_reachable n s"
  shows "distinct (sh_held s t) \<and> set (sh_held s t) \<subseteq> {0..<int n} \<and>
    (t \<noteq> u \<longrightarrow> set (sh_held s t) \<inter> set (sh_held s u) = {})"
proof -
  from quiet_shard_ok [OF assms] obtain xs where "shard_ok n xs s" by blast
  from shard_okD(4) [OF this] have "owns {0..<int n} (set xs) UNIV (owned s)" .
  from ownsD(1,2) [OF this, of t] ownsD(4) [OF this, of t u] show ?thesis
    by (auto simp: owned_def)
qed

theorem quiet_exclusive_witness:
  "\<exists>s. shard_run race_schedule (shard_init 3) = Some s \<and> sh_held s 0 = [2] \<and> sh_held s 1 = [1] \<and>
    set (sh_held s 0) \<inter> set (sh_held s 1) = {}"
proof -
  obtain s where s: "shard_run race_schedule (shard_init 3) = Some s"
      "sh_held s 0 = [2]" "sh_held s 1 = [1]"
    by (simp add: race_schedule_def shard_eval)
  have "quiet_reachable 3 s"
    by (rule quiet_run_pops [OF s(1) _ quiet_init]) (simp add: race_schedule_def)
  from quiet_exclusive [OF this, of 0 1] s show ?thesis by auto
qed


end
