(* ===== verification/Page_Pool_Numa.thy ===== *)
theory Page_Pool_Numa
  imports Page_Pool_Fast
begin

text \<open>
  \<open>PagePoolNUMA\<close> (include/pool_numa.hpp, src/pool_numa.cpp): one \<open>PagePoolFast\<close> with 16
  shards per NUMA node; page \<open>l\<close> of node \<open>k\<close> has the global id
  \<open>k * pages_per_node_ + l\<close>. The number of nodes and the node of the calling thread come
  from libnuma and are arguments (\<open>nodes\<close>, \<open>cur\<close>); \<open>ts k\<close> is the clock value read by the
  call into node \<open>k\<close>. Allocation stays within one node.
\<close>

section \<open>Data and operations\<close>

record numa_pool =
  np_n_nodes :: int
  np_per_node :: "fast_pool list"
  np_pages_per_node :: nat

definition numa_ctor ::
  "(nat \<Rightarrow> nat \<Rightarrow> nat \<Rightarrow> int \<times> nat option) \<Rightarrow> int \<Rightarrow> nat \<Rightarrow> nat \<Rightarrow> numa_pool res" where
  "numa_ctor malloc nodes pages_per_node page_bytes =
     (if nodes < 0 then Inl Length_error
      else rfold (\<lambda>i s. rbind (fast_ctor (malloc i) pages_per_node page_bytes 16) (\<lambda>p.
          Inr (s\<lparr>np_per_node := np_per_node s @ [p]\<rparr>))) [0..<nat nodes]
        \<lparr>np_n_nodes = nodes, np_per_node = [], np_pages_per_node = pages_per_node\<rparr>)"

definition global_id :: "numa_pool \<Rightarrow> int \<Rightarrow> int \<Rightarrow> int res" where
  "global_id s node local_id =
     rbind (int_val (node * cast_int (np_pages_per_node s))) (\<lambda>base. int_val (base + local_id))"

text \<open>\<open>split\<close> divides with truncation toward zero.\<close>

definition split_id :: "numa_pool \<Rightarrow> int \<Rightarrow> (int \<times> int) res" where
  "split_id s gid = (let d = cast_int (np_pages_per_node s) in
     if d = 0 then Inl Div_zero else Inr (gid sdiv d, gid smod d))"

definition global_ids :: "numa_pool \<Rightarrow> int \<Rightarrow> int list \<Rightarrow> int list res" where
  "global_ids s node ids =
     rfold (\<lambda>l out. rbind (global_id s node l) (\<lambda>g. Inr (out @ [g]))) ids []"

definition node_alloc ::
  "(int \<Rightarrow> u64) \<Rightarrow> int \<Rightarrow> int \<Rightarrow> int \<Rightarrow> numa_pool \<Rightarrow> (int list \<times> numa_pool) res" where
  "node_alloc ts tid n node s =
     rbind (vec_at (np_per_node s) node) (\<lambda>p.
     rbind (fast_alloc (ts node) tid n p) (\<lambda>(ids, p').
     rbind (global_ids s node ids) (\<lambda>out.
       Inr (out, s\<lparr>np_per_node := (np_per_node s)[nat node := p']\<rparr>))))"

primrec numa_fallback ::
  "(int \<Rightarrow> u64) \<Rightarrow> int \<Rightarrow> int \<Rightarrow> int \<Rightarrow> int list \<Rightarrow> numa_pool \<Rightarrow> (int list \<times> numa_pool) res" where
  "numa_fallback ts tid n node [] s = Inr ([], s)"
| "numa_fallback ts tid n node (alt # alts) s =
     (if alt = node then numa_fallback ts tid n node alts s
      else rbind (node_alloc ts tid n alt s) (\<lambda>(out, s').
        if out \<noteq> [] then Inr (out, s') else numa_fallback ts tid n node alts s'))"

definition numa_home :: "int \<Rightarrow> int \<Rightarrow> numa_pool \<Rightarrow> int res" where
  "numa_home cur tid s =
     (if cur < 0 \<or> cur \<ge> np_n_nodes s
      then (if np_n_nodes s = 0 then Inl Div_zero else Inr (tid smod np_n_nodes s))
      else Inr cur)"

definition numa_alloc ::
  "int \<Rightarrow> (int \<Rightarrow> u64) \<Rightarrow> int \<Rightarrow> int \<Rightarrow> numa_pool \<Rightarrow> (int list \<times> numa_pool) res" where
  "numa_alloc cur ts tid n s =
     rbind (numa_home cur tid s) (\<lambda>node.
     rbind (node_alloc ts tid n node s) (\<lambda>(out, s').
       if out = [] then numa_fallback ts tid n node [0..np_n_nodes s - 1] s'
       else Inr (out, s')))"

text \<open>\<open>free_pages\<close> and \<open>touch\<close> first sort the ids by node, then visit the nodes.\<close>

definition numa_group :: "numa_pool \<Rightarrow> int list \<Rightarrow> int list list res" where
  "numa_group s gids =
     rfold (\<lambda>g per. rbind (split_id s g) (\<lambda>(k, l). rbind (vec_at per k) (\<lambda>xs.
       Inr (per[nat k := xs @ [l]])))) gids (replicate (nat (np_n_nodes s)) [])"

definition numa_visit ::
  "(int \<Rightarrow> int list \<Rightarrow> fast_pool \<Rightarrow> fast_pool res) \<Rightarrow> int list list \<Rightarrow> int \<Rightarrow> numa_pool \<Rightarrow>
    numa_pool res" where
  "numa_visit f per k s =
     rbind (vec_at per k) (\<lambda>ids. if ids = [] then Inr s
       else rbind (vec_at (np_per_node s) k) (\<lambda>p. rbind (f k ids p) (\<lambda>p'.
         Inr (s\<lparr>np_per_node := (np_per_node s)[nat k := p']\<rparr>))))"

definition numa_free_pages :: "int list \<Rightarrow> numa_pool \<Rightarrow> numa_pool res" where
  "numa_free_pages gids s = rbind (numa_group s gids) (\<lambda>per.
     rfold (numa_visit (\<lambda>_. fast_free_pages) per) [0..np_n_nodes s - 1] s)"

definition numa_touch :: "(int \<Rightarrow> u64) \<Rightarrow> int list \<Rightarrow> numa_pool \<Rightarrow> numa_pool res" where
  "numa_touch ts gids s = rbind (numa_group s gids) (\<lambda>per.
     rfold (numa_visit (\<lambda>k. fast_touch (ts k)) per) [0..np_n_nodes s - 1] s)"

definition numa_leak_scan :: "(int \<Rightarrow> u64) \<Rightarrow> int \<Rightarrow> numa_pool \<Rightarrow> (int \<times> numa_pool) res" where
  "numa_leak_scan now ttl_ms s =
     rfold (\<lambda>k (total, s). rbind (vec_at (np_per_node s) (int k)) (\<lambda>p.
         rbind (fast_leak_scan (now (int k)) ttl_ms p) (\<lambda>(c, p').
         rbind (int_val (total + c)) (\<lambda>total'.
           Inr (total', s\<lparr>np_per_node := (np_per_node s)[k := p']\<rparr>)))))
       [0..<length (np_per_node s)] (0, s)"

definition numa_get_stats :: "numa_pool \<Rightarrow> fast_stats res" where
  "numa_get_stats s =
     rfold (\<lambda>p agg. let st = fast_get_stats p in
         rbind (int_val (fs_total agg + fs_total st)) (\<lambda>total.
         rbind (int_val (fs_in_use agg + fs_in_use st)) (\<lambda>in_use.
           Inr \<lparr>fs_total = total, fs_in_use = in_use,
             fs_alloc_cnt = fs_alloc_cnt agg + fs_alloc_cnt st,
             fs_free_cnt = fs_free_cnt agg + fs_free_cnt st\<rparr>)))
       (np_per_node s) \<lparr>fs_total = 0, fs_in_use = 0, fs_alloc_cnt = 0, fs_free_cnt = 0\<rparr>"

section \<open>Invariant and global ids\<close>

definition numa_inv :: "numa_pool \<Rightarrow> bool" where
  "numa_inv s \<longleftrightarrow> 0 < np_n_nodes s \<and> length (np_per_node s) = nat (np_n_nodes s) \<and>
     0 < np_pages_per_node s \<and> np_n_nodes s * int (np_pages_per_node s) < 2 ^ 31 \<and>
     (\<forall>p\<in>set (np_per_node s). fast_inv p \<and>
       fast_universe p = {0..<int (np_pages_per_node s)})"

definition gid :: "numa_pool \<Rightarrow> int \<Rightarrow> int \<Rightarrow> int" where
  "gid s k l = k * int (np_pages_per_node s) + l"

definition numa_universe :: "numa_pool \<Rightarrow> int set" where
  "numa_universe s = {0..<np_n_nodes s * int (np_pages_per_node s)}"

definition node_avail :: "numa_pool \<Rightarrow> nat \<Rightarrow> int set" where
  "node_avail s k = fast_avail (np_per_node s ! k)"

definition numa_avail :: "numa_pool \<Rightarrow> int set" where
  "numa_avail s = (\<Union>k<length (np_per_node s). gid s (int k) ` node_avail s k)"

lemma numa_invD:
  assumes "numa_inv s"
  shows "0 < np_n_nodes s" and "length (np_per_node s) = nat (np_n_nodes s)"
    and "0 < np_pages_per_node s" and "np_n_nodes s * int (np_pages_per_node s) < 2 ^ 31"
    and "k < length (np_per_node s) \<Longrightarrow> fast_inv (np_per_node s ! k)"
    and "k < length (np_per_node s) \<Longrightarrow>
      fast_universe (np_per_node s ! k) = {0..<int (np_pages_per_node s)}"
  using assms by (auto simp: numa_inv_def)

lemma numa_bounds:
  assumes "numa_inv s" and "0 \<le> k" and "k < np_n_nodes s"
    and "0 \<le> l" and "l < int (np_pages_per_node s)"
  shows "0 \<le> k * int (np_pages_per_node s)" and "k * int (np_pages_per_node s) < 2 ^ 31"
    and "0 \<le> gid s k l" and "gid s k l < np_n_nodes s * int (np_pages_per_node s)"
    and "np_pages_per_node s < 2 ^ 31"
proof -
  let ?d = "int (np_pages_per_node s)"
  note i = numa_invD [OF assms(1)]
  have "(k + 1) * ?d \<le> np_n_nodes s * ?d"
    using assms(3) by (intro mult_right_mono) auto
  then have top: "k * ?d + ?d \<le> np_n_nodes s * ?d" by (simp add: algebra_simps)
  show kd: "0 \<le> k * ?d" using assms(2) by simp
  show "k * ?d < 2 ^ 31" using top i(3,4) by linarith
  show "0 \<le> gid s k l" using kd assms(4) by (simp add: gid_def)
  show "gid s k l < np_n_nodes s * ?d" using top assms(5) by (simp add: gid_def)
  have "?d < 2 ^ 31" using kd top i(4) by linarith
  then show "np_pages_per_node s < 2 ^ 31" by simp
qed

lemma global_id_ok:
  assumes "numa_inv s" and "0 \<le> k" and "k < np_n_nodes s"
    and "0 \<le> l" and "l < int (np_pages_per_node s)"
  shows "global_id s k l = Inr (gid s k l)"
  using numa_bounds [OF assms] numa_invD(4) [OF assms(1)]
  by (simp add: global_id_def gid_def)

lemma split_id_gid:
  assumes "numa_inv s" and "0 \<le> k" and "k < np_n_nodes s"
    and "0 \<le> l" and "l < int (np_pages_per_node s)"
  shows "split_id s (gid s k l) = Inr (k, l)"
proof -
  note b = numa_bounds [OF assms] and d = numa_invD(3) [OF assms(1)]
  have "gid s k l div int (np_pages_per_node s) = k" "gid s k l mod int (np_pages_per_node s) = l"
    using assms(4,5) d by (simp_all add: gid_def)
  moreover have "gid s k l sdiv int (np_pages_per_node s) = gid s k l div int (np_pages_per_node s)"
    "gid s k l smod int (np_pages_per_node s) = gid s k l mod int (np_pages_per_node s)"
    using b(3) d by (simp_all add: signed_divide_int_def signed_modulo_int_def sgn_if)
  ultimately show ?thesis using b(5) d by (simp add: split_id_def)
qed


lemma gid_split:
  assumes "numa_inv s" and "g \<in> numa_universe s"
  obtains k l where "g = gid s k l" "0 \<le> k" "k < np_n_nodes s" "0 \<le> l"
    "l < int (np_pages_per_node s)"
proof
  let ?d = "int (np_pages_per_node s)"
  note i = numa_invD [OF assms(1)]
  show "g = gid s (g div ?d) (g mod ?d)" by (simp add: gid_def)
  show "0 \<le> g div ?d" using assms(2) i(3) by (simp add: numa_universe_def pos_imp_zdiv_nonneg_iff)
  show "g div ?d < np_n_nodes s"
  proof (rule ccontr)
    assume "\<not> g div ?d < np_n_nodes s"
    then have "np_n_nodes s * ?d \<le> g div ?d * ?d" by (intro mult_right_mono) auto
    moreover have "g div ?d * ?d + g mod ?d = g" "0 \<le> g mod ?d"
      using i(3) by (simp_all add: div_mult_mod_eq)
    moreover have "g < np_n_nodes s * ?d" using assms(2) by (simp add: numa_universe_def)
    ultimately show False by linarith
  qed
  show "0 \<le> g mod ?d" "g mod ?d < ?d" using i(3) by simp_all
qed

lemma gid_inject:
  assumes "numa_inv s" and "0 \<le> l" and "l < int (np_pages_per_node s)"
    and "0 \<le> m" and "m < int (np_pages_per_node s)"
  shows "gid s j l = gid s k m \<longleftrightarrow> j = k \<and> l = m"
proof
  let ?d = "int (np_pages_per_node s)"
  assume e: "gid s j l = gid s k m"
  have "gid s j l div ?d = j" "gid s k m div ?d = k" "gid s j l mod ?d = l" "gid s k m mod ?d = m"
    using assms numa_invD(3) [OF assms(1)] by (simp_all add: gid_def)
  with e show "j = k \<and> l = m" by simp
qed simp

lemma node_availD:
  assumes "numa_inv s" and "k < length (np_per_node s)" and "x \<in> node_avail s k"
  shows "0 \<le> x \<and> x < int (np_pages_per_node s)"
  using numa_invD(6) [OF assms(1,2)] assms(3) fast.avail_universe [OF numa_invD(5) [OF assms(1,2)]]
  by (force simp: node_avail_def)

lemma numa_avail_iff:
  assumes "numa_inv s" and "k < length (np_per_node s)"
    and "0 \<le> l" and "l < int (np_pages_per_node s)"
  shows "gid s (int k) l \<in> numa_avail s \<longleftrightarrow> l \<in> node_avail s k"
  using assms node_availD [OF assms(1)] gid_inject [OF assms(1)]
  by (auto simp: numa_avail_def image_iff)

lemma numa_avail_universe: "numa_inv s \<Longrightarrow> numa_avail s \<subseteq> numa_universe s"
  using node_availD [of s] numa_bounds(3,4) [of s] numa_invD(2) [of s]
  by (fastforce simp: numa_avail_def numa_universe_def)

lemma numa_avail_mem:
  "g \<in> numa_avail s \<longleftrightarrow> (\<exists>j<length (np_per_node s). g \<in> gid s (int j) ` node_avail s j)"
  by (auto simp: numa_avail_def)

text \<open>The state after the pool of node \<open>k\<close> changed.\<close>

definition set_node :: "nat \<Rightarrow> fast_pool \<Rightarrow> numa_pool \<Rightarrow> numa_pool" where
  "set_node k p s = s\<lparr>np_per_node := (np_per_node s)[k := p]\<rparr>"

lemma set_node_simps [simp]:
  "np_n_nodes (set_node k p s) = np_n_nodes s"
  "np_pages_per_node (set_node k p s) = np_pages_per_node s"
  "length (np_per_node (set_node k p s)) = length (np_per_node s)"
  "gid (set_node k p s) = gid s"
  "numa_universe (set_node k p s) = numa_universe s"
  "j < length (np_per_node s) \<Longrightarrow>
    node_avail (set_node k p s) j = (if j = k then fast_avail p else node_avail s j)"
  by (simp_all add: set_node_def gid_def fun_eq_iff numa_universe_def node_avail_def)

lemma numa_inv_set_node:
  assumes "numa_inv s" and "fast_inv p" and "fast_universe p = {0..<int (np_pages_per_node s)}"
  shows "numa_inv (set_node k p s)"
  using assms by (auto simp: numa_inv_def set_node_def dest!: set_update_subset_insert [THEN subsetD])

lemma numa_avail_set_node:
  assumes "numa_inv s" and "k < length (np_per_node s)"
    and "fast_inv p" and "fast_universe p = {0..<int (np_pages_per_node s)}"
  shows "fast_avail p = node_avail s k - X \<Longrightarrow> X \<subseteq> node_avail s k \<Longrightarrow>
      numa_avail (set_node k p s) = numa_avail s - gid s (int k) ` X"
    and "fast_avail p = node_avail s k \<union> X \<Longrightarrow>
      numa_avail (set_node k p s) = numa_avail s \<union> gid s (int k) ` X"
proof -
  assume av: "fast_avail p = node_avail s k - X" "X \<subseteq> node_avail s k"
  show "numa_avail (set_node k p s) = numa_avail s - gid s (int k) ` X"
  proof (intro set_eqI iffI)
    fix g assume "g \<in> numa_avail (set_node k p s)"
    then obtain j l where j: "j < length (np_per_node s)" "g = gid s (int j) l"
        "l \<in> node_avail (set_node k p s) j"
      unfolding numa_avail_def set_node_simps(3,4) by blast
    then have j3: "l \<in> (if j = k then node_avail s k - X else node_avail s j)"
      by (simp add: av(1) split: if_splits)
    then have l: "l \<in> node_avail s j" by (simp split: if_splits)
    have "gid s (int j) l \<noteq> gid s (int k) x" if "x \<in> X" for x
      using gid_inject [OF assms(1), of l x "int j" "int k"] node_availD [OF assms(1) j(1) l]
        node_availD [OF assms(1,2)] that av(2) j3 by auto
    with j l show "g \<in> numa_avail s - gid s (int k) ` X" by (auto simp: numa_avail_def)
  next
    fix g assume "g \<in> numa_avail s - gid s (int k) ` X"
    then obtain j l where "j < length (np_per_node s)" "g = gid s (int j) l" "l \<in> node_avail s j"
        "g \<notin> gid s (int k) ` X"
      by (auto simp: numa_avail_def)
    then show "g \<in> numa_avail (set_node k p s)"
      by (auto simp: numa_avail_def av(1) intro!: bexI [of _ j])
  qed
next
  assume "fast_avail p = node_avail s k \<union> X"
  then have new: "node_avail (set_node k p s) j = node_avail s j \<union> (if j = k then X else {})"
    if "j < length (np_per_node s)" for j
    using that by auto
  have "numa_avail (set_node k p s) = (\<Union>j<length (np_per_node s).
      gid s (int j) ` node_avail s j \<union> gid s (int j) ` (if j = k then X else {}))"
    unfolding numa_avail_def set_node_simps(3,4) image_Un [symmetric]
    by (intro SUP_cong refl arg_cong [where f = "image _"] new) simp
  then show "numa_avail (set_node k p s) = numa_avail s \<union> gid s (int k) ` X"
    using assms(2) by (auto simp: numa_avail_def UN_Un_distrib split: if_splits)
qed

section \<open>Allocation\<close>

lemma global_ids_ok:
  assumes "numa_inv s" and "0 \<le> k" and "k < np_n_nodes s"
    and "set ids \<subseteq> {0..<int (np_pages_per_node s)}"
  shows "global_ids s k ids = Inr (map (gid s k) ids)"
proof -
  have "rfold (\<lambda>l out. rbind (global_id s k l) (\<lambda>g. Inr (out @ [g]))) ids out =
      Inr (out @ map (gid s k) ids)" for out
    using assms(4) by (induction ids arbitrary: out) (auto simp: global_id_ok [OF assms(1-3)])
  then show ?thesis by (simp add: global_ids_def)
qed

text \<open>What one node contributes: either \<open>n\<close> of its pages, or nothing when it has fewer.\<close>

lemma node_alloc_ok:
  assumes inv: "numa_inv s" and k: "k < length (np_per_node s)" and n: "0 \<le> n"
  shows "\<exists>ids s'. node_alloc ts tid n (int k) s = Inr (map (gid s (int k)) ids, s') \<and>
    numa_inv s' \<and> distinct ids \<and> set ids \<subseteq> node_avail s k \<and>
    numa_avail s' = numa_avail s - gid s (int k) ` set ids \<and>
    np_n_nodes s' = np_n_nodes s \<and> np_pages_per_node s' = np_pages_per_node s \<and>
    (\<forall>j<length (np_per_node s). j \<noteq> k \<longrightarrow> node_avail s' j = node_avail s j) \<and>
    (if n \<le> int (card (node_avail s k)) then int (length ids) = n else ids = [])"
proof -
  let ?p = "np_per_node s ! k"
  note i = numa_invD [OF inv]
  from fast_alloc_ok [OF i(5) [OF k] n, of "ts (int k)" tid] obtain ids p where
    p: "fast_alloc (ts (int k)) tid n ?p = Inr (ids, p)" "fast_inv p" "distinct ids"
      "set ids \<subseteq> fast_avail ?p" "fast_avail p = fast_avail ?p - set ids"
      "fast_universe p = fast_universe ?p"
      "if n \<le> int (card (node_avail s k)) then int (length ids) = n else ids = []"
    unfolding node_avail_def by (elim exE conjE) (auto split: if_splits)
  have u: "fast_universe p = {0..<int (np_pages_per_node s)}" using p(6) i(6) [OF k] by simp
  have ids: "set ids \<subseteq> node_avail s k" using p(4) by (simp add: node_avail_def)
  then have "set ids \<subseteq> {0..<int (np_pages_per_node s)}" using node_availD [OF inv k] by auto
  then have "global_ids s (int k) ids = Inr (map (gid s (int k)) ids)"
    using k i(2) by (intro global_ids_ok [OF inv]) auto
  with p(1) k have "node_alloc ts tid n (int k) s = Inr (map (gid s (int k)) ids, set_node k p s)"
    by (simp add: node_alloc_def set_node_def)
  moreover have "numa_avail (set_node k p s) = numa_avail s - gid s (int k) ` set ids"
    using p(5) ids by (intro numa_avail_set_node(1) [OF inv k p(2) u]) (simp_all add: node_avail_def)
  ultimately show ?thesis
    using numa_inv_set_node [OF inv p(2) u, of k] p(3,7) ids
    by (intro exI [of _ ids] exI [of _ "set_node k p s"]) simp
qed


text \<open>The fallback loop tries every other node and fails only if none of them has \<open>n\<close> pages.\<close>

definition grants ::
  "numa_pool \<Rightarrow> int \<Rightarrow> nat set \<Rightarrow> int list \<Rightarrow> numa_pool \<Rightarrow> bool" where
  "grants s n K out s' \<longleftrightarrow>
     numa_inv s' \<and> np_n_nodes s' = np_n_nodes s \<and> np_pages_per_node s' = np_pages_per_node s \<and>
     distinct out \<and> set out \<subseteq> numa_avail s \<and> numa_avail s' = numa_avail s - set out \<and>
     (if \<exists>k\<in>K. n \<le> int (card (node_avail s k))
      then \<exists>k\<in>K. int (length out) = n \<and> set out \<subseteq> gid s (int k) ` node_avail s k
      else out = [])"

lemma grants_length: "grants s n K out s' \<Longrightarrow> out = [] \<or> int (length out) = n"
  by (auto simp: grants_def split: if_splits)

lemma node_alloc_grants:
  assumes inv: "numa_inv s" and k: "k < length (np_per_node s)" and n: "0 \<le> n"
  shows "\<exists>out s'. node_alloc ts tid n (int k) s = Inr (out, s') \<and> grants s n {k} out s' \<and>
    (\<forall>j<length (np_per_node s). j \<noteq> k \<longrightarrow> node_avail s' j = node_avail s j)"
proof -
  from node_alloc_ok [OF assms, of ts tid] obtain ids s' where
    s': "node_alloc ts tid n (int k) s = Inr (map (gid s (int k)) ids, s')" "numa_inv s'"
      "distinct ids" "set ids \<subseteq> node_avail s k"
      "numa_avail s' = numa_avail s - gid s (int k) ` set ids" "np_n_nodes s' = np_n_nodes s"
      "np_pages_per_node s' = np_pages_per_node s"
      "\<forall>j<length (np_per_node s). j \<noteq> k \<longrightarrow> node_avail s' j = node_avail s j"
      "if n \<le> int (card (node_avail s k)) then int (length ids) = n else ids = []"
    by blast
  have "inj_on (gid s (int k)) (set ids)" by (simp add: inj_on_def gid_def)
  moreover have "gid s (int k) ` set ids \<subseteq> numa_avail s"
    using s'(4) k by (auto simp: numa_avail_def)
  ultimately have "grants s n {k} (map (gid s (int k)) ids) s'"
    using s' by (auto simp: grants_def distinct_map split: if_splits)
  with s'(1,8) show ?thesis by blast
qed

lemma grants_trans:
  assumes "grants s n K [] s1" and "grants s1 n L out s2"
    and "\<And>k. k \<in> L \<Longrightarrow> node_avail s1 k = node_avail s k"
  shows "grants s n (K \<union> L) out s2"
proof -
  have g: "gid s1 = gid s" using assms(1) by (simp add: grants_def gid_def fun_eq_iff)
  show ?thesis
  proof (cases "\<exists>k\<in>K. n \<le> int (card (node_avail s k))")
    case True
    with assms(1) have "n = 0" by (auto simp: grants_def)
    with grants_length [OF assms(2)] have "out = []" by auto
    with True \<open>n = 0\<close> assms(1,2) show ?thesis by (auto simp: grants_def)
  next
    case False
    then have "(\<exists>k\<in>K \<union> L. n \<le> int (card (node_avail s k))) \<longleftrightarrow>
        (\<exists>k\<in>L. n \<le> int (card (node_avail s1 k)))"
      using assms(3) by auto
    with assms g show ?thesis by (auto simp: grants_def split: if_splits)
  qed
qed

lemma grants_mono:
  assumes "grants s n K out s'" and "out \<noteq> []" and "K \<subseteq> L"
  shows "grants s n L out s'"
  using assms unfolding grants_def by (auto split: if_splits; blast)

lemma numa_fallback_ok:
  assumes "numa_inv s" and "0 \<le> n" and "distinct ks" and "set ks \<subseteq> {..<length (np_per_node s)}"
  shows "\<exists>out s'. numa_fallback ts tid n (int h) (map int ks) s = Inr (out, s') \<and>
    grants s n (set ks - {h}) out s'"
  using assms(1,3,4)
proof (induction ks arbitrary: s)
  case Nil
  then show ?case by (simp add: grants_def)
next
  case (Cons k ks)
  show ?case
  proof (cases "k = h")
    case True
    with Cons show ?thesis by (auto simp: insert_Diff_if)
  next
    case False
    from Cons.prems(3) have k: "k < length (np_per_node s)" by simp
    from node_alloc_grants [OF Cons.prems(1) k, of n ts tid] assms(2) obtain out s1 where
      s1: "node_alloc ts tid n (int k) s = Inr (out, s1)" "grants s n {k} out s1"
        "\<forall>j<length (np_per_node s). j \<noteq> k \<longrightarrow> node_avail s1 j = node_avail s j"
      by auto
    show ?thesis
    proof (cases "out = []")
      case True
      have inv1: "numa_inv s1" "length (np_per_node s1) = length (np_per_node s)"
        using s1(2) numa_invD(2) [OF Cons.prems(1)] numa_invD(2) [of s1]
        by (simp_all add: grants_def)
      with Cons.IH [of s1] Cons.prems obtain out2 s2 where
        s2: "numa_fallback ts tid n (int h) (map int ks) s1 = Inr (out2, s2)"
          "grants s1 n (set ks - {h}) out2 s2"
        by auto
      have "grants s n ({k} \<union> (set ks - {h})) out2 s2"
        using s1(2,3) True Cons.prems(2,3) by (intro grants_trans [OF _ s2(2)]) auto
      with s1(1) s2(1) True False show ?thesis by (auto simp: insert_Diff_if)
    next
      assume "out \<noteq> []"
      with s1 False show ?thesis by (auto intro: grants_mono)
    qed
  qed
qed


lemma numa_home_ok:
  assumes "numa_inv s"
  obtains h where "numa_home cur (int tid) s = Inr (int h)" "h < length (np_per_node s)"
    "0 \<le> cur \<Longrightarrow> cur < np_n_nodes s \<Longrightarrow> int h = cur"
proof -
  note i = numa_invD [OF assms]
  have "0 \<le> int tid smod np_n_nodes s \<and> int tid smod np_n_nodes s < np_n_nodes s"
    using i(1) smod_int_compares(1,2) [of "int tid" "np_n_nodes s"] smod_mod_positive [of "int tid" "np_n_nodes s"]
    by simp
  then show thesis
    using that [of "nat (if 0 \<le> cur \<and> cur < np_n_nodes s then cur else int tid smod np_n_nodes s)"] i(1,2)
    by (auto simp: numa_home_def split: if_splits)
qed

lemma numa_alloc_grants:
  assumes inv: "numa_inv s" and n: "0 \<le> n"
  shows "\<exists>out s'. numa_alloc cur ts (int tid) n s = Inr (out, s') \<and>
    grants s n {..<length (np_per_node s)} out s'"
proof -
  let ?K = "{..<length (np_per_node s)}"
  obtain h where h: "numa_home cur (int tid) s = Inr (int h)" "h < length (np_per_node s)"
    by (rule numa_home_ok [OF inv])
  from node_alloc_grants [OF inv h(2) n, of ts "int tid"] obtain out s1 where
    s1: "node_alloc ts (int tid) n (int h) s = Inr (out, s1)" "grants s n {h} out s1"
      "\<forall>j<length (np_per_node s). j \<noteq> h \<longrightarrow> node_avail s1 j = node_avail s j"
    by blast
  show ?thesis
  proof (cases "out = []")
    case True
    have inv1: "numa_inv s1" "length (np_per_node s1) = length (np_per_node s)"
      using s1(2) numa_invD(2) [OF inv] numa_invD(2) [of s1] by (simp_all add: grants_def)
    have "[0..np_n_nodes s - 1] = map int [0..<length (np_per_node s)]"
      using numa_invD(1,2) [OF inv] upto_map_int [of "length (np_per_node s)"] by simp
    with numa_fallback_ok [OF inv1(1) n, of "[0..<length (np_per_node s)]" ts "int tid" h] inv1(2)
    obtain out2 s2 where
      s2: "numa_fallback ts (int tid) n (int h) [0..np_n_nodes s - 1] s1 = Inr (out2, s2)"
        "grants s1 n (?K - {h}) out2 s2"
      by (auto simp: atLeast0LessThan)
    have "grants s n ({h} \<union> (?K - {h})) out2 s2"
      using s1(2,3) True by (intro grants_trans [OF _ s2(2)]) auto
    moreover have "{h} \<union> (?K - {h}) = ?K" using h(2) by auto
    ultimately show ?thesis using h(1) s1(1) s2(1) True by (simp add: numa_alloc_def)
  next
    case False
    with s1 h show ?thesis by (auto simp: numa_alloc_def intro: grants_mono)
  qed
qed


section \<open>Release and touch\<close>

definition locals :: "numa_pool \<Rightarrow> int list \<Rightarrow> nat \<Rightarrow> int list" where
  "locals s gids k = map (\<lambda>g. g mod int (np_pages_per_node s))
     (filter (\<lambda>g. g div int (np_pages_per_node s) = int k) gids)"

lemma split_id_universe:
  assumes "numa_inv s" and "g \<in> numa_universe s"
  shows "split_id s g = Inr (g div int (np_pages_per_node s), g mod int (np_pages_per_node s))"
    and "0 \<le> g div int (np_pages_per_node s)" and "g div int (np_pages_per_node s) < np_n_nodes s"
proof -
  let ?d = "int (np_pages_per_node s)"
  from assms obtain k l where g: "g = gid s k l" "0 \<le> k" "k < np_n_nodes s" "0 \<le> l" "l < ?d"
    by (rule gid_split)
  then have "g div ?d = k" "g mod ?d = l"
    using numa_invD(3) [OF assms(1)] by (simp_all add: gid_def)
  with g split_id_gid [OF assms(1) g(2-5)] show
    "split_id s g = Inr (g div ?d, g mod ?d)" "0 \<le> g div ?d" "g div ?d < np_n_nodes s"
    by simp_all
qed

lemma numa_group_ok:
  assumes "numa_inv s" and "set gids \<subseteq> numa_universe s"
  shows "numa_group s gids = Inr (map (locals s gids) [0..<nat (np_n_nodes s)])"
proof -
  let ?d = "int (np_pages_per_node s)" and ?N = "nat (np_n_nodes s)"
  let ?f = "\<lambda>g per. rbind (split_id s g) (\<lambda>(k, l). rbind (vec_at per k) (\<lambda>xs.
    Inr (per[nat k := xs @ [l]])))"
  have "rfold ?f gids per = Inr (map (\<lambda>k. per ! k @ locals s gids k) [0..<?N])"
    if "length per = ?N" for per
    using assms(2) that
  proof (induction gids arbitrary: per)
    case Nil
    then show ?case by (simp add: locals_def) (metis map_nth)
  next
    case (Cons g gids)
    then have "g \<in> numa_universe s" by simp
    note sp = split_id_universe [OF assms(1) this]
    then have "in_range per (g div ?d)" using Cons.prems(2) by (simp add: in_range_def)
    moreover have "k < ?N \<Longrightarrow> nat (g div ?d) = k \<longleftrightarrow> g div ?d = int k" for k using sp(2) by auto
    ultimately show ?case
      using Cons sp by (auto simp: locals_def nth_list_update intro!: nth_equalityI)
  qed
  from this [of "replicate ?N []"] show ?thesis
    by (simp add: numa_group_def cong: map_cong)
qed

lemma numa_visit_all:
  assumes "numa_inv s" and "distinct ks" and "set ks \<subseteq> {..<length (np_per_node s)}"
    and "length per = length (np_per_node s)"
    and "\<And>k. k \<in> set ks \<Longrightarrow> if per ! k = [] then G k = {}
      else \<exists>p. f (int k) (per ! k) (np_per_node s ! k) = Inr p \<and> fast_inv p \<and>
        fast_universe p = {0..<int (np_pages_per_node s)} \<and> fast_avail p = node_avail s k \<union> G k"
  shows "\<exists>s'. rfold (numa_visit f per) (map int ks) s = Inr s' \<and> numa_inv s' \<and>
    np_n_nodes s' = np_n_nodes s \<and> np_pages_per_node s' = np_pages_per_node s \<and>
    numa_avail s' = numa_avail s \<union> (\<Union>k\<in>set ks. gid s (int k) ` G k)"
  using assms
proof (induction ks arbitrary: s)
  case Nil
  then show ?case by simp
next
  case (Cons k ks)
  have k: "k < length (np_per_node s)" using Cons.prems(3) by simp
  show ?case
  proof (cases "per ! k = []")
    case True
    then have "numa_visit f per (int k) s = Inr s" "G k = {}"
      using Cons.prems(5) [of k] k Cons.prems(4) by (simp_all add: numa_visit_def)
    with Cons.IH [OF Cons.prems(1) _ _ Cons.prems(4)] Cons.prems(2,3,5) show ?thesis by simp
  next
    case False
    with Cons.prems(5) [of k] obtain p where p: "f (int k) (per ! k) (np_per_node s ! k) = Inr p"
        "fast_inv p" "fast_universe p = {0..<int (np_pages_per_node s)}"
        "fast_avail p = node_avail s k \<union> G k"
      by auto
    let ?s = "set_node k p s"
    have v: "numa_visit f per (int k) s = Inr ?s"
      using False p(1) k Cons.prems(4) by (simp add: numa_visit_def set_node_def)
    have keep: "np_per_node ?s ! j = np_per_node s ! j" if "j \<noteq> k" for j
      using that by (simp add: set_node_def)
    have ind: "\<exists>s'. rfold (numa_visit f per) (map int ks) ?s = Inr s' \<and> numa_inv s' \<and>
      np_n_nodes s' = np_n_nodes ?s \<and> np_pages_per_node s' = np_pages_per_node ?s \<and>
      numa_avail s' = numa_avail ?s \<union> (\<Union>j\<in>set ks. gid ?s (int j) ` G j)"
    proof (rule Cons.IH)
      show "numa_inv ?s" by (rule numa_inv_set_node [OF Cons.prems(1) p(2,3)])
      fix j assume j: "j \<in> set ks"
      then have "j \<noteq> k" using Cons.prems(2) by auto
      with Cons.prems(5) [of j] j keep show "if per ! j = [] then G j = {}
          else \<exists>p. f (int j) (per ! j) (np_per_node ?s ! j) = Inr p \<and> fast_inv p \<and>
            fast_universe p = {0..<int (np_pages_per_node ?s)} \<and>
            fast_avail p = node_avail ?s j \<union> G j"
        by (simp add: node_avail_def split: if_splits)
    qed (use Cons.prems in auto)
    moreover have "numa_avail ?s = numa_avail s \<union> gid s (int k) ` G k"
      by (rule numa_avail_set_node(2) [OF Cons.prems(1) k p(2,3,4)])
    ultimately show ?thesis using v by (elim exE) (simp add: Un_ac)
  qed
qed

lemma locals_props:
  assumes "numa_inv s" and "distinct gids" and "set gids \<subseteq> numa_universe s - numa_avail s"
    and "k < length (np_per_node s)"
  shows "distinct (locals s gids k)"
    and "set (locals s gids k) \<subseteq> {0..<int (np_pages_per_node s)} - node_avail s k"
proof -
  let ?d = "int (np_pages_per_node s)"
  have d: "0 < ?d" using numa_invD(3) [OF assms(1)] by simp
  have eq: "g = gid s (int k) (g mod ?d)" if "g div ?d = int k" for g
    unfolding gid_def that [symmetric] by simp
  have "inj_on (\<lambda>g. g mod ?d) {g. g div ?d = int k}"
    by (rule inj_onI) (metis eq mem_Collect_eq)
  then have "inj_on (\<lambda>g. g mod ?d) (set (filter (\<lambda>g. g div ?d = int k) gids))"
    by (rule inj_on_subset) auto
  then show "distinct (locals s gids k)"
    using assms(2) by (simp add: locals_def distinct_map)
  have "g mod ?d \<notin> node_avail s k" if "g \<in> set gids" "g div ?d = int k" for g
    using numa_avail_iff [OF assms(1,4), of "g mod ?d"] eq [OF that(2)] that(1) assms(3) d by auto
  then show "set (locals s gids k) \<subseteq> {0..<?d} - node_avail s k" using d by (auto simp: locals_def)
qed

lemma locals_cover:
  assumes "numa_inv s" and "set gids \<subseteq> numa_universe s"
  shows "(\<Union>k<length (np_per_node s). gid s (int k) ` set (locals s gids k)) = set gids"
proof -
  let ?d = "int (np_pages_per_node s)"
  show ?thesis
  proof (intro set_eqI iffI)
    fix g assume "g \<in> (\<Union>k<length (np_per_node s). gid s (int k) ` set (locals s gids k))"
    then obtain k x where "x \<in> set gids" "x div ?d = int k" "g = gid s (int k) (x mod ?d)"
      by (auto simp: locals_def)
    then have "g = x div ?d * ?d + x mod ?d" "x \<in> set gids" by (simp_all add: gid_def)
    then show "g \<in> set gids" by simp
  next
    fix g assume g: "g \<in> set gids"
    then have "0 \<le> g div ?d" "g div ?d < np_n_nodes s"
      using split_id_universe(2,3) [OF assms(1), of g] assms(2) by auto
    then have "nat (g div ?d) < length (np_per_node s)" "int (nat (g div ?d)) = g div ?d"
      using numa_invD(2) [OF assms(1)] by auto
    moreover have "g = gid s (g div ?d) (g mod ?d)" by (simp add: gid_def)
    ultimately show "g \<in> (\<Union>k<length (np_per_node s). gid s (int k) ` set (locals s gids k))"
      using g by (auto simp: locals_def intro!: bexI [of _ "nat (g div ?d)"])
  qed
qed

lemma numa_free_pages_ok:
  assumes inv: "numa_inv s" and "distinct gids" and "set gids \<subseteq> numa_universe s - numa_avail s"
  shows "\<exists>s'. numa_free_pages gids s = Inr s' \<and> numa_inv s' \<and>
    numa_avail s' = numa_avail s \<union> set gids \<and> numa_universe s' = numa_universe s"
proof -
  let ?N = "length (np_per_node s)"
  let ?per = "map (locals s gids) [0..<?N]"
  have sub: "set gids \<subseteq> numa_universe s" using assms(3) by auto
  have "\<exists>p. fast_free_pages (locals s gids k) (np_per_node s ! k) = Inr p \<and> fast_inv p \<and>
      fast_universe p = {0..<int (np_pages_per_node s)} \<and>
      fast_avail p = node_avail s k \<union> set (locals s gids k)" if k: "k < ?N" for k
    using fast.free_ok [OF numa_invD(5) [OF inv k], of "locals s gids k"]
      locals_props [OF assms k] numa_invD(6) [OF inv k]
    by (auto simp: node_avail_def)
  then have "\<exists>s'. rfold (numa_visit (\<lambda>_. fast_free_pages) ?per) (map int [0..<?N]) s = Inr s' \<and>
      numa_inv s' \<and> np_n_nodes s' = np_n_nodes s \<and> np_pages_per_node s' = np_pages_per_node s \<and>
      numa_avail s' = numa_avail s \<union> (\<Union>k\<in>set [0..<?N]. gid s (int k) ` set (locals s gids k))"
    by (intro numa_visit_all [OF inv]) auto
  moreover have "[0..np_n_nodes s - 1] = map int [0..<?N]"
    using numa_invD(1,2) [OF inv] upto_map_int [of ?N] by simp
  ultimately show ?thesis
    using numa_group_ok [OF inv sub] locals_cover [OF inv sub] numa_invD(2) [OF inv]
    by (auto simp: numa_free_pages_def numa_universe_def atLeast0LessThan)
qed

interpretation numa: page_source numa_inv numa_universe numa_avail
  "numa_alloc cur ts (int tid)" numa_free_pages for cur ts tid
proof
  show "finite (numa_universe s)" for s by (simp add: numa_universe_def)
  show "numa_inv s \<Longrightarrow> numa_avail s \<subseteq> numa_universe s" for s by (rule numa_avail_universe)
  show "\<exists>ids s'. numa_alloc cur ts (int tid) n s = Inr (ids, s') \<and> numa_inv s' \<and> distinct ids \<and>
      set ids \<subseteq> numa_avail s \<and> numa_avail s' = numa_avail s - set ids \<and>
      numa_universe s' = numa_universe s \<and> (ids = [] \<or> int (length ids) = n)"
    if "numa_inv s" "0 \<le> n" for s n
  proof -
    from numa_alloc_grants [OF that, of cur ts tid] obtain out s' where
      o: "numa_alloc cur ts (int tid) n s = Inr (out, s')"
        "grants s n {..<length (np_per_node s)} out s'"
      by blast
    with grants_length [OF o(2)] show ?thesis
      by (intro exI [of _ out] exI [of _ s']) (simp add: grants_def numa_universe_def)
  qed
qed (rule numa_free_pages_ok)


text \<open>The constructor.\<close>

lemma numa_ctor_ok:
  assumes "\<And>k i. fst (malloc k i b) = 0" and "0 < nodes" and "0 < d"
    and "nodes * int d < 2 ^ 31"
  shows "\<exists>s. numa_ctor malloc nodes d b = Inr s \<and> numa_inv s \<and> numa_avail s = numa_universe s \<and>
    np_n_nodes s = nodes \<and> np_pages_per_node s = d"
proof -
  let ?f = "\<lambda>i s. rbind (fast_ctor (malloc i) d b 16) (\<lambda>p.
    Inr (s\<lparr>np_per_node := np_per_node s @ [p]\<rparr>))"
  let ?s0 = "\<lparr>np_n_nodes = nodes, np_per_node = [], np_pages_per_node = d\<rparr>"
  have "1 * int d \<le> nodes * int d" using assms(2) by (intro mult_right_mono) auto
  then have "int d < 2 ^ 31" using assms(4) by linarith
  then have d: "d < 2 ^ 31" by simp
  have run: "\<exists>ps. rfold ?f [0..<m] ?s0 =
      Inr \<lparr>np_n_nodes = nodes, np_per_node = ps, np_pages_per_node = d\<rparr> \<and> length ps = m \<and>
      (\<forall>p\<in>set ps. fast_inv p \<and> fast_universe p = {0..<int d} \<and> fast_avail p = {0..<int d})" for m
  proof (induction m)
    case 0
    then show ?case by simp
  next
    case (Suc m)
    from fast_ctor_ok [of d "malloc m" b 16] assms(1) d obtain p where
      "fast_ctor (malloc m) d b 16 = Inr p" "fast_live p" "fast_universe p = {0..<int d}"
      "fast_avail p = {0..<int d}" by auto
    with Suc show ?case by (fastforce simp: rfold_append fast_live_def)
  qed
  from run [of "nat nodes"] obtain ps where
    ps: "numa_ctor malloc nodes d b =
        Inr \<lparr>np_n_nodes = nodes, np_per_node = ps, np_pages_per_node = d\<rparr>" "length ps = nat nodes"
      "\<forall>p\<in>set ps. fast_inv p \<and> fast_universe p = {0..<int d} \<and> fast_avail p = {0..<int d}"
    using assms(2) unfolding numa_ctor_def by auto
  let ?s = "\<lparr>np_n_nodes = nodes, np_per_node = ps, np_pages_per_node = d\<rparr>"
  have inv: "numa_inv ?s" using ps assms(2-4) by (simp add: numa_inv_def)
  have "numa_universe ?s \<subseteq> numa_avail ?s"
  proof
    fix g assume "g \<in> numa_universe ?s"
    from gid_split [OF inv this] obtain k l where
      g: "g = gid ?s k l" "0 \<le> k" "k < nodes" "0 \<le> l" "l < int d" by auto
    then have "nat k < length ps" "int (nat k) = k" using ps(2) by auto
    with g ps(3) numa_avail_iff [OF inv, of "nat k" l] show "g \<in> numa_avail ?s"
      by (simp add: node_avail_def)
  qed
  with numa_avail_universe [OF inv] ps(1) inv show ?thesis by auto
qed

section \<open>Properties\<close>

text \<open>
  C8: \<open>PagePoolNUMA::alloc\<close> serves a request from a single node. If some node has \<open>n\<close> free
  pages, the result is \<open>n\<close> distinct available ids whose node, as \<open>split\<close> computes it, is the
  same, and exactly those leave the pool; if no node has \<open>n\<close> free pages the result is empty,
  even when the nodes together have enough. The state stays consistent either way.
\<close>

theorem numa_alloc_spec:
  assumes "numa_inv s" and "0 \<le> n"
  shows "\<exists>out s'. numa_alloc cur ts (int tid) n s = Inr (out, s') \<and> numa_inv s' \<and>
    distinct out \<and> set out \<subseteq> numa_avail s \<and> numa_avail s' = numa_avail s - set out \<and>
    (if \<exists>k<length (np_per_node s). n \<le> int (card (node_avail s k))
     then int (length out) = n \<and> (\<exists>k. \<forall>g\<in>set out. \<exists>l. split_id s g = Inr (k, l))
     else out = [])"
proof -
  let ?N = "length (np_per_node s)"
  from numa_alloc_grants [OF assms, of cur ts tid] obtain out s' where
    o: "numa_alloc cur ts (int tid) n s = Inr (out, s')" "grants s n {..<?N} out s'" by blast
  have node: "\<exists>l. split_id s g = Inr (int k, l)"
    if "k < ?N" "g \<in> gid s (int k) ` node_avail s k" for k g
    using that split_id_gid [OF assms(1), of "int k"] node_availD [OF assms(1) that(1)]
      numa_invD(2) [OF assms(1)] by auto
  show ?thesis
  proof (cases "\<exists>k<?N. n \<le> int (card (node_avail s k))")
    case True
    then have ex: "\<exists>k\<in>{..<?N}. n \<le> int (card (node_avail s k))" by auto
    have "if \<exists>k\<in>{..<?N}. n \<le> int (card (node_avail s k))
        then \<exists>k\<in>{..<?N}. int (length out) = n \<and> set out \<subseteq> gid s (int k) ` node_avail s k
        else out = []"
      using o(2) unfolding grants_def by (elim conjE)
    with ex have "\<exists>k\<in>{..<?N}. int (length out) = n \<and> set out \<subseteq> gid s (int k) ` node_avail s k"
      by (simp only: if_True)
    then obtain k where "k < ?N" "int (length out) = n" "set out \<subseteq> gid s (int k) ` node_avail s k"
      by auto
    then have "int (length out) = n \<and> (\<exists>k. \<forall>g\<in>set out. \<exists>l. split_id s g = Inr (k, l))"
      using node by (metis subsetD)
    with True o show ?thesis by (simp add: grants_def)
  next
    case False
    with o show ?thesis by (auto simp: grants_def)
  qed
qed

theorem numa_alloc_spec_witness:
  "\<exists>s s'. numa_ctor (\<lambda>_ _ _. (0, Some 0)) 2 1 64 = Inr s \<and> numa_avail s = {0, 1} \<and>
    numa_alloc 0 (\<lambda>_. 5) (int 7) 2 s = Inr ([], s') \<and> numa_avail s' = {0, 1}"
proof -
  from numa_ctor_ok [of "\<lambda>_ _ _. (0, Some 0)" 64 2 1] obtain s where
    s: "numa_ctor (\<lambda>_ _ _. (0, Some 0)) 2 1 64 = Inr s" "numa_inv s"
      "numa_avail s = numa_universe s" "np_n_nodes s = 2" "np_pages_per_node s = 1"
    by auto
  have one: "node_avail s k \<subseteq> {0}" if "k < length (np_per_node s)" for k
    using node_availD [OF s(2) that] s(5) by fastforce
  have "card (node_avail s k) \<le> 1" if "k < length (np_per_node s)" for k
    using card_mono [OF _ one [OF that]] by simp
  then have "\<not> (\<exists>k<length (np_per_node s). 2 \<le> int (card (node_avail s k)))" by force
  then obtain s' where "numa_alloc 0 (\<lambda>_. 5) (int 7) 2 s = Inr ([], s')"
      "numa_avail s' = numa_avail s"
    using numa_alloc_spec [OF s(2), of 2 0 "\<lambda>_. 5" 7] by (auto split: if_splits)
  moreover have "numa_avail s = {0, 1}"
    unfolding s(3) numa_universe_def s(4,5) by (simp add: set_eq_iff) presburger
  ultimately show ?thesis using s(1) by (intro exI [of _ s] exI [of _ s']) simp
qed

text \<open>
  Whatever \<open>alloc\<close> returned, giving it back with \<open>free_pages\<close> restores the set of
  available pages exactly: the ids are sorted to the nodes they came from.
\<close>

theorem numa_alloc_free_restores:
  assumes "numa_inv s" and "0 \<le> n" and "numa_alloc cur ts (int tid) n s = Inr (ids, s')"
  shows "\<exists>s''. numa_free_pages ids s' = Inr s'' \<and> numa_inv s'' \<and> numa_avail s'' = numa_avail s"
  using assms by (rule numa.alloc_free_restores)

theorem numa_alloc_free_restores_witness:
  "\<exists>s ids s' s''. numa_ctor (\<lambda>_ _ _. (0, Some 0)) 2 4 64 = Inr s \<and>
    numa_alloc 1 (\<lambda>_. 5) (int 7) 3 s = Inr (ids, s') \<and>
    numa_free_pages ids s' = Inr s'' \<and> numa_avail s'' = {0..<8}"
proof -
  from numa_ctor_ok [of "\<lambda>_ _ _. (0, Some 0)" 64 2 4] obtain s where
    s: "numa_ctor (\<lambda>_ _ _. (0, Some 0)) 2 4 64 = Inr s" "numa_inv s"
      "numa_avail s = numa_universe s" "np_n_nodes s = 2" "np_pages_per_node s = 4"
    by auto
  moreover from numa.alloc_ok [OF s(2), of 3 1 "\<lambda>_. 5" 7] obtain ids s' where
    "numa_alloc 1 (\<lambda>_. 5) (int 7) 3 s = Inr (ids, s')" by auto
  moreover note numa_alloc_free_restores [OF s(2) _ this]
  ultimately show ?thesis by (auto simp: numa_universe_def)
qed

end
