(* ===== verification/Scheduler.thy ===== *)
theory Scheduler
  imports Page_Pool_Fast
begin

text \<open>
  The continuous batching scheduler (include/scheduler.hpp, src/scheduler.cpp). Sequences live
  on a heap of addresses: the queues hold owning pointers, a scheduled batch holds raw pointers
  into the heap, and reading an address whose sequence was destroyed is the fault
  \<open>Use_after_free\<close>. The KV page pool is the \<open>fast_pool\<close> of the theory on \<open>PagePoolFast\<close>.
  All clock reads inside one call return the same value, the argument \<open>ts\<close> (the leak scan of
  \<open>step_complete\<close> reads it again, the argument \<open>now\<close>). Floats are carried as bit patterns:
  the scheduler stores them and never computes with them.
\<close>

section \<open>Data\<close>

datatype seq_state = WAITING | PREFILL | DECODE | SWAPPED | DONE | ABORTED

record sequence =
  seq_id :: int
  prompt_text :: string
  prompt_tokens :: "int list"
  output_tokens :: "int list"
  max_new_tokens :: int
  temperature :: u32
  top_p :: u32
  eos_token_id :: int
  seq_st :: seq_state
  kv_page_ids :: "int list"
  kv_pages_used :: int
  prefill_cursor :: int
  prefill_chunk_size :: int
  enqueue_time :: u64

definition is_done :: "sequence \<Rightarrow> bool" where
  "is_done q \<longleftrightarrow> seq_st q = DONE \<or> seq_st q = ABORTED"

definition total_tokens :: "sequence \<Rightarrow> int res" where
  "total_tokens q = int_val (cast_int (length (prompt_tokens q)) + cast_int (length (output_tokens q)))"

definition remaining_prefill :: "sequence \<Rightarrow> int res" where
  "remaining_prefill q = int_val (cast_int (length (prompt_tokens q)) - prefill_cursor q)"

datatype preempt_mode = RECOMPUTE | SWAP

datatype policy = FCFS | SRT

record scheduler_config =
  kv_page_size_tokens :: int
  max_pages_total :: int
  cfg_page_bytes :: int
  max_batch_tokens :: int
  max_seqs_running :: int
  max_waiting_seqs :: int
  enable_chunked_prefill :: bool
  max_prefill_tokens_per_step :: int
  cfg_preempt_mode :: preempt_mode
  cfg_policy :: policy

record batch_entry =
  be_seq :: nat
  be_n_tokens :: int
  be_is_prefill :: bool
  be_prefill_start :: int

record scheduled_batch =
  sb_entries :: "batch_entry list"
  sb_total_tokens :: int
  sb_n_prefill :: int
  sb_n_decode :: int
  sb_n_preempted :: int

record sched_stats =
  ss_total_requests :: u64
  ss_completed :: u64
  ss_preemptions :: u64
  ss_total_tokens_generated :: u64
  ss_n_waiting :: int
  ss_n_running :: int
  ss_n_swapped :: int
  ss_kv_pages_used :: int
  ss_kv_pages_free :: int

text \<open>
  The scheduler object. \<open>sc_heap\<close> and \<open>sc_brk\<close> are the heap and its next unused address,
  \<open>sc_has_cb\<close> says whether a completion callback was set, and \<open>sc_log\<close> lists its calls.
\<close>

record scheduler =
  sc_cfg :: scheduler_config
  sc_kv_pool :: fast_pool
  sc_waiting :: "nat list"
  sc_running :: "nat list"
  sc_swapped :: "nat list"
  sc_next_id :: u32
  sc_total_requests :: u64
  sc_completed :: u64
  sc_preemptions :: u64
  sc_tokens_generated :: u64
  sc_heap :: "nat \<Rightarrow> sequence option"
  sc_brk :: nat
  sc_has_cb :: bool
  sc_log :: "(int \<times> int list) list"

section \<open>Operations\<close>

definition deref :: "scheduler \<Rightarrow> nat \<Rightarrow> sequence res" where
  "deref s a = (case sc_heap s a of None \<Rightarrow> Inl Use_after_free | Some q \<Rightarrow> Inr q)"

definition store :: "nat \<Rightarrow> sequence \<Rightarrow> scheduler \<Rightarrow> scheduler" where
  "store a q s = s\<lparr>sc_heap := (sc_heap s)(a \<mapsto> q)\<rparr>"

definition sched_ctor ::
  "(nat \<Rightarrow> nat \<Rightarrow> int \<times> nat option) \<Rightarrow> scheduler_config \<Rightarrow> scheduler res" where
  "sched_ctor malloc cfg =
     rbind (if cfg_page_bytes cfg > 0 then Inr (cfg_page_bytes cfg)
            else int_val (kv_page_size_tokens cfg * 32 * 128 * 2 * 2)) (\<lambda>pb.
     if max_pages_total cfg < 0 then Inl Length_error
     else rbind (fast_ctor malloc (nat (max_pages_total cfg)) (unat (word_of_int pb :: u64)) 16)
       (\<lambda>pool. Inr \<lparr>sc_cfg = cfg, sc_kv_pool = pool, sc_waiting = [], sc_running = [],
          sc_swapped = [], sc_next_id = 0, sc_total_requests = 0, sc_completed = 0,
          sc_preemptions = 0, sc_tokens_generated = 0, sc_heap = (\<lambda>_. None), sc_brk = 0,
          sc_has_cb = False, sc_log = []\<rparr>))"

definition set_completion_callback :: "scheduler \<Rightarrow> scheduler" where
  "set_completion_callback s = s\<lparr>sc_has_cb := True\<rparr>"

text \<open>
  \<open>add_request\<close> returns the new id or throws; the id and \<open>total_requests_\<close> are consumed
  before the queue is checked, so the state changes in both cases.
\<close>

definition new_sequence ::
  "scheduler_config \<Rightarrow> int \<Rightarrow> int list \<Rightarrow> int \<Rightarrow> u32 \<Rightarrow> int \<Rightarrow> u64 \<Rightarrow> sequence" where
  "new_sequence cfg i prompt max_new temp eos now =
     \<lparr>seq_id = i, prompt_text = [], prompt_tokens = prompt, output_tokens = [],
      max_new_tokens = max_new, temperature = temp, top_p = 0x3F800000, eos_token_id = eos,
      seq_st = WAITING, kv_page_ids = [], kv_pages_used = 0, prefill_cursor = 0,
      prefill_chunk_size = max_prefill_tokens_per_step cfg, enqueue_time = now\<rparr>"

definition add_request ::
  "u64 \<Rightarrow> int list \<Rightarrow> int \<Rightarrow> u32 \<Rightarrow> int \<Rightarrow> scheduler \<Rightarrow> int res \<times> scheduler" where
  "add_request now prompt max_new temp eos s =
     (let i = sint (sc_next_id s);
          q = new_sequence (sc_cfg s) i prompt max_new temp eos now;
          s1 = s\<lparr>sc_next_id := sc_next_id s + 1, sc_total_requests := sc_total_requests s + 1\<rparr>
      in if cast_int (length (sc_waiting s)) \<ge> max_waiting_seqs (sc_cfg s)
         then (Inl (Runtime_error ''Scheduler waiting queue full''), s1)
         else (Inr i, (store (sc_brk s) q s1)\<lparr>sc_brk := sc_brk s + 1,
           sc_waiting := sc_waiting s @ [sc_brk s]\<rparr>))"

definition pages_needed_for :: "scheduler_config \<Rightarrow> sequence \<Rightarrow> int \<Rightarrow> int res" where
  "pages_needed_for cfg q n_tokens =
     rbind (total_tokens q) (\<lambda>t. rbind (int_val (t + n_tokens)) (\<lambda>total.
     rbind (int_val (total + kv_page_size_tokens cfg)) (\<lambda>x. rbind (int_val (x - 1)) (\<lambda>y.
       if kv_page_size_tokens cfg = 0 then Inl Div_zero
       else int_val (y sdiv kv_page_size_tokens cfg)))))"

definition try_alloc_pages :: "u64 \<Rightarrow> nat \<Rightarrow> int \<Rightarrow> scheduler \<Rightarrow> (bool \<times> scheduler) res" where
  "try_alloc_pages ts a n_new s =
     rbind (deref s a) (\<lambda>q. rbind (pages_needed_for (sc_cfg s) q n_new) (\<lambda>needed.
       let have = cast_int (length (kv_page_ids q)) in
       if needed \<le> have then Inr (True, s)
       else rbind (int_val (needed - have)) (\<lambda>extra.
         rbind (fast_alloc ts (seq_id q) extra (sc_kv_pool s)) (\<lambda>(new_pages, pool).
           let s1 = s\<lparr>sc_kv_pool := pool\<rparr> in
           if cast_int (length new_pages) < extra then Inr (False, s1)
           else Inr (True, store a (q\<lparr>kv_page_ids := kv_page_ids q @ new_pages\<rparr>) s1)))))"

definition seq_free_pages :: "nat \<Rightarrow> scheduler \<Rightarrow> scheduler res" where
  "seq_free_pages a s = rbind (deref s a) (\<lambda>q.
     if kv_page_ids q = [] then Inr s
     else rbind (fast_free_pages (kv_page_ids q) (sc_kv_pool s)) (\<lambda>pool.
       Inr (store a (q\<lparr>kv_page_ids := []\<rparr>) (s\<lparr>sc_kv_pool := pool\<rparr>))))"

text \<open>\<open>abort_in\<close>: the first sequence of a queue with that id; erasing it destroys it.\<close>

primrec find_seq :: "scheduler \<Rightarrow> int \<Rightarrow> nat list \<Rightarrow> nat option res" where
  "find_seq s sid [] = Inr None"
| "find_seq s sid (a # as) = rbind (deref s a) (\<lambda>q.
     if seq_id q = sid then Inr (Some a) else find_seq s sid as)"

definition destroy :: "nat \<Rightarrow> scheduler \<Rightarrow> scheduler" where
  "destroy a s = s\<lparr>sc_heap := (sc_heap s)(a := None)\<rparr>"

definition abort_in ::
  "(scheduler \<Rightarrow> nat list) \<Rightarrow> ((nat list \<Rightarrow> nat list) \<Rightarrow> scheduler \<Rightarrow> scheduler) \<Rightarrow> int \<Rightarrow>
    scheduler \<Rightarrow> scheduler res" where
  "abort_in get upd sid s = rbind (find_seq s sid (get s)) (\<lambda>r.
     case r of None \<Rightarrow> Inr s
     | Some a \<Rightarrow> rbind (seq_free_pages a s) (\<lambda>s1. rbind (deref s1 a) (\<lambda>q.
         Inr (destroy a (upd (remove1 a) (store a (q\<lparr>seq_st := ABORTED\<rparr>) s1))))))"

definition abort_request :: "int \<Rightarrow> scheduler \<Rightarrow> scheduler res" where
  "abort_request sid s =
     rbind (abort_in sc_waiting sc_waiting_update sid s) (\<lambda>s1.
     rbind (abort_in sc_running sc_running_update sid s1) (\<lambda>s2.
       abort_in sc_swapped sc_swapped_update sid s2))"

definition preempt_sequence :: "nat \<Rightarrow> scheduler \<Rightarrow> scheduler res" where
  "preempt_sequence a s = rbind (seq_free_pages a s) (\<lambda>s1. rbind (deref s1 a) (\<lambda>q.
     Inr ((store a (q\<lparr>seq_st := WAITING, prefill_cursor := 0, output_tokens := []\<rparr>) s1)
       \<lparr>sc_preemptions := sc_preemptions s1 + 1\<rparr>)))"

text \<open>The loop of \<open>promote_waiting\<close>; its list argument is \<open>waiting_\<close>.\<close>

primrec promote_loop :: "u64 \<Rightarrow> nat list \<Rightarrow> scheduler \<Rightarrow> scheduler res" where
  "promote_loop ts [] s = Inr s"
| "promote_loop ts (a # w) s =
     (if cast_int (length (sc_running s)) < max_seqs_running (sc_cfg s)
      then rbind (try_alloc_pages ts a (kv_page_size_tokens (sc_cfg s)) s) (\<lambda>(ok, s1).
        if \<not> ok then Inr s1
        else rbind (deref s1 a) (\<lambda>q.
          promote_loop ts w ((store a (q\<lparr>seq_st := PREFILL\<rparr>) s1)
            \<lparr>sc_running := sc_running s1 @ [a], sc_waiting := w\<rparr>)))
      else Inr s)"

definition promote_waiting :: "u64 \<Rightarrow> scheduler \<Rightarrow> scheduler res" where
  "promote_waiting ts s = promote_loop ts (sc_waiting s) s"

text \<open>The running sequences in a given state, in the order of \<open>running_\<close>.\<close>

primrec select_state :: "scheduler \<Rightarrow> seq_state \<Rightarrow> nat list \<Rightarrow> nat list res" where
  "select_state s st [] = Inr []"
| "select_state s st (a # as) = rbind (deref s a) (\<lambda>q. rbind (select_state s st as) (\<lambda>r.
     Inr (if seq_st q = st then a # r else r)))"

text \<open>
  Pages for a prefill chunk: on failure the last decoding sequence is preempted and the
  allocation tried once more.
\<close>

definition prefill_alloc ::
  "u64 \<Rightarrow> nat \<Rightarrow> int \<Rightarrow> nat list \<Rightarrow> scheduled_batch \<Rightarrow> scheduler \<Rightarrow>
    (bool \<times> nat list \<times> scheduled_batch \<times> scheduler) res" where
  "prefill_alloc ts a chunk dec b s =
     rbind (try_alloc_pages ts a chunk s) (\<lambda>(ok, s1).
       if ok then Inr (True, dec, b, s1)
       else if dec \<noteq> [] then
         rbind (preempt_sequence (last dec) s1) (\<lambda>s2.
         rbind (try_alloc_pages ts a chunk s2) (\<lambda>(ok2, s3).
           Inr (ok2, butlast dec, b\<lparr>sb_n_preempted := sb_n_preempted b + 1\<rparr>, s3)))
       else Inr (False, dec, b, s1))"

definition push_entry :: "batch_entry \<Rightarrow> scheduled_batch \<Rightarrow> scheduled_batch" where
  "push_entry e b =
     (let b' = b\<lparr>sb_entries := sb_entries b @ [e],
                 sb_total_tokens := sb_total_tokens b + be_n_tokens e\<rparr>
      in if be_is_prefill e then b'\<lparr>sb_n_prefill := sb_n_prefill b + 1\<rparr>
         else b'\<lparr>sb_n_decode := sb_n_decode b + 1\<rparr>)"

primrec schedule_prefill ::
  "u64 \<Rightarrow> nat list \<Rightarrow> nat list \<Rightarrow> int \<Rightarrow> scheduled_batch \<Rightarrow> scheduler \<Rightarrow>
    (nat list \<times> int \<times> scheduled_batch \<times> scheduler) res" where
  "schedule_prefill ts [] dec budget b s = Inr (dec, budget, b, s)"
| "schedule_prefill ts (a # as) dec budget b s =
     (if budget \<le> 0 then Inr (dec, budget, b, s)
      else rbind (deref s a) (\<lambda>q. rbind (remaining_prefill q) (\<lambda>rem.
        let chunk = min rem (min (max_prefill_tokens_per_step (sc_cfg s)) budget) in
        if chunk \<le> 0 then schedule_prefill ts as dec budget b s
        else rbind (prefill_alloc ts a chunk dec b s) (\<lambda>(ok, dec', b', s').
          if \<not> ok then schedule_prefill ts as dec' budget b' s'
          else rbind (deref s' a) (\<lambda>q'.
            schedule_prefill ts as dec' (budget - chunk)
              (push_entry \<lparr>be_seq = a, be_n_tokens = chunk, be_is_prefill = True,
                 be_prefill_start = prefill_cursor q'\<rparr> b') s')))))"

primrec schedule_decode ::
  "u64 \<Rightarrow> nat list \<Rightarrow> int \<Rightarrow> scheduled_batch \<Rightarrow> scheduler \<Rightarrow>
    (scheduled_batch \<times> scheduler) res" where
  "schedule_decode ts [] budget b s = Inr (b, s)"
| "schedule_decode ts (a # as) budget b s =
     (if budget \<le> 0 then Inr (b, s)
      else rbind (try_alloc_pages ts a 1 s) (\<lambda>(ok, s1).
        if \<not> ok then rbind (preempt_sequence a s1) (\<lambda>s2.
          schedule_decode ts as budget (b\<lparr>sb_n_preempted := sb_n_preempted b + 1\<rparr>) s2)
        else schedule_decode ts as (budget - 1)
          (push_entry \<lparr>be_seq = a, be_n_tokens = 1, be_is_prefill = False,
             be_prefill_start = 0\<rparr> b) s1))"

definition empty_batch :: scheduled_batch where
  "empty_batch = \<lparr>sb_entries = [], sb_total_tokens = 0, sb_n_prefill = 0, sb_n_decode = 0,
     sb_n_preempted = 0\<rparr>"

definition schedule :: "u64 \<Rightarrow> scheduler \<Rightarrow> (scheduled_batch \<times> scheduler) res" where
  "schedule ts s =
     rbind (promote_waiting ts s) (\<lambda>s1.
     rbind (select_state s1 PREFILL (sc_running s1)) (\<lambda>prefill_seqs.
     rbind (select_state s1 DECODE (sc_running s1)) (\<lambda>decode_seqs.
     rbind (schedule_prefill ts prefill_seqs decode_seqs (max_batch_tokens (sc_cfg s1))
         empty_batch s1) (\<lambda>(dec, budget, b, s2).
       schedule_decode ts dec budget b s2))))"

text \<open>\<open>step_complete\<close>: one entry, with the index of the next decoded token.\<close>

definition finished :: "sequence \<Rightarrow> int \<Rightarrow> bool" where
  "finished q tok \<longleftrightarrow> cast_int (length (output_tokens q)) \<ge> max_new_tokens q \<or>
     (eos_token_id q \<ge> 0 \<and> tok = eos_token_id q)"

definition complete_prefill :: "batch_entry \<Rightarrow> scheduler \<Rightarrow> scheduler res" where
  "complete_prefill e s = rbind (deref s (be_seq e)) (\<lambda>q.
     rbind (int_val (prefill_cursor q + be_n_tokens e)) (\<lambda>cur.
       let q1 = q\<lparr>prefill_cursor := cur\<rparr> in
       rbind (remaining_prefill q1) (\<lambda>rem.
         Inr (store (be_seq e) (if rem \<le> 0 then q1\<lparr>seq_st := DECODE\<rparr> else q1) s))))"

definition finish_seq :: "nat \<Rightarrow> sequence \<Rightarrow> scheduler \<Rightarrow> scheduler" where
  "finish_seq a q s = (store a (q\<lparr>seq_st := DONE\<rparr>) s)
     \<lparr>sc_log := (if sc_has_cb s then sc_log s @ [(seq_id q, output_tokens q)] else sc_log s),
      sc_completed := sc_completed s + 1\<rparr>"

definition complete_decode :: "u64 \<Rightarrow> batch_entry \<Rightarrow> int \<Rightarrow> scheduler \<Rightarrow> scheduler res" where
  "complete_decode ts e tok s = rbind (deref s (be_seq e)) (\<lambda>q.
     let q1 = q\<lparr>output_tokens := output_tokens q @ [tok]\<rparr> in
     rbind (fast_touch ts (kv_page_ids q1) (sc_kv_pool s)) (\<lambda>pool.
       let s1 = (store (be_seq e) q1 s)\<lparr>sc_kv_pool := pool,
                   sc_tokens_generated := sc_tokens_generated s + 1\<rparr>
       in Inr (if finished q1 tok then finish_seq (be_seq e) q1 s1 else s1)))"

primrec complete_entries ::
  "u64 \<Rightarrow> int list \<Rightarrow> batch_entry list \<Rightarrow> nat \<Rightarrow> scheduler \<Rightarrow> scheduler res" where
  "complete_entries ts new_tokens [] i s = Inr s"
| "complete_entries ts new_tokens (e # es) i s =
     (if be_is_prefill e
      then rbind (complete_prefill e s) (complete_entries ts new_tokens es i)
      else if int i < cast_int (length new_tokens)
      then rbind (complete_decode ts e (new_tokens ! i) s)
        (complete_entries ts new_tokens es (i + 1))
      else rbind (complete_decode ts e 0 s) (complete_entries ts new_tokens es i))"

primrec remove_done :: "nat list \<Rightarrow> scheduler \<Rightarrow> (nat list \<times> scheduler) res" where
  "remove_done [] s = Inr ([], s)"
| "remove_done (a # as) s = rbind (deref s a) (\<lambda>q.
     if is_done q then remove_done as (destroy a s)
     else rbind (remove_done as s) (\<lambda>(kept, s'). Inr (a # kept, s')))"

definition step_complete ::
  "u64 \<Rightarrow> u64 \<Rightarrow> scheduled_batch \<Rightarrow> int list \<Rightarrow> scheduler \<Rightarrow> scheduler res" where
  "step_complete ts now batch new_tokens s =
     rbind (complete_entries ts new_tokens (sb_entries batch) 0 s) (\<lambda>s1.
     rbind (remove_done (sc_running s1) s1) (\<lambda>(kept, s2).
     rbind (fast_leak_scan now 30000 (sc_kv_pool s2)) (\<lambda>(_, pool).
       Inr (s2\<lparr>sc_running := kept, sc_kv_pool := pool\<rparr>))))"

definition sched_get_stats :: "scheduler \<Rightarrow> sched_stats" where
  "sched_get_stats s = (let ps = fast_get_stats (sc_kv_pool s) in
     \<lparr>ss_total_requests = sc_total_requests s, ss_completed = sc_completed s,
      ss_preemptions = sc_preemptions s, ss_total_tokens_generated = sc_tokens_generated s,
      ss_n_waiting = cast_int (length (sc_waiting s)),
      ss_n_running = cast_int (length (sc_running s)),
      ss_n_swapped = cast_int (length (sc_swapped s)),
      ss_kv_pages_used = fs_in_use ps, ss_kv_pages_free = fs_total ps - fs_in_use ps\<rparr>)"


section \<open>Invariant\<close>

text \<open>
  Token counts are kept where \<open>int\<close> arithmetic cannot overflow: a request fits when its
  prompt and its output together stay below \<open>2 ^ 29\<close> tokens.
\<close>

definition cfg_ok :: "scheduler_config \<Rightarrow> bool" where
  "cfg_ok cfg \<longleftrightarrow> 0 < kv_page_size_tokens cfg \<and> kv_page_size_tokens cfg \<le> 2 ^ 29 \<and>
     max_seqs_running cfg < 2 ^ 31 \<and> max_waiting_seqs cfg < 2 ^ 31"

definition request_fits :: "int list \<Rightarrow> int \<Rightarrow> bool" where
  "request_fits prompt max_new \<longleftrightarrow> int (length prompt) + max 1 max_new \<le> 2 ^ 29"

definition seq_ok :: "sequence \<Rightarrow> bool" where
  "seq_ok q \<longleftrightarrow> request_fits (prompt_tokens q) (max_new_tokens q) \<and>
     0 \<le> prefill_cursor q \<and> prefill_cursor q \<le> int (length (prompt_tokens q)) \<and>
     int (length (output_tokens q)) < max 1 (max_new_tokens q)"

definition run_ok :: "sequence \<Rightarrow> bool" where
  "run_ok q \<longleftrightarrow> seq_st q \<in> {PREFILL, DECODE, WAITING} \<and>
     (seq_st q = DECODE \<longrightarrow> prefill_cursor q = int (length (prompt_tokens q)))"

definition queued :: "scheduler \<Rightarrow> nat set" where
  "queued s = set (sc_waiting s) \<union> set (sc_running s)"

definition held :: "scheduler \<Rightarrow> nat \<Rightarrow> int list" where
  "held s a = (case sc_heap s a of None \<Rightarrow> [] | Some q \<Rightarrow> kv_page_ids q)"

definition slot_ok :: "scheduler \<Rightarrow> nat \<Rightarrow> sequence \<Rightarrow> bool" where
  "slot_ok s a q \<longleftrightarrow> seq_ok q \<and> (a \<in> set (sc_waiting s) \<longrightarrow> seq_st q = WAITING) \<and>
     (a \<in> set (sc_running s) \<longrightarrow> run_ok q)"

definition kv_owned :: "scheduler \<Rightarrow> bool" where
  "kv_owned s \<longleftrightarrow> owns (fast_universe (sc_kv_pool s)) (fast_avail (sc_kv_pool s)) (queued s) (held s)"

definition sched_inv :: "scheduler \<Rightarrow> bool" where
  "sched_inv s \<longleftrightarrow> cfg_ok (sc_cfg s) \<and> fast_live (sc_kv_pool s) \<and> sc_swapped s = [] \<and>
     distinct (sc_waiting s @ sc_running s) \<and>
     int (length (sc_waiting s)) \<le> max 0 (max_waiting_seqs (sc_cfg s)) \<and>
     int (length (sc_running s)) \<le> max 0 (max_seqs_running (sc_cfg s)) \<and>
     (\<forall>a. sc_brk s \<le> a \<longrightarrow> sc_heap s a = None) \<and>
     (\<forall>a\<in>queued s. \<exists>q. sc_heap s a = Some q \<and> slot_ok s a q) \<and> kv_owned s"

lemma sched_invD:
  assumes "sched_inv s"
  shows "cfg_ok (sc_cfg s)" and "fast_live (sc_kv_pool s)" and "sc_swapped s = []"
    and "distinct (sc_waiting s)" and "distinct (sc_running s)"
    and "set (sc_waiting s) \<inter> set (sc_running s) = {}"
    and "int (length (sc_waiting s)) \<le> max 0 (max_waiting_seqs (sc_cfg s))"
    and "int (length (sc_running s)) \<le> max 0 (max_seqs_running (sc_cfg s))"
    and "sc_brk s \<le> a \<Longrightarrow> sc_heap s a = None"
    and "a \<in> queued s \<Longrightarrow> \<exists>q. sc_heap s a = Some q \<and> slot_ok s a q"
    and "kv_owned s" and "fast_inv (sc_kv_pool s)"
  using assms by (auto simp: sched_inv_def fast_live_def)

lemma sched_inv_cell:
  assumes "sched_inv s" and "a \<in> queued s"
  obtains q where "sc_heap s a = Some q" "slot_ok s a q" "seq_ok q"
  using sched_invD(10) [OF assms] by (auto simp: slot_ok_def)

lemma sched_inv_preemptions [simp]: "sched_inv (s\<lparr>sc_preemptions := n\<rparr>) = sched_inv s"
  by (simp add: sched_inv_def queued_def slot_ok_def kv_owned_def owns_def held_def)

text \<open>Replacing one sequence and the pool.\<close>

definition put :: "nat \<Rightarrow> sequence \<Rightarrow> fast_pool \<Rightarrow> scheduler \<Rightarrow> scheduler" where
  "put a q p s = s\<lparr>sc_heap := (sc_heap s)(a \<mapsto> q), sc_kv_pool := p\<rparr>"

lemma put_simps [simp]:
  "sc_cfg (put a q p s) = sc_cfg s" "sc_waiting (put a q p s) = sc_waiting s"
  "sc_running (put a q p s) = sc_running s" "sc_swapped (put a q p s) = sc_swapped s"
  "sc_brk (put a q p s) = sc_brk s" "queued (put a q p s) = queued s"
  "sc_heap (put a q p s) = (sc_heap s)(a \<mapsto> q)" "sc_kv_pool (put a q p s) = p"
  "held (put a q p s) = (held s)(a := kv_page_ids q)"
  "put a q p (put a q' p' s) = put a q p s"
  "sc_preemptions (put a q p s) = sc_preemptions s"
  "slot_ok (put a q p s) = slot_ok s"
  by (simp_all add: put_def queued_def held_def fun_eq_iff slot_ok_def)

lemma put_same: "sc_heap s a = Some q \<Longrightarrow> put a q (sc_kv_pool s) s = s"
  by (simp add: put_def fun_upd_idem)

lemma sched_inv_put:
  assumes "sched_inv s" and "a \<in> queued s" and "slot_ok s a q" and "fast_live p"
    and "owns (fast_universe p) (fast_avail p) (queued s) ((held s)(a := kv_page_ids q))"
  shows "sched_inv (put a q p s)"
proof -
  obtain q0 where "sc_heap s a = Some q0" using sched_inv_cell [OF assms(1,2)] by blast
  with sched_invD(9) [OF assms(1), of a] have "\<not> sc_brk s \<le> a" by auto
  with assms show ?thesis
    by (auto simp: sched_inv_def kv_owned_def)
qed

section \<open>Page allocation for a sequence\<close>

definition covers :: "scheduler_config \<Rightarrow> sequence \<Rightarrow> int \<Rightarrow> bool" where
  "covers cfg q n \<longleftrightarrow> int (length (prompt_tokens q) + length (output_tokens q)) + n \<le>
     kv_page_size_tokens cfg * int (length (kv_page_ids q))"

lemma seq_ok_bounds:
  assumes "seq_ok q"
  shows "int (length (prompt_tokens q)) + int (length (output_tokens q)) < 2 ^ 29"
    and "int (length (prompt_tokens q)) < 2 ^ 29" and "int (length (output_tokens q)) < 2 ^ 29"
  using assms unfolding seq_ok_def request_fits_def by linarith+

lemma seq_ok_casts [simp]:
  assumes "seq_ok q"
  shows "cast_int (length (prompt_tokens q)) = int (length (prompt_tokens q))"
    and "cast_int (length (output_tokens q)) = int (length (output_tokens q))"
proof -
  have "length (prompt_tokens q) < 2 ^ 31" "length (output_tokens q) < 2 ^ 31"
    using seq_ok_bounds(2,3) [OF assms] by simp_all
  then show "cast_int (length (prompt_tokens q)) = int (length (prompt_tokens q))"
    "cast_int (length (output_tokens q)) = int (length (output_tokens q))" by simp_all
qed

lemma total_tokens_ok [simp]:
  "seq_ok q \<Longrightarrow> total_tokens q = Inr (int (length (prompt_tokens q) + length (output_tokens q)))"
  using seq_ok_bounds(1) [of q] by (simp add: total_tokens_def)

lemma remaining_prefill_ok [simp]:
  "seq_ok q \<Longrightarrow> remaining_prefill q = Inr (int (length (prompt_tokens q)) - prefill_cursor q)"
  using seq_ok_bounds(2) [of q] by (simp add: remaining_prefill_def seq_ok_def [of q])

lemma pages_needed_ok:
  assumes "cfg_ok cfg" and "seq_ok q" and "0 \<le> n" and "n \<le> 2 ^ 29"
  defines "t \<equiv> int (length (prompt_tokens q) + length (output_tokens q)) + n"
    and "ps \<equiv> kv_page_size_tokens cfg"
  shows "pages_needed_for cfg q n = Inr ((t + ps - 1) div ps)" and "t \<le> (t + ps - 1) div ps * ps"
    and "0 \<le> (t + ps - 1) div ps" and "(t + ps - 1) div ps < 2 ^ 31"
proof -
  have ps: "0 < ps" "ps \<le> 2 ^ 29" using assms(1) by (simp_all add: cfg_ok_def ps_def)
  have t: "0 \<le> t" "t < 2 ^ 30" using seq_ok_bounds(1) [OF assms(2)] assms(3,4) by (simp_all add: t_def)
  have tt: "total_tokens q = Inr (t - n)" using assms(2) by (simp add: t_def)
  have nn: "0 \<le> t + ps - 1" using t ps by simp
  show d0: "0 \<le> (t + ps - 1) div ps" using nn ps(1) by (simp add: pos_imp_zdiv_nonneg_iff)
  have "(t + ps - 1) div ps \<le> t + ps - 1"
    using nn ps(1) by (metis div_by_1 zdiv_mono2 zero_less_one less_imp_le int_one_le_iff_zero_less)
  then show d1: "(t + ps - 1) div ps < 2 ^ 31" using t ps by simp
  have "(t + ps - 1) sdiv ps = (t + ps - 1) div ps"
    using nn ps(1) by (simp add: signed_divide_int_def sgn_if)
  with d0 d1 t ps show "pages_needed_for cfg q n = Inr ((t + ps - 1) div ps)"
    by (simp add: pages_needed_for_def tt ps_def [symmetric])
  have "(t + ps - 1) div ps * ps + (t + ps - 1) mod ps = t + ps - 1" "(t + ps - 1) mod ps < ps"
    using ps(1) by simp_all
  then show "t \<le> (t + ps - 1) div ps * ps" by linarith
qed


lemma held_length:
  assumes "sched_inv s" and "a \<in> queued s"
  shows "length (held s a) < 2 ^ 31"
proof -
  note i = sched_invD [OF assms(1)]
  let ?p = "sc_kv_pool s"
  have o: "distinct (held s a)" "set (held s a) \<subseteq> fast_universe ?p"
    using ownsD(1,2) [OF i(11) [unfolded kv_owned_def] assms(2)] by auto
  have "fast_universe ?p = {0..<int (length (fp_meta ?p))}"
    by (auto simp: fast_universe_def in_range_def)
  with o(2) have "card (set (held s a)) \<le> card {0..<int (length (fp_meta ?p))}"
    by (intro card_mono) auto
  then have "length (held s a) \<le> length (fp_meta ?p)" using distinct_card [OF o(1)] by simp
  also have "length (fp_meta ?p) < 2 ^ 31"
    using fast_repD(3,4) [OF fast_inv_rep [OF i(12)]] by simp
  finally show ?thesis .
qed

lemma slot_ok_kv: "slot_ok s a (q\<lparr>kv_page_ids := ids\<rparr>) = slot_ok s a q"
  by (simp add: slot_ok_def seq_ok_def run_ok_def)

text \<open>The pages a sequence needs with \<open>n\<close> more tokens, and an allocation for them.\<close>

definition pages_for :: "scheduler_config \<Rightarrow> sequence \<Rightarrow> int \<Rightarrow> int" where
  "pages_for cfg q n = (int (length (prompt_tokens q) + length (output_tokens q)) + n + kv_page_size_tokens cfg - 1)
     div kv_page_size_tokens cfg"

lemma covers_pages_for:
  assumes "cfg_ok cfg" and "seq_ok q" and "0 \<le> n" "n \<le> 2 ^ 29" and "pages_for cfg q n \<le> int (length (kv_page_ids q) + length ids)"
  shows "covers cfg (q\<lparr>kv_page_ids := kv_page_ids q @ ids\<rparr>) n"
proof -
  have "pages_for cfg q n * kv_page_size_tokens cfg \<le> int (length (kv_page_ids q @ ids)) * kv_page_size_tokens cfg"
    using assms(1,5) by (intro mult_right_mono) (simp_all add: cfg_ok_def)
  with pages_needed_ok(2) [OF assms(1-4)] show ?thesis by (simp add: covers_def pages_for_def mult.commute)
qed

lemma try_alloc_enough:
  assumes "sched_inv s" and "a \<in> queued s" and "sc_heap s a = Some q" and "0 \<le> n" "n \<le> 2 ^ 29"
    and "pages_for (sc_cfg s) q n \<le> int (length (kv_page_ids q))"
  shows "try_alloc_pages ts a n s = Inr (True, s)"
proof -
  have "seq_ok q" using sched_inv_cell [OF assms(1,2)] assms(3) by auto
  with assms held_length [OF assms(1,2)] show ?thesis
    by (simp add: try_alloc_pages_def deref_def pages_needed_ok(1) [OF sched_invD(1) [OF assms(1)]] pages_for_def held_def)
qed

lemma try_alloc_run:
  assumes inv: "sched_inv s" and a: "a \<in> queued s" and q: "sc_heap s a = Some q" and n: "0 \<le> n" "n \<le> 2 ^ 29"
    and few: "int (length (kv_page_ids q)) < pages_for (sc_cfg s) q n"
  defines "x \<equiv> pages_for (sc_cfg s) q n - int (length (kv_page_ids q))"
  assumes run: "fast_alloc ts (seq_id q) x (sc_kv_pool s) = Inr (ids, p)" and ids: "ids = [] \<or> int (length ids) = x"
  shows "try_alloc_pages ts a n s = Inr (ids \<noteq> [], put a (q\<lparr>kv_page_ids := kv_page_ids q @ ids\<rparr>) p s)"
proof -
  have sl: "seq_ok q" using sched_inv_cell [OF inv a] q by auto
  note pn = pages_needed_ok [OF sched_invD(1) [OF inv] sl n, folded pages_for_def]
  have hv: "cast_int (length (kv_page_ids q)) = int (length (kv_page_ids q))"
    using held_length [OF inv a] q by (simp add: held_def)
  have x: "0 < x" "x < 2 ^ 31" using few pn(4) by (simp_all add: x_def)
  then have len: "length ids < 2 ^ 31" using ids by auto
  have "try_alloc_pages ts a n s = (if int (length ids) < x then Inr (False, s\<lparr>sc_kv_pool := p\<rparr>)
      else Inr (True, put a (q\<lparr>kv_page_ids := kv_page_ids q @ ids\<rparr>) p s))"
    using few x len run by (simp add: try_alloc_pages_def deref_def q pn(1) hv Let_def store_def put_def x_def)
  moreover have "s\<lparr>sc_kv_pool := p\<rparr> = put a q p s" using q by (simp add: put_def fun_upd_idem)
  ultimately show ?thesis using ids x(1) by auto
qed

lemma try_alloc_ok:
  assumes inv: "sched_inv s" and a: "a \<in> queued s" and q: "sc_heap s a = Some q"
    and n: "0 \<le> n" "n \<le> 2 ^ 29" and ts: "ts \<noteq> 0"
  shows "\<exists>ok ids p. try_alloc_pages ts a n s =
      Inr (ok, put a (q\<lparr>kv_page_ids := kv_page_ids q @ ids\<rparr>) p s) \<and>
    sched_inv (put a (q\<lparr>kv_page_ids := kv_page_ids q @ ids\<rparr>) p s) \<and>
    fast_universe p = fast_universe (sc_kv_pool s) \<and>
    (if ok then covers (sc_cfg s) (q\<lparr>kv_page_ids := kv_page_ids q @ ids\<rparr>) n else ids = [])"
proof -
  note i = sched_invD [OF inv]
  have sl: "slot_ok s a q" "seq_ok q" using sched_inv_cell [OF inv a] q by auto
  note cov = covers_pages_for [OF i(1) sl(2) n]
  let ?k = "pages_for (sc_cfg s) q n" and ?l = "int (length (kv_page_ids q))"
  show ?thesis
  proof (cases "?k \<le> ?l")
    case True
    with try_alloc_enough [OF inv a q n] cov [of "[]"] show ?thesis
      by (intro exI [of _ True] exI [of _ "[]"] exI [of _ "sc_kv_pool s"]) (simp add: put_same [OF q] inv)
  next
    case False
    then have x: "0 \<le> ?k - ?l" by simp
    from fast.alloc_ok [OF i(12) x, of ts "seq_id q"] obtain ids p where
      al: "fast_alloc ts (seq_id q) (?k - ?l) (sc_kv_pool s) = Inr (ids, p)" "ids = [] \<or> int (length ids) = ?k - ?l"
        "fast_universe p = fast_universe (sc_kv_pool s)"
      by blast
    have "owns (fast_universe p) (fast_avail p) (queued s) ((held s)(a := held s a @ ids))"
      by (rule fast.alloc_owns [OF i(12) i(11) [unfolded kv_owned_def] a x al(1)])
    then have "sched_inv (put a (q\<lparr>kv_page_ids := kv_page_ids q @ ids\<rparr>) p s)"
      using sl(1) q by (intro sched_inv_put [OF inv a _ fast_alloc_live [OF i(2) x ts al(1)]])
        (simp_all add: slot_ok_kv held_def)
    moreover have "ids \<noteq> [] \<longrightarrow> covers (sc_cfg s) (q\<lparr>kv_page_ids := kv_page_ids q @ ids\<rparr>) n"
      using al(2) by (auto intro: cov)
    ultimately show ?thesis
      using try_alloc_run [OF inv a q n _ al(1,2)] False al(3)
      by (intro exI [of _ "ids \<noteq> []"] exI [of _ ids] exI [of _ p]) simp
  qed
qed

section \<open>Release, preemption and promotion\<close>

lemma seq_free_ok:
  assumes inv: "sched_inv s" and a: "a \<in> queued s" and q: "sc_heap s a = Some q"
  shows "\<exists>p. seq_free_pages a s = Inr (put a (q\<lparr>kv_page_ids := []\<rparr>) p s) \<and> fast_live p \<and>
    fast_universe p = fast_universe (sc_kv_pool s) \<and>
    fast_avail p = fast_avail (sc_kv_pool s) \<union> set (kv_page_ids q) \<and>
    owns (fast_universe p) (fast_avail p) (queued s) ((held s)(a := []))"
proof -
  note i = sched_invD [OF inv]
  have h: "held s a = kv_page_ids q" using q by (simp add: held_def)
  note ow = i(11) [unfolded kv_owned_def]
  show ?thesis
  proof (cases "kv_page_ids q = []")
    case True
    then have "(held s)(a := []) = held s" using h by auto
    moreover have "q\<lparr>kv_page_ids := []\<rparr> = q" using True by simp
    ultimately show ?thesis using True ow i(2) q
      by (intro exI [of _ "sc_kv_pool s"]) (simp add: seq_free_pages_def deref_def put_same)
  next
    case False
    from fast.free_owns [OF i(12) ow a] obtain p where
      p: "fast_free_pages (kv_page_ids q) (sc_kv_pool s) = Inr p"
        "fast_universe p = fast_universe (sc_kv_pool s)"
        "fast_avail p = fast_avail (sc_kv_pool s) \<union> set (kv_page_ids q)"
        "owns (fast_universe p) (fast_avail p) (queued s) ((held s)(a := []))"
      unfolding h by blast
    have "fast_live p"
      using ownsD(1,2,3) [OF ow a] unfolding h
      by (intro fast_free_live [OF i(2) _ _ p(1)]) auto
    with p False q show ?thesis
      by (intro exI [of _ p]) (simp add: seq_free_pages_def deref_def store_def put_def)
  qed
qed

definition preempted :: "sequence \<Rightarrow> sequence" where
  "preempted q = q\<lparr>kv_page_ids := [], seq_st := WAITING, prefill_cursor := 0, output_tokens := []\<rparr>"

lemma preempt_ok:
  assumes inv: "sched_inv s" and a: "a \<in> set (sc_running s)" and q: "sc_heap s a = Some q"
  shows "\<exists>p. preempt_sequence a s =
      Inr ((put a (preempted q) p s)\<lparr>sc_preemptions := sc_preemptions s + 1\<rparr>) \<and>
    sched_inv (put a (preempted q) p s) \<and> fast_universe p = fast_universe (sc_kv_pool s)"
proof -
  have aq: "a \<in> queued s" using a by (simp add: queued_def)
  from seq_free_ok [OF inv aq q] obtain p where
    p: "seq_free_pages a s = Inr (put a (q\<lparr>kv_page_ids := []\<rparr>) p s)" "fast_live p"
      "owns (fast_universe p) (fast_avail p) (queued s) ((held s)(a := []))"
      "fast_universe p = fast_universe (sc_kv_pool s)"
    by blast
  have "slot_ok s a q" using sched_inv_cell [OF inv aq] q by auto
  then have "slot_ok s a (preempted q)"
    using sched_invD(6) [OF inv] a
    by (auto simp: slot_ok_def preempted_def seq_ok_def run_ok_def)
  then have "sched_inv (put a (preempted q) p s)"
    using p(3) by (intro sched_inv_put [OF inv aq _ p(2)]) (simp_all add: preempted_def)
  moreover have "preempt_sequence a s =
      Inr ((put a (preempted q) p s)\<lparr>sc_preemptions := sc_preemptions s + 1\<rparr>)"
    by (simp add: preempt_sequence_def p(1) deref_def store_def put_def preempted_def)
  ultimately show ?thesis using p(4) by blast
qed

lemma sched_casts [simp]:
  assumes "sched_inv s"
  shows "cast_int (length (sc_running s)) = int (length (sc_running s))"
    and "cast_int (length (sc_waiting s)) = int (length (sc_waiting s))"
proof -
  note i = sched_invD [OF assms]
  have "int (length (sc_running s)) < 2 ^ 31" "int (length (sc_waiting s)) < 2 ^ 31"
    using i(1,7,8) by (simp_all add: cfg_ok_def max_def split: if_splits)
  then show "cast_int (length (sc_running s)) = int (length (sc_running s))"
    "cast_int (length (sc_waiting s)) = int (length (sc_waiting s))" by simp_all
qed

definition promoted :: "nat \<Rightarrow> sequence \<Rightarrow> nat list \<Rightarrow> scheduler \<Rightarrow> scheduler" where
  "promoted a q w s = (store a (q\<lparr>seq_st := PREFILL\<rparr>) s)
     \<lparr>sc_running := sc_running s @ [a], sc_waiting := w\<rparr>"

lemma promoted_inv:
  assumes inv: "sched_inv s" and w: "sc_waiting s = a # w" and q: "sc_heap s a = Some q"
    and len: "int (length (sc_running s)) < max_seqs_running (sc_cfg s)"
  shows "sched_inv (promoted a q w s)"
proof -
  note i = sched_invD [OF inv]
  let ?s = "promoted a q w s"
  have K: "queued ?s = queued s" using w by (auto simp: promoted_def queued_def store_def)
  have H: "held ?s = held s" using q by (auto simp: promoted_def held_def store_def)
  have aq: "a \<in> queued s" using w by (simp add: queued_def)
  then have "\<not> sc_brk s \<le> a" using i(9) [of a] q by auto
  then have "\<forall>x. sc_brk ?s \<le> x \<longrightarrow> sc_heap ?s x = None" using i(9) by (simp add: promoted_def store_def)
  moreover have "\<exists>r. sc_heap ?s x = Some r \<and> slot_ok ?s x r" if "x \<in> queued s" for x
    using i(10) [OF that] q i(4,6) w
    by (auto simp: promoted_def store_def slot_ok_def seq_ok_def run_ok_def)
  moreover have "distinct (w @ sc_running s @ [a])" using i(4,5,6) w by auto
  moreover have "int (length w) \<le> max 0 (max_waiting_seqs (sc_cfg s))" using i(7) w by simp
  ultimately show ?thesis
    using i(1,2,3,11) len unfolding sched_inv_def K kv_owned_def H
    by (simp add: promoted_def store_def)
qed

lemma promote_loop_ok:
  assumes "sched_inv s" and "sc_waiting s = w" and "ts \<noteq> 0"
  shows "\<exists>s' k. promote_loop ts w s = Inr s' \<and> sched_inv s' \<and> sc_cfg s' = sc_cfg s \<and>
    sc_waiting s' = drop k w \<and> sc_running s' = sc_running s @ take k w \<and>
    fast_universe (sc_kv_pool s') = fast_universe (sc_kv_pool s) \<and>
    (\<forall>a. a \<notin> set w \<longrightarrow> sc_heap s' a = sc_heap s a)"
  using assms(1,2)
proof (induction w arbitrary: s)
  case Nil
  then show ?case by (intro exI [of _ s] exI [of _ 0]) simp
next
  case (Cons a w)
  show ?case
  proof (cases "int (length (sc_running s)) < max_seqs_running (sc_cfg s)")
    case False
    with Cons.prems show ?thesis by (intro exI [of _ s] exI [of _ 0]) simp
  next
    case True
    have a: "a \<in> queued s" using Cons.prems(2) by (simp add: queued_def)
    obtain q where q: "sc_heap s a = Some q" using sched_inv_cell [OF Cons.prems(1) a] by blast
    let ?n = "kv_page_size_tokens (sc_cfg s)"
    have n: "0 \<le> ?n" "?n \<le> 2 ^ 29" using sched_invD(1) [OF Cons.prems(1)] by (simp_all add: cfg_ok_def)
    from try_alloc_ok [OF Cons.prems(1) a q n assms(3)] obtain ok ids p where
      al: "try_alloc_pages ts a ?n s = Inr (ok, put a (q\<lparr>kv_page_ids := kv_page_ids q @ ids\<rparr>) p s)"
        "sched_inv (put a (q\<lparr>kv_page_ids := kv_page_ids q @ ids\<rparr>) p s)"
        "fast_universe p = fast_universe (sc_kv_pool s)"
      by blast
    let ?q = "q\<lparr>kv_page_ids := kv_page_ids q @ ids\<rparr>"
    let ?s = "promoted a ?q w (put a ?q p s)"
    show ?thesis
    proof (cases ok)
      case no: False
      with True al Cons.prems show ?thesis
        by (intro exI [of _ "put a ?q p s"] exI [of _ 0]) simp
    next
      case yes: True
      have inv': "sched_inv ?s"
        using True Cons.prems(2) by (intro promoted_inv [OF al(2)]) simp_all
      from Cons.IH [OF inv'] obtain s' k where
        s': "promote_loop ts w ?s = Inr s'" "sched_inv s'" "sc_cfg s' = sc_cfg s"
          "sc_waiting s' = drop k w" "sc_running s' = sc_running s @ a # take k w"
          "fast_universe (sc_kv_pool s') = fast_universe (sc_kv_pool s)"
          "\<forall>x. x \<notin> set w \<longrightarrow> sc_heap s' x = sc_heap ?s x"
        using al(3) by (auto simp: promoted_def store_def)
      have "promote_loop ts (a # w) s = Inr s'"
        using True yes al(1) Cons.prems(1) s'(1) by (simp add: deref_def promoted_def)
      with s' show ?thesis
        by (intro exI [of _ s'] exI [of _ "Suc k"]) (simp add: promoted_def store_def)
    qed
  qed
qed


section \<open>Building a batch\<close>

definition entry_ok :: "scheduler \<Rightarrow> batch_entry \<Rightarrow> bool" where
  "entry_ok s e \<longleftrightarrow> be_seq e \<in> set (sc_running s) \<and>
     (\<exists>q. sc_heap s (be_seq e) = Some q \<and> 0 < be_n_tokens e \<and>
        covers (sc_cfg s) q (be_n_tokens e) \<and>
        (if be_is_prefill e
         then seq_st q = PREFILL \<and> be_prefill_start e = prefill_cursor q \<and>
           be_n_tokens e \<le> max_prefill_tokens_per_step (sc_cfg s) \<and>
           prefill_cursor q + be_n_tokens e \<le> int (length (prompt_tokens q))
         else seq_st q = DECODE \<and> be_n_tokens e = 1 \<and> be_prefill_start e = 0))"

definition batch_counts :: "scheduled_batch \<Rightarrow> bool" where
  "batch_counts b \<longleftrightarrow>
     sb_total_tokens b = sum_list (map be_n_tokens (sb_entries b)) \<and>
     sb_n_prefill b = int (length (filter be_is_prefill (sb_entries b))) \<and>
     sb_n_decode b = int (length (filter (\<lambda>e. \<not> be_is_prefill e) (sb_entries b)))"

definition in_state :: "scheduler \<Rightarrow> seq_state \<Rightarrow> nat \<Rightarrow> bool" where
  "in_state s st a \<longleftrightarrow> a \<in> set (sc_running s) \<and> (\<exists>q. sc_heap s a = Some q \<and> seq_st q = st)"

definition building ::
  "nat list \<Rightarrow> nat list \<Rightarrow> int \<Rightarrow> scheduled_batch \<Rightarrow> scheduler \<Rightarrow> bool" where
  "building todo dec budget b s \<longleftrightarrow> sched_inv s \<and>
     distinct (map be_seq (sb_entries b) @ todo @ dec) \<and>
     (\<forall>a\<in>set todo. in_state s PREFILL a) \<and> (\<forall>a\<in>set dec. in_state s DECODE a) \<and>
     (\<forall>e\<in>set (sb_entries b). entry_ok s e) \<and> batch_counts b \<and>
     sb_total_tokens b + budget = max_batch_tokens (sc_cfg s) \<and>
     (sb_entries b = [] \<or> 0 \<le> budget)"

text \<open>What a scheduling loop leaves alone outside the addresses \<open>X\<close>.\<close>

definition frame :: "nat set \<Rightarrow> scheduler \<Rightarrow> scheduler \<Rightarrow> bool" where
  "frame X s s' \<longleftrightarrow> sc_cfg s' = sc_cfg s \<and> sc_running s' = sc_running s \<and>
     sc_waiting s' = sc_waiting s \<and> fast_universe (sc_kv_pool s') = fast_universe (sc_kv_pool s) \<and>
     (\<forall>a. a \<notin> X \<longrightarrow> sc_heap s' a = sc_heap s a)"

lemma frame_refl: "frame X s s"
  by (simp add: frame_def)

lemma frame_trans: "frame X s s' \<Longrightarrow> frame Y s' s'' \<Longrightarrow> X \<subseteq> Z \<Longrightarrow> Y \<subseteq> Z \<Longrightarrow> frame Z s s''"
  unfolding frame_def by (metis subsetD)

lemma frame_put: "fast_universe p = fast_universe (sc_kv_pool s) \<Longrightarrow> frame {a} s (put a q p s)"
  by (simp add: frame_def)

lemma frame_preempt: "fast_universe p = fast_universe (sc_kv_pool s) \<Longrightarrow> frame {a} s ((put a q p s)\<lparr>sc_preemptions := n\<rparr>)"
  by (simp add: frame_def)

lemma entry_ok_frame: "frame X s s' \<Longrightarrow> be_seq e \<notin> X \<Longrightarrow> entry_ok s' e = entry_ok s e"
  by (simp add: entry_ok_def frame_def)

lemma in_state_frame: "frame X s s' \<Longrightarrow> a \<notin> X \<Longrightarrow> in_state s' st a = in_state s st a"
  by (simp add: in_state_def frame_def)

lemma batch_counts_push: "batch_counts b \<Longrightarrow> batch_counts (push_entry e b)"
  by (simp add: batch_counts_def push_entry_def Let_def)

lemma push_entry_simps [simp]:
  "sb_entries (push_entry e b) = sb_entries b @ [e]"
  "sb_total_tokens (push_entry e b) = sb_total_tokens b + be_n_tokens e"
  by (simp_all add: push_entry_def Let_def)

lemma building_frame:
  assumes "building todo dec budget b s" and "frame X s s'" and "sched_inv s'"
    and "set todo' \<subseteq> set todo - X" and "set dec' \<subseteq> set dec - X" and "distinct todo'" and "distinct dec'"
    and "X \<inter> be_seq ` set (sb_entries b) = {}"
  shows "building todo' dec' budget b s'"
proof -
  have "\<forall>e\<in>set (sb_entries b). be_seq e \<notin> X" using assms(8) by auto
  moreover have "sc_cfg s' = sc_cfg s" using assms(2) by (simp add: frame_def)
  ultimately show ?thesis
    using assms(1,3-7) entry_ok_frame [OF assms(2)] in_state_frame [OF assms(2)]
    unfolding building_def by (auto simp: subset_iff)
qed

lemma building_preempted:
  "building todo dec budget (b\<lparr>sb_n_preempted := n\<rparr>) s = building todo dec budget b s"
  by (simp add: building_def batch_counts_def)

lemma building_push:
  assumes "building todo dec budget b s" and "entry_ok s e"
    and "be_seq e \<notin> be_seq ` set (sb_entries b) \<union> set todo \<union> set dec"
    and "be_n_tokens e \<le> budget"
  shows "building todo dec (budget - be_n_tokens e) (push_entry e b) s"
  using assms batch_counts_push unfolding building_def by auto


lemma buildingD:
  assumes "building todo dec budget b s"
  shows "sched_inv s" and "distinct todo" and "distinct dec" and "set todo \<inter> set dec = {}"
    and "(set todo \<union> set dec) \<inter> be_seq ` set (sb_entries b) = {}"
    and "a \<in> set todo \<Longrightarrow> in_state s PREFILL a" and "a \<in> set dec \<Longrightarrow> in_state s DECODE a"
  using assms by (auto simp: building_def)

lemma in_state_queued: "in_state s st a \<Longrightarrow> a \<in> queued s"
  by (simp add: in_state_def queued_def)

text \<open>One allocation inside the loops: only the pages of \<open>a\<close> change.\<close>

lemma try_alloc_frame:
  assumes "sched_inv s" and "a \<in> queued s" and "sc_heap s a = Some q"
    and "0 \<le> n" and "n \<le> 2 ^ 29" and "ts \<noteq> 0"
  obtains ok ids s' where "try_alloc_pages ts a n s = Inr (ok, s')" "sched_inv s'" "frame {a} s s'"
    "sc_heap s' a = Some (q\<lparr>kv_page_ids := kv_page_ids q @ ids\<rparr>)"
    "if ok then covers (sc_cfg s') (q\<lparr>kv_page_ids := kv_page_ids q @ ids\<rparr>) n else ids = []"
  using try_alloc_ok [OF assms] frame_put
  by (elim exE conjE) (metis put_simps(1) put_simps(7) fun_upd_same)

lemma preempt_frame:
  assumes "sched_inv s" and "a \<in> set (sc_running s)" and "sc_heap s a = Some q"
  obtains s' where "preempt_sequence a s = Inr s'" "sched_inv s'" "frame {a} s s'"
    "sc_heap s' a = Some (preempted q)"
proof -
  from preempt_ok [OF assms] obtain p where
    "preempt_sequence a s = Inr ((put a (preempted q) p s)\<lparr>sc_preemptions := sc_preemptions s + 1\<rparr>)"
    "sched_inv (put a (preempted q) p s)" "fast_universe p = fast_universe (sc_kv_pool s)" by blast
  then show thesis
    by (intro that [of "(put a (preempted q) p s)\<lparr>sc_preemptions := sc_preemptions s + 1\<rparr>"])
      (simp_all add: frame_preempt)
qed

lemma prefill_alloc_ok:
  assumes bld: "building (a # as) dec budget b s" and q: "sc_heap s a = Some q"
    and n: "0 \<le> n" "n \<le> 2 ^ 29" and ts: "ts \<noteq> 0"
  shows "\<exists>ok dec' b' s' ids. prefill_alloc ts a n dec b s = Inr (ok, dec', b', s') \<and>
    building as dec' budget b' s' \<and> frame (insert a (set dec)) s s' \<and> set dec' \<subseteq> set dec \<and>
    sb_entries b' = sb_entries b \<and>
    sc_heap s' a = Some (q\<lparr>kv_page_ids := kv_page_ids q @ ids\<rparr>) \<and>
    (ok \<longrightarrow> covers (sc_cfg s') (q\<lparr>kv_page_ids := kv_page_ids q @ ids\<rparr>) n)"
proof -
  note d = buildingD [OF bld]
  have a: "in_state s PREFILL a" using d(6) by simp
  have ne: "a \<notin> set as" "a \<notin> set dec" using d(2,4) by auto
  obtain ok ids s1 where
    s1: "try_alloc_pages ts a n s = Inr (ok, s1)" "sched_inv s1" "frame {a} s s1"
      "sc_heap s1 a = Some (q\<lparr>kv_page_ids := kv_page_ids q @ ids\<rparr>)"
      "if ok then covers (sc_cfg s1) (q\<lparr>kv_page_ids := kv_page_ids q @ ids\<rparr>) n else ids = []"
    by (rule try_alloc_frame [OF d(1) in_state_queued [OF a] q n ts])
  have b1: "building as dec budget b s1"
    using d(2,3,5) ne by (intro building_frame [OF bld s1(3,2)]) auto
  have f1: "frame (insert a (set dec)) s s1" using s1(3) by (auto simp: frame_def)
  show ?thesis
  proof (cases "ok \<or> dec = []")
    case True
    with s1 b1 f1 show ?thesis
      by (intro exI [of _ ok] exI [of _ dec] exI [of _ b] exI [of _ s1] exI [of _ ids])
        (auto simp: prefill_alloc_def)
  next
    case False
    then have l: "last dec \<in> set dec" and q1: "sc_heap s1 a = Some q"
      using s1(4,5) by auto
    have ld: "in_state s1 DECODE (last dec)" using buildingD(7) [OF b1 l] .
    then obtain qd where qd: "sc_heap s1 (last dec) = Some qd" "last dec \<in> set (sc_running s1)"
      by (auto simp: in_state_def)
    obtain s2 where s2: "preempt_sequence (last dec) s1 = Inr s2" "sched_inv s2"
        "frame {last dec} s1 s2"
      by (rule preempt_frame [OF s1(2) qd(2,1)])
    have la: "last dec \<noteq> a" "last dec \<notin> be_seq ` set (sb_entries b)" "last dec \<notin> set as"
      using l ne d(4,5) by auto
    have b2: "building as (butlast dec) budget b s2"
      using la d(3) buildingD(2) [OF b1] distinct_butlast_last [of dec] False
      by (intro building_frame [OF b1 s2(3,2)]) (auto dest: in_set_butlastD simp: distinct_butlast)
    have q2: "sc_heap s2 a = Some q" using s2(3) q1 la(1) by (simp add: frame_def)
    have a2: "a \<in> queued s2"
      using a s1(3) s2(3) by (simp add: in_state_def queued_def frame_def)
    obtain ok2 ids2 s3 where
      s3: "try_alloc_pages ts a n s2 = Inr (ok2, s3)" "sched_inv s3" "frame {a} s2 s3"
        "sc_heap s3 a = Some (q\<lparr>kv_page_ids := kv_page_ids q @ ids2\<rparr>)"
        "if ok2 then covers (sc_cfg s3) (q\<lparr>kv_page_ids := kv_page_ids q @ ids2\<rparr>) n else ids2 = []"
      by (rule try_alloc_frame [OF s2(2) a2 q2 n ts])
    have b3: "building as (butlast dec) budget b s3"
      using d(5) ne buildingD(2,3) [OF b2]
      by (intro building_frame [OF b2 s3(3,2)]) (auto dest: in_set_butlastD)
    have "frame (insert a (set dec)) s s3"
      using l by (intro frame_trans [OF f1 frame_trans [OF s2(3) s3(3), of "insert a (set dec)"]]) auto
    with False s1(1) s2(1) s3 b3 show ?thesis
      by (intro exI [of _ ok2] exI [of _ "butlast dec"]
          exI [of _ "b\<lparr>sb_n_preempted := sb_n_preempted b + 1\<rparr>"] exI [of _ s3] exI [of _ ids2])
        (auto simp: prefill_alloc_def building_preempted dest: in_set_butlastD split: if_splits)
  qed
qed

text \<open>One sequence of the prefill loop.\<close>

lemma schedule_prefill_step:
  assumes bld: "building (a # as) dec budget b s" and ts: "ts \<noteq> 0" and pos: "0 < budget"
  shows "\<exists>dec1 bu b1 s1. schedule_prefill ts (a # as) dec budget b s = schedule_prefill ts as dec1 bu b1 s1 \<and>
    building as dec1 bu b1 s1 \<and> frame (insert a (set dec)) s s1 \<and> set dec1 \<subseteq> set dec \<and>
    be_seq ` set (sb_entries b1) \<subseteq> insert a (be_seq ` set (sb_entries b))"
proof -
  note d = buildingD [OF bld]
  from d(6) [of a] obtain q where q: "sc_heap s a = Some q" "seq_st q = PREFILL" "a \<in> set (sc_running s)"
    by (auto simp: in_state_def)
  then have ok: "seq_ok q" using sched_inv_cell [OF d(1), of a] by (auto simp: queued_def)
  define c where "c = min (int (length (prompt_tokens q)) - prefill_cursor q)
    (min (max_prefill_tokens_per_step (sc_cfg s)) budget)"
  show ?thesis
  proof (cases "c \<le> 0")
    case True
    have "building as dec budget b s"
      using d(2,3) by (intro building_frame [OF bld frame_refl [of "{}"] d(1)]) auto
    with True pos q(1) ok show ?thesis
      by (intro exI [of _ dec] exI [of _ budget] exI [of _ b] exI [of _ s])
        (auto simp: deref_def Let_def c_def frame_refl)
  next
    case False
    have c: "0 \<le> c" "c \<le> 2 ^ 29"
      using False seq_ok_bounds(2) [OF ok] ok by (auto simp: seq_ok_def c_def min_le_iff_disj)
    from prefill_alloc_ok [OF bld q(1) c ts] obtain ok dec1 b1 s1 ids where
      s1: "prefill_alloc ts a c dec b s = Inr (ok, dec1, b1, s1)" "building as dec1 budget b1 s1"
        "frame (insert a (set dec)) s s1" "set dec1 \<subseteq> set dec" "sb_entries b1 = sb_entries b"
        "sc_heap s1 a = Some (q\<lparr>kv_page_ids := kv_page_ids q @ ids\<rparr>)"
        "ok \<longrightarrow> covers (sc_cfg s1) (q\<lparr>kv_page_ids := kv_page_ids q @ ids\<rparr>) c"
      by blast
    let ?e = "\<lparr>be_seq = a, be_n_tokens = c, be_is_prefill = True, be_prefill_start = prefill_cursor q\<rparr>"
    let ?b = "if ok then push_entry ?e b1 else b1" and ?bu = "if ok then budget - c else budget"
    have "schedule_prefill ts (a # as) dec budget b s = schedule_prefill ts as dec1 ?bu ?b s1"
      using False pos q(1) \<open>seq_ok q\<close> s1(1,6) by (simp add: deref_def Let_def c_def [symmetric])
    moreover have "entry_ok s1 ?e" if ok
      using that s1(3,6,7) q False by (auto simp: entry_ok_def frame_def c_def)
    moreover have "c \<le> budget" by (simp add: c_def)
    ultimately show ?thesis
      using s1(2-5) d(2,4,5) building_push [OF s1(2), of ?e]
      by (intro exI [of _ dec1] exI [of _ ?bu] exI [of _ ?b] exI [of _ s1]) (auto simp: subset_iff)
  qed
qed

lemma schedule_prefill_ok:
  assumes "building as dec budget b s" and "ts \<noteq> 0"
  shows "\<exists>dec' budget' b' s'. schedule_prefill ts as dec budget b s = Inr (dec', budget', b', s') \<and>
    building [] dec' budget' b' s' \<and> frame (set as \<union> set dec) s s' \<and> set dec' \<subseteq> set dec \<and>
    be_seq ` set (sb_entries b') \<subseteq> be_seq ` set (sb_entries b) \<union> set as"
  using assms(1)
proof (induction as arbitrary: dec budget b s)
  case Nil
  then show ?case by (auto simp: frame_refl)
next
  case (Cons a as)
  note d = buildingD [OF Cons.prems]
  show ?case
  proof (cases "budget \<le> 0")
    case True
    have "building [] dec budget b s"
      using d(3) by (intro building_frame [OF Cons.prems frame_refl [of "{}"] d(1)]) auto
    with True show ?thesis by (auto simp: frame_refl)
  next
    case False
    from schedule_prefill_step [OF Cons.prems assms(2)] False obtain dec1 bu b1 s1 where
      s1: "schedule_prefill ts (a # as) dec budget b s = schedule_prefill ts as dec1 bu b1 s1"
        "building as dec1 bu b1 s1" "frame (insert a (set dec)) s s1" "set dec1 \<subseteq> set dec"
        "be_seq ` set (sb_entries b1) \<subseteq> insert a (be_seq ` set (sb_entries b))"
      by auto
    from Cons.IH [OF s1(2)] obtain dec2 bu2 b2 s2 where
      s2: "schedule_prefill ts as dec1 bu b1 s1 = Inr (dec2, bu2, b2, s2)"
        "building [] dec2 bu2 b2 s2" "frame (set as \<union> set dec1) s1 s2" "set dec2 \<subseteq> set dec1"
        "be_seq ` set (sb_entries b2) \<subseteq> be_seq ` set (sb_entries b1) \<union> set as"
      by blast
    have "frame (set (a # as) \<union> set dec) s s2"
      using s1(4) by (intro frame_trans [OF s1(3) s2(3)]) auto
    moreover have "be_seq ` set (sb_entries b2) \<subseteq> be_seq ` set (sb_entries b) \<union> set (a # as)"
      by (rule subset_trans [OF s2(5)]) (use s1(5) in auto)
    ultimately show ?thesis unfolding s1(1) using s2(1,2,4) s1(4) by blast
  qed
qed

lemma schedule_decode_step:
  assumes bld: "building [] (a # as) budget b s" and ts: "ts \<noteq> 0" and pos: "0 < budget"
  shows "\<exists>bu b1 s1. schedule_decode ts (a # as) budget b s = schedule_decode ts as bu b1 s1 \<and>
    building [] as bu b1 s1 \<and> frame {a} s s1 \<and>
    be_seq ` set (sb_entries b1) \<subseteq> insert a (be_seq ` set (sb_entries b))"
proof -
  note d = buildingD [OF bld]
  from d(7) [of a] obtain q where q: "sc_heap s a = Some q" "seq_st q = DECODE" "a \<in> set (sc_running s)"
    by (auto simp: in_state_def)
  have aq: "a \<in> queued s" using q(3) by (simp add: queued_def)
  have one: "(0 :: int) \<le> 1" "(1 :: int) \<le> 2 ^ 29" by simp_all
  obtain ok ids s1 where
    s1: "try_alloc_pages ts a 1 s = Inr (ok, s1)" "sched_inv s1" "frame {a} s s1"
      "sc_heap s1 a = Some (q\<lparr>kv_page_ids := kv_page_ids q @ ids\<rparr>)"
      "if ok then covers (sc_cfg s1) (q\<lparr>kv_page_ids := kv_page_ids q @ ids\<rparr>) 1 else ids = []"
    by (rule try_alloc_frame [OF d(1) aq q(1) one ts])
  have b1: "building [] as budget b s1"
    using d(3,5) by (intro building_frame [OF bld s1(3,2)]) auto
  let ?e = "\<lparr>be_seq = a, be_n_tokens = 1, be_is_prefill = False, be_prefill_start = 0\<rparr>"
  show ?thesis
  proof (cases ok)
    case True
    with s1(3,4,5) q have "entry_ok s1 ?e" by (auto simp: entry_ok_def frame_def)
    then have "building [] as (budget - be_n_tokens ?e) (push_entry ?e b) s1"
      using d(3,5) pos by (intro building_push [OF b1]) auto
    then have "building [] as (budget - 1) (push_entry ?e b) s1" by simp
    with True pos s1 show ?thesis
      by (intro exI [of _ "budget - 1"] exI [of _ "push_entry ?e b"] exI [of _ s1]) simp
  next
    case False
    have "a \<in> set (sc_running s1)" using q(3) s1(3) by (simp add: frame_def)
    from preempt_frame [OF s1(2) this s1(4)] obtain s2 where
      s2: "preempt_sequence a s1 = Inr s2" "sched_inv s2" "frame {a} s1 s2" by blast
    have "building [] as budget b s2"
      using d(3,5) by (intro building_frame [OF b1 s2(3,2)]) auto
    moreover have "frame {a} s s2" by (rule frame_trans [OF s1(3) s2(3)]) auto
    ultimately show ?thesis
      using False pos s1(1) s2(1)
      by (intro exI [of _ budget] exI [of _ "b\<lparr>sb_n_preempted := sb_n_preempted b + 1\<rparr>"]
          exI [of _ s2]) (auto simp: building_preempted)
  qed
qed

lemma schedule_decode_ok:
  assumes "building [] dec budget b s" and "ts \<noteq> 0"
  shows "\<exists>budget' b' s'. schedule_decode ts dec budget b s = Inr (b', s') \<and>
    building [] [] budget' b' s' \<and> frame (set dec) s s' \<and>
    be_seq ` set (sb_entries b') \<subseteq> be_seq ` set (sb_entries b) \<union> set dec"
  using assms(1)
proof (induction dec arbitrary: budget b s)
  case Nil
  then show ?case by (auto simp: frame_refl)
next
  case (Cons a as)
  show ?case
  proof (cases "budget \<le> 0")
    case True
    have "building [] [] budget b s"
      by (rule building_frame [OF Cons.prems frame_refl [of "{}"] buildingD(1) [OF Cons.prems]]) auto
    with True show ?thesis by (auto simp: frame_refl)
  next
    case False
    from schedule_decode_step [OF Cons.prems assms(2)] False obtain bu b1 s1 where
      s1: "schedule_decode ts (a # as) budget b s = schedule_decode ts as bu b1 s1"
        "building [] as bu b1 s1" "frame {a} s s1"
        "be_seq ` set (sb_entries b1) \<subseteq> insert a (be_seq ` set (sb_entries b))"
      by auto
    from Cons.IH [OF s1(2)] obtain bu2 b2 s2 where
      s2: "schedule_decode ts as bu b1 s1 = Inr (b2, s2)" "building [] [] bu2 b2 s2"
        "frame (set as) s1 s2" "be_seq ` set (sb_entries b2) \<subseteq> be_seq ` set (sb_entries b1) \<union> set as"
      by blast
    have "frame (set (a # as)) s s2" by (rule frame_trans [OF s1(3) s2(3)]) auto
    moreover have "be_seq ` set (sb_entries b2) \<subseteq> be_seq ` set (sb_entries b) \<union> set (a # as)"
      by (rule subset_trans [OF s2(4)]) (use s1(4) in auto)
    ultimately show ?thesis unfolding s1(1) using s2(1,2) by blast
  qed
qed

lemma select_state_ok:
  assumes "\<And>a. a \<in> set as \<Longrightarrow> \<exists>q. sc_heap s a = Some q"
  shows "select_state s st as = Inr (filter (\<lambda>a. seq_st (the (sc_heap s a)) = st) as)"
  using assms by (induction as) (fastforce simp: deref_def)+

definition state_in :: "scheduler \<Rightarrow> seq_state \<Rightarrow> nat list" where
  "state_in s st = filter (\<lambda>a. seq_st (the (sc_heap s a)) = st) (sc_running s)"

lemma building_start:
  assumes inv: "sched_inv s"
  shows "building (state_in s PREFILL) (state_in s DECODE) (max_batch_tokens (sc_cfg s)) empty_batch s"
proof -
  have "\<exists>q. sc_heap s a = Some q" if "a \<in> set (sc_running s)" for a
    using sched_inv_cell [OF inv, of a] that by (auto simp: queued_def)
  then show ?thesis using inv sched_invD(5) [OF inv]
    by (fastforce simp: building_def state_in_def in_state_def empty_batch_def batch_counts_def)
qed

text \<open>What follows the promotion.\<close>

lemma schedule_built:
  assumes promote: "promote_waiting ts s = Inr s1" and inv: "sched_inv s1" and ts: "ts \<noteq> 0"
  obtains b budget s' where "schedule ts s = Inr (b, s')" "building [] [] budget b s'"
    "frame (set (state_in s1 PREFILL) \<union> set (state_in s1 DECODE)) s1 s'"
    "be_seq ` set (sb_entries b) \<subseteq> set (state_in s1 PREFILL) \<union> set (state_in s1 DECODE)"
proof -
  have ex: "\<exists>q. sc_heap s1 a = Some q" if "a \<in> set (sc_running s1)" for a
    using sched_inv_cell [OF inv, of a] that by (auto simp: queued_def)
  have sel: "select_state s1 st (sc_running s1) = Inr (state_in s1 st)" for st
    unfolding state_in_def by (rule select_state_ok [OF ex])
  let ?P = "state_in s1 PREFILL" and ?D = "state_in s1 DECODE"
  from schedule_prefill_ok [OF building_start [OF inv] ts] obtain dec bu b2 s2 where
    s2: "schedule_prefill ts ?P ?D (max_batch_tokens (sc_cfg s1)) empty_batch s1 = Inr (dec, bu, b2, s2)"
      "building [] dec bu b2 s2" "frame (set ?P \<union> set ?D) s1 s2" "set dec \<subseteq> set ?D"
      "be_seq ` set (sb_entries b2) \<subseteq> be_seq ` set (sb_entries empty_batch) \<union> set ?P"
    by blast
  from schedule_decode_ok [OF s2(2) ts] obtain bu3 b3 s3 where
    s3: "schedule_decode ts dec bu b2 s2 = Inr (b3, s3)" "building [] [] bu3 b3 s3"
      "frame (set dec) s2 s3" "be_seq ` set (sb_entries b3) \<subseteq> be_seq ` set (sb_entries b2) \<union> set dec"
    by blast
  have "frame (set ?P \<union> set ?D) s1 s3" using s2(4) by (intro frame_trans [OF s2(3) s3(3)]) auto
  moreover have "be_seq ` set (sb_entries b3) \<subseteq> set ?P \<union> set ?D"
    using s3(4) s2(4,5) by (auto simp: empty_batch_def)
  moreover have "schedule ts s = Inr (b3, s3)"
    using promote sel s2(1) s3(1) by (simp add: schedule_def)
  ultimately show thesis using s3(2) by (intro that)
qed

lemma schedule_ok:
  assumes inv: "sched_inv s" and ts: "ts \<noteq> 0"
  shows "\<exists>budget b s' k. schedule ts s = Inr (b, s') \<and> building [] [] budget b s' \<and>
    sc_cfg s' = sc_cfg s \<and> sc_waiting s' = drop k (sc_waiting s) \<and>
    sc_running s' = sc_running s @ take k (sc_waiting s) \<and>
    (\<forall>a\<in>set (sc_running s). (\<forall>q. sc_heap s a = Some q \<longrightarrow> seq_st q \<notin> {PREFILL, DECODE}) \<longrightarrow>
      sc_heap s' a = sc_heap s a \<and> a \<notin> be_seq ` set (sb_entries b))"
proof -
  from promote_loop_ok [OF inv refl ts] obtain s1 k where
    s1: "promote_waiting ts s = Inr s1" "sched_inv s1" "sc_cfg s1 = sc_cfg s"
      "sc_waiting s1 = drop k (sc_waiting s)" "sc_running s1 = sc_running s @ take k (sc_waiting s)"
      "\<forall>a. a \<notin> set (sc_waiting s) \<longrightarrow> sc_heap s1 a = sc_heap s a"
    unfolding promote_waiting_def by blast
  let ?P = "state_in s1 PREFILL" and ?D = "state_in s1 DECODE"
  obtain b bu s' where
    s': "schedule ts s = Inr (b, s')" "building [] [] bu b s'" "frame (set ?P \<union> set ?D) s1 s'"
      "be_seq ` set (sb_entries b) \<subseteq> set ?P \<union> set ?D"
    by (rule schedule_built [OF s1(1,2) ts])
  have idle: "sc_heap s' a = sc_heap s a \<and> a \<notin> be_seq ` set (sb_entries b)"
    if a: "a \<in> set (sc_running s)" "\<forall>q. sc_heap s a = Some q \<longrightarrow> seq_st q \<notin> {PREFILL, DECODE}" for a
  proof -
    have h1: "sc_heap s1 a = sc_heap s a" using s1(6) sched_invD(6) [OF inv] a(1) by auto
    obtain q where "sc_heap s1 a = Some q"
      using sched_inv_cell [OF s1(2), of a] a(1) s1(5) by (auto simp: queued_def)
    then have "seq_st q \<notin> {PREFILL, DECODE}" "the (sc_heap s1 a) = q" using a(2) h1 by auto
    then have "a \<notin> set ?P \<union> set ?D" by (auto simp: state_in_def)
    with s'(3,4) h1 show ?thesis by (auto simp: frame_def)
  qed
  show ?thesis
    by (intro exI [of _ bu] exI [of _ b] exI [of _ s'] exI [of _ k])
      (use s' s1(3,4,5) idle in \<open>simp add: frame_def\<close>)
qed


section \<open>Removing a sequence\<close>

lemma sched_inv_cong:
  assumes "sc_cfg s' = sc_cfg s" "sc_kv_pool s' = sc_kv_pool s" "sc_swapped s' = sc_swapped s"
    "sc_waiting s' = sc_waiting s" "sc_running s' = sc_running s" "sc_brk s' = sc_brk s"
    "sc_heap s' = sc_heap s"
  shows "sched_inv s' = sched_inv s"
  using assms by (simp add: sched_inv_def queued_def slot_ok_def kv_owned_def owns_def held_def)

definition dropped :: "nat \<Rightarrow> fast_pool \<Rightarrow> scheduler \<Rightarrow> scheduler" where
  "dropped a p s = s\<lparr>sc_heap := (sc_heap s)(a := None), sc_kv_pool := p,
     sc_waiting := remove1 a (sc_waiting s), sc_running := remove1 a (sc_running s)\<rparr>"

lemma queued_dropped: "sched_inv s \<Longrightarrow> queued (dropped a p s) = queued s - {a}"
  using sched_invD(4,5) [of s] by (auto simp: queued_def dropped_def)

lemma dropped_inv:
  assumes inv: "sched_inv s" and "fast_live p"
    and "owns (fast_universe p) (fast_avail p) (queued s - {a}) (held s)"
  shows "sched_inv (dropped a p s)"
proof -
  note i = sched_invD [OF inv]
  let ?s = "dropped a p s"
  note K = queued_dropped [OF inv, of a p]
  have "owns (fast_universe p) (fast_avail p) (queued s - {a}) (held ?s)"
    using assms(3) by (rule owns_cong [THEN iffD1, rotated]) (simp add: held_def dropped_def)
  moreover have "\<exists>q. sc_heap ?s x = Some q \<and> slot_ok ?s x q" if "x \<in> queued s - {a}" for x
    using i(10) [of x] that by (auto simp: dropped_def slot_ok_def)
  moreover have "int (length (remove1 a (sc_waiting s))) \<le> max 0 (max_waiting_seqs (sc_cfg s))"
    "int (length (remove1 a (sc_running s))) \<le> max 0 (max_seqs_running (sc_cfg s))"
    using i(7,8) by (auto simp: length_remove1)
  moreover have "set (remove1 a (sc_waiting s)) \<inter> set (remove1 a (sc_running s)) = {}"
    using i(4,5,6) by auto
  ultimately show ?thesis
    using i(1,3,4,5,9) assms(2) unfolding sched_inv_def kv_owned_def K
    by (simp add: dropped_def distinct_remove1)
qed

lemma find_seq_ok:
  assumes "\<And>a. a \<in> set as \<Longrightarrow> \<exists>q. sc_heap s a = Some q"
  shows "find_seq s sid as = Inr (List.find (\<lambda>a. seq_id (the (sc_heap s a)) = sid) as)"
  using assms
proof (induction as)
  case Nil
  then show ?case by simp
next
  case (Cons a as)
  then obtain q where "sc_heap s a = Some q" by fastforce
  with Cons show ?case by (simp add: deref_def)
qed

lemma abort_state:
  assumes inv: "sched_inv s" and a: "a \<in> queued s" and q: "sc_heap s a = Some q"
  obtains p where "seq_free_pages a s = Inr (put a (q\<lparr>kv_page_ids := []\<rparr>) p s)"
    "fast_avail p = fast_avail (sc_kv_pool s) \<union> set (kv_page_ids q)" "sched_inv (dropped a p s)"
proof -
  from seq_free_ok [OF assms] obtain p where
    p: "seq_free_pages a s = Inr (put a (q\<lparr>kv_page_ids := []\<rparr>) p s)" "fast_live p"
      "fast_avail p = fast_avail (sc_kv_pool s) \<union> set (kv_page_ids q)"
      "owns (fast_universe p) (fast_avail p) (queued s) ((held s)(a := []))"
    by blast
  have "owns (fast_universe p) (fast_avail p) (queued s - {a}) ((held s)(a := []))"
    using p(4) by (rule owns_subset) auto
  then have "owns (fast_universe p) (fast_avail p) (queued s - {a}) (held s)"
    by (rule owns_cong [THEN iffD1, rotated]) auto
  with p show thesis by (intro that [OF p(1,3)] dropped_inv [OF inv]) auto
qed

text \<open>\<open>abort_in\<close> on one of the two queues in use.\<close>

definition is_queue ::
  "(scheduler \<Rightarrow> nat list) \<Rightarrow> ((nat list \<Rightarrow> nat list) \<Rightarrow> scheduler \<Rightarrow> scheduler) \<Rightarrow> bool" where
  "is_queue get upd \<longleftrightarrow> get = sc_waiting \<and> upd = sc_waiting_update \<or>
     get = sc_running \<and> upd = sc_running_update"

lemma is_queue_waiting: "is_queue sc_waiting sc_waiting_update"
  by (simp add: is_queue_def)

lemma is_queue_running: "is_queue sc_running sc_running_update"
  by (simp add: is_queue_def)

lemma abort_in_ok:
  fixes sid :: int
  assumes inv: "sched_inv s"
    and queue: "is_queue get upd"
  defines "r \<equiv> List.find (\<lambda>a. seq_id (the (sc_heap s a)) = sid) (get s)"
  shows "case r of None \<Rightarrow> abort_in get upd sid s = Inr s
    | Some a \<Rightarrow> (\<exists>p. abort_in get upd sid s = Inr (dropped a p s) \<and> sched_inv (dropped a p s) \<and>
        fast_avail p = fast_avail (sc_kv_pool s) \<union> set (held s a))"
proof -
  note i = sched_invD [OF inv] and Q = queue [unfolded is_queue_def]
  have sub: "set (get s) \<subseteq> queued s" using Q by (auto simp: queued_def)
  then have f: "find_seq s sid (get s) = Inr r"
    unfolding r_def using i(10) by (intro find_seq_ok) blast
  show ?thesis
  proof (cases r)
    case None
    with f show ?thesis by (simp add: abort_in_def)
  next
    case (Some a)
    then have a: "a \<in> set (get s)" unfolding r_def by (auto simp: find_Some_iff)
    with sub have aq: "a \<in> queued s" by auto
    obtain q where q: "sc_heap s a = Some q" using i(10) [OF aq] by auto
    obtain p where p: "seq_free_pages a s = Inr (put a (q\<lparr>kv_page_ids := []\<rparr>) p s)"
        "fast_avail p = fast_avail (sc_kv_pool s) \<union> set (kv_page_ids q)" "sched_inv (dropped a p s)"
      by (rule abort_state [OF inv aq q])
    have other: "a \<in> set (sc_waiting s) \<Longrightarrow> remove1 a (sc_running s) = sc_running s"
      "a \<in> set (sc_running s) \<Longrightarrow> remove1 a (sc_waiting s) = sc_waiting s"
      using i(6) by (metis disjoint_iff remove1_idem)+
    have "destroy a (upd (remove1 a) (store a q' (put a q'' p s))) = dropped a p s" for q' q''
      using Q a other by (auto simp: destroy_def store_def put_def dropped_def)
    then have "abort_in get upd sid s = Inr (dropped a p s)"
      using f Some p(1) by (simp add: abort_in_def deref_def)
    with p(2,3) Some q show ?thesis by (auto simp: held_def)
  qed
qed

lemma abort_in_none:
  assumes "sched_inv s"
    and "is_queue get upd"
    and "List.find (\<lambda>a. seq_id (the (sc_heap s a)) = sid) (get s) = None"
  shows "abort_in get upd sid s = Inr s"
  using abort_in_ok [OF assms(1,2), of sid] by (simp add: assms(3))

lemma abort_in_some:
  assumes "sched_inv s"
    and "is_queue get upd"
    and "List.find (\<lambda>a. seq_id (the (sc_heap s a)) = sid) (get s) = Some a"
  shows "\<exists>p. abort_in get upd sid s = Inr (dropped a p s) \<and> sched_inv (dropped a p s) \<and>
    fast_avail p = fast_avail (sc_kv_pool s) \<union> set (held s a)"
  using abort_in_ok [OF assms(1,2), of sid] by (simp add: assms(3))

lemma abort_in_inv:
  assumes "sched_inv s"
    and "is_queue get upd"
  obtains s' where "abort_in get upd sid s = Inr s'" "sched_inv s'"
  using abort_in_none [OF assms, of sid] abort_in_some [OF assms, of sid] assms(1)
  by (cases "List.find (\<lambda>a. seq_id (the (sc_heap s a)) = sid) (get s)") blast+

lemma abort_request_ok:
  assumes inv: "sched_inv s"
  obtains s1 s2 where "abort_in sc_waiting sc_waiting_update sid s = Inr s1" "sched_inv s1"
    "abort_in sc_running sc_running_update sid s1 = Inr s2" "sched_inv s2"
    "abort_request sid s = Inr s2"
proof -
  obtain s1 where s1: "abort_in sc_waiting sc_waiting_update sid s = Inr s1" "sched_inv s1"
    by (rule abort_in_inv [OF inv is_queue_waiting])
  obtain s2 where s2: "abort_in sc_running sc_running_update sid s1 = Inr s2" "sched_inv s2"
    by (rule abort_in_inv [OF s1(2) is_queue_running])
  have "abort_in sc_swapped sc_swapped_update sid s2 = Inr s2"
    using sched_invD(3) [OF s2(2)] by (simp add: abort_in_def)
  with s1 s2 have "abort_request sid s = Inr s2" by (simp add: abort_request_def)
  with s1 s2 show thesis by (rule that)
qed

lemma find_unique:
  assumes "a \<in> set xs" and "P a" and "\<And>b. b \<in> set xs \<Longrightarrow> P b \<Longrightarrow> b = a"
  shows "List.find P xs = Some a"
proof (cases "List.find P xs")
  case None
  with assms(1,2) show ?thesis by (auto simp: find_None_iff)
next
  case (Some y)
  then have "y \<in> set xs" "P y" by (auto simp: find_Some_iff)
  with assms(3) Some show ?thesis by metis
qed

lemma find_none: "(\<And>b. b \<in> set xs \<Longrightarrow> \<not> P b) \<Longrightarrow> List.find P xs = None"
  by (simp add: find_None_iff)

lemma abort_request_unique:
  assumes inv: "sched_inv s" and a: "a \<in> queued s" and q: "sc_heap s a = Some q" "seq_id q = sid"
    and uniq: "\<And>b r. b \<in> queued s \<Longrightarrow> sc_heap s b = Some r \<Longrightarrow> seq_id r = sid \<Longrightarrow> b = a"
  shows "\<exists>p. abort_request sid s = Inr (dropped a p s) \<and> sched_inv (dropped a p s) \<and>
    fast_avail p = fast_avail (sc_kv_pool s) \<union> set (held s a)"
proof -
  note i = sched_invD [OF inv]
  have cell: "\<exists>r. sc_heap s b = Some r" if "b \<in> queued s" for b using i(10) [OF that] by auto
  have P: "b = a \<longleftrightarrow> seq_id (the (sc_heap s b)) = sid" if "b \<in> queued s" for b
    using cell [OF that] uniq [OF that] q by auto
  have W: "b \<in> queued s" if "b \<in> set (sc_waiting s)" for b using that by (simp add: queued_def)
  have R: "b \<in> queued s" if "b \<in> set (sc_running s)" for b using that by (simp add: queued_def)
  show ?thesis
  proof (cases "a \<in> set (sc_waiting s)")
    case True
    have "List.find (\<lambda>a. seq_id (the (sc_heap s a)) = sid) (sc_waiting s) = Some a"
      using P W q by (intro find_unique [OF True]) auto
    from abort_in_some [OF inv is_queue_waiting this] obtain p where p: "abort_in sc_waiting sc_waiting_update sid s = Inr (dropped a p s)"
        "sched_inv (dropped a p s)" "fast_avail p = fast_avail (sc_kv_pool s) \<union> set (held s a)"
      by auto
    have "\<not> seq_id (the (sc_heap (dropped a p s) b)) = sid" if "b \<in> set (sc_running (dropped a p s))" for b
      using that P [OF R, of b] i(5,6) True by (auto simp: dropped_def)
    then have "abort_in sc_running sc_running_update sid (dropped a p s) = Inr (dropped a p s)"
      by (intro abort_in_none [OF p(2) is_queue_running] find_none)
    moreover have "abort_in sc_swapped sc_swapped_update sid (dropped a p s) = Inr (dropped a p s)"
      using sched_invD(3) [OF p(2)] by (simp add: abort_in_def)
    ultimately show ?thesis using p by (auto simp: abort_request_def)
  next
    case False
    then have "\<not> seq_id (the (sc_heap s b)) = sid" if "b \<in> set (sc_waiting s)" for b
      using that P [OF W] by auto
    then have w: "abort_in sc_waiting sc_waiting_update sid s = Inr s"
      by (intro abort_in_none [OF inv is_queue_waiting] find_none)
    have "a \<in> set (sc_running s)" using a False by (simp add: queued_def)
    then have "List.find (\<lambda>a. seq_id (the (sc_heap s a)) = sid) (sc_running s) = Some a"
      using P R q by (intro find_unique) auto
    from abort_in_some [OF inv is_queue_running this] obtain p where p: "abort_in sc_running sc_running_update sid s = Inr (dropped a p s)"
        "sched_inv (dropped a p s)" "fast_avail p = fast_avail (sc_kv_pool s) \<union> set (held s a)"
      by auto
    moreover have "abort_in sc_swapped sc_swapped_update sid (dropped a p s) = Inr (dropped a p s)"
      using sched_invD(3) [OF p(2)] by (simp add: abort_in_def)
    ultimately show ?thesis using w by (auto simp: abort_request_def)
  qed
qed


section \<open>Completing a step\<close>

text \<open>
  While \<open>step_complete\<close> walks the batch, finished sequences are still in \<open>running_\<close>;
  \<open>purge\<close> is the state with them removed, for which the invariant holds throughout.
\<close>

definition done_at :: "scheduler \<Rightarrow> nat \<Rightarrow> bool" where
  "done_at s a = (case sc_heap s a of None \<Rightarrow> False | Some q \<Rightarrow> is_done q)"

definition purge :: "scheduler \<Rightarrow> scheduler" where
  "purge s = s\<lparr>sc_running := filter (\<lambda>a. \<not> done_at s a) (sc_running s),
     sc_heap := (\<lambda>a. if a \<in> set (sc_running s) \<and> done_at s a then None else sc_heap s a)\<rparr>"

definition kv_fresh :: "u64 \<Rightarrow> scheduler \<Rightarrow> bool" where
  "kv_fresh now s \<longleftrightarrow>
     (\<forall>a\<in>queued s. set (held s a) \<inter> fast_stale_pages now 30000 (sc_kv_pool s) = {})"

definition stepping :: "u64 \<Rightarrow> scheduler \<Rightarrow> bool" where
  "stepping now s \<longleftrightarrow> sched_inv (purge s) \<and> kv_fresh now (purge s)"

lemma remove_done_ok:
  assumes "distinct as" and "\<And>a. a \<in> set as \<Longrightarrow> \<exists>q. sc_heap s a = Some q"
  shows "remove_done as s = Inr (filter (\<lambda>a. \<not> done_at s a) as,
    s\<lparr>sc_heap := (\<lambda>a. if a \<in> set as \<and> done_at s a then None else sc_heap s a)\<rparr>)"
  using assms
proof (induction as arbitrary: s)
  case Nil
  then show ?case by simp
next
  case (Cons a as)
  from Cons.prems(2) [of a] obtain q where q: "sc_heap s a = Some q" by auto
  show ?case
  proof (cases "is_done q")
    case True
    let ?s = "destroy a s"
    have keep: "done_at ?s x = done_at s x" "sc_heap ?s x = sc_heap s x" if "x \<in> set as" for x
      using that Cons.prems(1) by (auto simp: destroy_def done_at_def)
    have "remove_done as ?s = Inr (filter (\<lambda>a. \<not> done_at ?s a) as,
        ?s\<lparr>sc_heap := (\<lambda>a. if a \<in> set as \<and> done_at ?s a then None else sc_heap ?s a)\<rparr>)"
      using Cons.prems keep(2) by (intro Cons.IH) auto
    moreover have "filter (\<lambda>a. \<not> done_at ?s a) as = filter (\<lambda>a. \<not> done_at s a) as"
      using keep(1) by (auto intro: filter_cong)
    moreover have "(\<lambda>x. if x \<in> set as \<and> done_at ?s x then None else sc_heap ?s x) =
        (\<lambda>x. if x \<in> set (a # as) \<and> done_at s x then None else sc_heap s x)"
      using keep q True Cons.prems(1) by (auto simp: fun_eq_iff destroy_def done_at_def)
    moreover have "?s\<lparr>sc_heap := h\<rparr> = s\<lparr>sc_heap := h\<rparr>" for h by (simp add: destroy_def)
    moreover have "done_at s a" using q True by (simp add: done_at_def)
    ultimately show ?thesis using q True by (simp add: deref_def)
  next
    case False
    then have nd: "\<not> done_at s a" using q by (simp add: done_at_def)
    then have "(\<lambda>x. if x \<in> set (a # as) \<and> done_at s x then None else sc_heap s x) =
        (\<lambda>x. if x \<in> set as \<and> done_at s x then None else sc_heap s x)"
      by (auto simp: fun_eq_iff)
    with nd False q Cons show ?thesis by (simp add: deref_def)
  qed
qed

lemma running_not_done: "sched_inv s \<Longrightarrow> a \<in> set (sc_running s) \<Longrightarrow> \<not> done_at s a"
  using sched_inv_cell [of s a]
  by (force simp: queued_def slot_ok_def run_ok_def done_at_def is_done_def)

lemma purge_id: "sched_inv s \<Longrightarrow> purge s = s"
proof -
  assume inv: "sched_inv s"
  then have "filter (\<lambda>a. \<not> done_at s a) (sc_running s) = sc_running s"
    "(\<lambda>a. if a \<in> set (sc_running s) \<and> done_at s a then None else sc_heap s a) = sc_heap s"
    using running_not_done by (auto simp: fun_eq_iff)
  then show ?thesis by (simp add: purge_def)
qed

lemma purge_simps [simp]:
  "sc_cfg (purge s) = sc_cfg s" "sc_kv_pool (purge s) = sc_kv_pool s"
  "sc_waiting (purge s) = sc_waiting s" "sc_swapped (purge s) = sc_swapped s"
  "sc_brk (purge s) = sc_brk s"
  by (simp_all add: purge_def)

lemma purge_running:
  "a \<in> set (sc_running s) \<Longrightarrow> \<not> done_at s a \<Longrightarrow>
    a \<in> set (sc_running (purge s)) \<and> sc_heap (purge s) a = sc_heap s a"
  by (simp add: purge_def)

lemma purge_put:
  assumes "a \<in> set (sc_running s)" and "\<not> done_at s a" and "\<not> is_done q"
  shows "purge (put a q p s) = put a q p (purge s)"
proof -
  have d: "done_at (put a q p s) = done_at s"
    using assms(2,3) by (auto simp: done_at_def fun_eq_iff)
  show ?thesis using assms unfolding purge_def d by (auto simp: put_def fun_eq_iff)
qed

lemma purge_finish:
  assumes "a \<in> set (sc_running s)" and "\<not> done_at s a" and "is_done q" and "distinct (sc_running s)"
    and "a \<notin> set (sc_waiting s)"
  shows "purge (put a q p s) = dropped a p (purge s)"
proof -
  have d: "done_at (put a q p s) x \<longleftrightarrow> a = x \<or> done_at s x" for x
    using assms(3) by (auto simp: done_at_def)
  have "filter (\<lambda>x. a \<noteq> x \<and> \<not> done_at s x) (sc_running s) =
      remove1 a (filter (\<lambda>a. \<not> done_at s a) (sc_running s))"
    using assms(4) by (simp add: distinct_remove1_removeAll removeAll_filter_not_eq conj_commute)
  moreover have "(\<lambda>x. if x \<in> set (sc_running s) \<and> (a = x \<or> done_at s x) then None
      else ((sc_heap s)(a \<mapsto> q)) x) =
    (\<lambda>a. if a \<in> set (sc_running s) \<and> done_at s a then None else sc_heap s a)(a := None)"
    using assms(1) by (auto simp: fun_eq_iff)
  ultimately show ?thesis
    using assms(5) unfolding purge_def d by (simp add: put_def dropped_def remove1_idem cong: if_cong)
qed

lemma fast_touch_keeps:
  assumes "fast_live s" and "set ids \<subseteq> fast_universe s - fast_avail s" and "ts \<noteq> 0"
  obtains s' where "fast_touch ts ids s = Inr s'" "fast_live s'" "fast_avail s' = fast_avail s"
    "fast_universe s' = fast_universe s"
    "\<forall>now. now - ts \<le> word_of_int ttl * 1000 \<longrightarrow> fast_stale_pages now ttl s' \<subseteq> fast_stale_pages now ttl s"
proof -
  have "fast_inv s" "\<forall>y\<in>set ids. in_range (fp_meta s) y"
    using assms by (auto simp: fast_live_def fast_universe_def)
  from fast_touch_ok [OF this, of ts] obtain s' where
    s': "fast_touch ts ids s = Inr s'" "fast_touched ts (set ids) s s'"
    by blast
  have "fast_stale_pages now ttl s' \<subseteq> fast_stale_pages now ttl s"
    if "now - ts \<le> word_of_int ttl * 1000" for now
    using s'(2) that fast_touched_universe [OF s'(2)]
    by (auto simp: fast_stale_pages_def fast_stale_def fast_touched_def fast_universe_def
        split: if_splits)
  with s' fast_touch_live [OF assms s'(1)] fast_touched_universe [OF s'(2)] show thesis
    by (intro that [of s']) auto
qed


text \<open>One entry of the batch.\<close>

lemma stepping_cell:
  assumes "stepping now s" and "entry_ok s e"
  obtains q where "sc_heap s (be_seq e) = Some q" "be_seq e \<in> set (sc_running s)"
    "\<not> done_at s (be_seq e)" "be_seq e \<in> queued (purge s)"
    "sc_heap (purge s) (be_seq e) = Some q" "seq_ok q" "run_ok q" "be_seq e \<notin> set (sc_waiting s)"
proof -
  from assms(2) obtain q where q: "sc_heap s (be_seq e) = Some q" "be_seq e \<in> set (sc_running s)"
      "\<not> is_done q"
    by (auto simp: entry_ok_def is_done_def split: if_splits)
  then have nd: "\<not> done_at s (be_seq e)" by (simp add: done_at_def)
  note pr = purge_running [OF q(2) nd]
  then have aq: "be_seq e \<in> queued (purge s)" by (simp add: queued_def)
  have inv: "sched_inv (purge s)" using assms(1) by (simp add: stepping_def)
  obtain q' where "sc_heap (purge s) (be_seq e) = Some q'" "slot_ok (purge s) (be_seq e) q'"
    using sched_inv_cell [OF inv aq] by blast
  with q nd pr aq sched_invD(6) [OF inv] show thesis
    by (intro that [of q]) (auto simp: slot_ok_def)
qed

lemma stepping_put:
  assumes st: "stepping now s" and e: "entry_ok s e" and q: "sc_heap s (be_seq e) = Some q"
    and q': "seq_ok q'" "run_ok q'" "kv_page_ids q' = kv_page_ids q"
    and p: "fast_live p" "fast_universe p = fast_universe (sc_kv_pool s)"
      "fast_avail p = fast_avail (sc_kv_pool s)"
      "fast_stale_pages now 30000 p \<subseteq> fast_stale_pages now 30000 (sc_kv_pool s)"
  shows "stepping now (put (be_seq e) q' p s)"
proof -
  let ?a = "be_seq e"
  have inv: "sched_inv (purge s)" and fr: "kv_fresh now (purge s)"
    using st by (simp_all add: stepping_def)
  from st e q have c: "?a \<in> set (sc_running s)" "\<not> done_at s ?a" "?a \<in> queued (purge s)"
      "sc_heap (purge s) ?a = Some q" "?a \<notin> set (sc_waiting s)"
    by (auto elim!: stepping_cell)
  have nd: "\<not> is_done q'" using q'(2) by (auto simp: run_ok_def is_done_def)
  have h: "(held (purge s))(?a := kv_page_ids q') = held (purge s)"
    using q'(3) c(4) by (auto simp: held_def fun_eq_iff)
  have "owns (fast_universe p) (fast_avail p) (queued (purge s)) ((held (purge s))(?a := kv_page_ids q'))"
    unfolding h using sched_invD(11) [OF inv] p(2,3) by (simp add: kv_owned_def)
  moreover have "slot_ok (purge s) ?a q'" using q' c(5) by (simp add: slot_ok_def)
  ultimately have "sched_inv (put ?a q' p (purge s))"
    by (intro sched_inv_put [OF inv c(3) _ p(1)])
  moreover have "kv_fresh now (put ?a q' p (purge s))"
    using fr p(4) h unfolding kv_fresh_def put_simps by auto
  ultimately show ?thesis by (simp add: stepping_def purge_put [OF c(1,2) nd])
qed

lemma stepping_finish:
  assumes st: "stepping now s" and e: "entry_ok s e" and d: "distinct (sc_running s)"
    and q': "is_done q'"
    and p: "fast_live p" "fast_universe p = fast_universe (sc_kv_pool s)"
      "fast_avail p = fast_avail (sc_kv_pool s)"
      "fast_stale_pages now 30000 p \<subseteq> fast_stale_pages now 30000 (sc_kv_pool s)"
  shows "stepping now (put (be_seq e) q' p s)"
proof -
  let ?a = "be_seq e"
  have inv: "sched_inv (purge s)" and fr: "kv_fresh now (purge s)"
    using st by (simp_all add: stepping_def)
  from st e have c: "?a \<in> set (sc_running s)" "\<not> done_at s ?a" "?a \<notin> set (sc_waiting s)"
    by (auto elim!: stepping_cell)
  have "owns (fast_universe p) (fast_avail p) (queued (purge s) - {?a}) (held (purge s))"
    using sched_invD(11) [OF inv] p(2,3) by (auto simp: kv_owned_def intro: owns_subset)
  then have "sched_inv (dropped ?a p (purge s))" by (rule dropped_inv [OF inv p(1)])
  moreover have "kv_fresh now (dropped ?a p (purge s))"
    using fr p(4) unfolding kv_fresh_def queued_dropped [OF inv]
    by (auto simp: dropped_def held_def)
  ultimately show ?thesis by (simp add: stepping_def purge_finish [OF c(1,2) q' d c(3)])
qed

lemma stepping_cong:
  assumes "sc_cfg s' = sc_cfg s" "sc_kv_pool s' = sc_kv_pool s" "sc_swapped s' = sc_swapped s"
    "sc_waiting s' = sc_waiting s" "sc_running s' = sc_running s" "sc_brk s' = sc_brk s"
    "sc_heap s' = sc_heap s"
  shows "stepping now s' = stepping now s"
proof -
  have "sched_inv (purge s') = sched_inv (purge s)"
    using assms by (intro sched_inv_cong) (simp_all add: purge_def done_at_def cong: if_cong)
  moreover have "kv_fresh now (purge s') = kv_fresh now (purge s)"
    using assms by (simp add: kv_fresh_def purge_def queued_def held_def done_at_def cong: if_cong)
  ultimately show ?thesis by (simp add: stepping_def)
qed


text \<open>The sequence of a prefill entry once its chunk is reported.\<close>

definition prefilled :: "int \<Rightarrow> sequence \<Rightarrow> sequence" where
  "prefilled n q = (let q1 = q\<lparr>prefill_cursor := prefill_cursor q + n\<rparr>
     in if int (length (prompt_tokens q)) - prefill_cursor q1 \<le> 0 then q1\<lparr>seq_st := DECODE\<rparr> else q1)"

lemma complete_prefill_run:
  assumes st: "stepping now s" and e: "entry_ok s e" and pre: "be_is_prefill e" and q: "sc_heap s (be_seq e) = Some q"
  shows "complete_prefill e s = Inr (put (be_seq e) (prefilled (be_n_tokens e) q) (sc_kv_pool s) s)"
    and "seq_ok (prefilled (be_n_tokens e) q)" and "run_ok (prefilled (be_n_tokens e) q)"
proof -
  from st e q have ok: "seq_ok q" by (auto elim!: stepping_cell)
  from e pre q have e': "0 < be_n_tokens e" "seq_st q = PREFILL"
      "prefill_cursor q + be_n_tokens e \<le> int (length (prompt_tokens q))"
    by (auto simp: entry_ok_def)
  have ok1: "seq_ok (q\<lparr>prefill_cursor := prefill_cursor q + be_n_tokens e\<rparr>)" using ok e' by (simp add: seq_ok_def)
  then show "seq_ok (prefilled (be_n_tokens e) q)" by (simp add: prefilled_def Let_def seq_ok_def)
  show "run_ok (prefilled (be_n_tokens e) q)" using e' by (auto simp: prefilled_def Let_def run_ok_def)
  have "0 \<le> prefill_cursor q + be_n_tokens e" "prefill_cursor q + be_n_tokens e < 2 ^ 31"
    using e' ok seq_ok_bounds(2) [OF ok] by (auto simp: seq_ok_def)
  then show "complete_prefill e s = Inr (put (be_seq e) (prefilled (be_n_tokens e) q) (sc_kv_pool s) s)"
    using q remaining_prefill_ok [OF ok1]
    by (simp add: complete_prefill_def deref_def Let_def store_def put_def prefilled_def)
qed

lemma complete_prefill_ok:
  assumes st: "stepping now s" and e: "entry_ok s e" and pre: "be_is_prefill e"
  shows "\<exists>s'. complete_prefill e s = Inr s' \<and> stepping now s' \<and> frame {be_seq e} s s'"
proof -
  from st e obtain q where q: "sc_heap s (be_seq e) = Some q" by (auto elim!: stepping_cell)
  note run = complete_prefill_run [OF st e pre q]
  have "fast_live (sc_kv_pool s)" using st sched_invD(2) [of "purge s"] by (simp add: stepping_def)
  then have "stepping now (put (be_seq e) (prefilled (be_n_tokens e) q) (sc_kv_pool s) s)"
    by (intro stepping_put [OF st e q run(2,3)]) (simp_all add: prefilled_def Let_def)
  with run(1) frame_put show ?thesis by blast
qed

lemma complete_decode_run:
  assumes st: "stepping now s" and e: "entry_ok s e" and q: "sc_heap s (be_seq e) = Some q"
    and ts: "ts \<noteq> 0"
  defines "q1 \<equiv> \<lambda>tok. q\<lparr>output_tokens := output_tokens q @ [tok]\<rparr>"
  obtains p where "\<forall>tok. complete_decode ts e tok s =
      Inr (let s1 = (put (be_seq e) (q1 tok) p s)\<lparr>sc_tokens_generated := sc_tokens_generated s + 1\<rparr>
           in if finished (q1 tok) tok then finish_seq (be_seq e) (q1 tok) s1 else s1)"
    "fast_live p" "fast_universe p = fast_universe (sc_kv_pool s)"
    "fast_avail p = fast_avail (sc_kv_pool s)"
    "\<And>now. now - ts \<le> 30000000 \<Longrightarrow> fast_stale_pages now 30000 p \<subseteq> fast_stale_pages now 30000 (sc_kv_pool s)"
proof -
  let ?a = "be_seq e"
  have inv: "sched_inv (purge s)" using st by (simp add: stepping_def)
  from st e q have c: "?a \<in> queued (purge s)" "sc_heap (purge s) ?a = Some q"
    by (auto elim!: stepping_cell)
  then have "held (purge s) ?a = kv_page_ids q" by (simp add: held_def)
  with ownsD(2,3) [OF sched_invD(11) [OF inv, unfolded kv_owned_def] c(1)]
  have kv: "set (kv_page_ids q) \<subseteq> fast_universe (sc_kv_pool s) - fast_avail (sc_kv_pool s)" by auto
  have live: "fast_live (sc_kv_pool s)" using sched_invD(2) [OF inv] by simp
  obtain p where p: "fast_touch ts (kv_page_ids q) (sc_kv_pool s) = Inr p" "fast_live p"
      "fast_avail p = fast_avail (sc_kv_pool s)" "fast_universe p = fast_universe (sc_kv_pool s)"
      "\<forall>now. now - ts \<le> word_of_int 30000 * 1000 \<longrightarrow>
        fast_stale_pages now 30000 p \<subseteq> fast_stale_pages now 30000 (sc_kv_pool s)"
    by (rule fast_touch_keeps [OF live kv ts, where ttl = 30000])
  show thesis
  proof (rule that [OF _ p(2,4,3)])
    show "fast_stale_pages now 30000 p \<subseteq> fast_stale_pages now 30000 (sc_kv_pool s)" if "now - ts \<le> 30000000" for now
      using p(5) that by simp
  qed (use q p(1) in \<open>simp add: complete_decode_def deref_def Let_def store_def put_def q1_def\<close>)
qed

lemma complete_decode_ok:
  assumes st: "stepping now s" and e: "entry_ok s e" and dec: "\<not> be_is_prefill e"
    and d: "distinct (sc_running s)" and ts: "ts \<noteq> 0" "now - ts \<le> 30000000"
  shows "\<exists>s'. complete_decode ts e tok s = Inr s' \<and> stepping now s' \<and> frame {be_seq e} s s'"
proof -
  let ?a = "be_seq e"
  from st e obtain q where q: "sc_heap s ?a = Some q" "seq_ok q" "run_ok q"
    by (auto elim!: stepping_cell)
  let ?q = "q\<lparr>output_tokens := output_tokens q @ [tok]\<rparr>"
  obtain p where p: "\<forall>tok. complete_decode ts e tok s =
      Inr (let s1 = (put ?a (q\<lparr>output_tokens := output_tokens q @ [tok]\<rparr>) p s)
                      \<lparr>sc_tokens_generated := sc_tokens_generated s + 1\<rparr>
           in if finished (q\<lparr>output_tokens := output_tokens q @ [tok]\<rparr>) tok
              then finish_seq ?a (q\<lparr>output_tokens := output_tokens q @ [tok]\<rparr>) s1 else s1)"
      "fast_live p" "fast_universe p = fast_universe (sc_kv_pool s)"
      "fast_avail p = fast_avail (sc_kv_pool s)"
      "fast_stale_pages now 30000 p \<subseteq> fast_stale_pages now 30000 (sc_kv_pool s)"
    by (rule complete_decode_run [OF st e q(1) ts(1)]) (use ts(2) in blast)
  let ?s1 = "(put ?a ?q p s)\<lparr>sc_tokens_generated := sc_tokens_generated s + 1\<rparr>"
  let ?s' = "if finished ?q tok then finish_seq ?a ?q ?s1 else ?s1"
  have "int (length (output_tokens q)) + 1 < 2 ^ 31" using seq_ok_bounds(3) [OF q(2)] by simp
  then have cast: "cast_int (length (output_tokens ?q)) = int (length (output_tokens q)) + 1"
    using cast_int_small [of "length (output_tokens ?q)"] by simp
  have "stepping now ?s'"
  proof (cases "finished ?q tok")
    case True
    have "stepping now (put ?a (?q\<lparr>seq_st := DONE\<rparr>) p s)"
      using p(3-5) by (intro stepping_finish [OF st e d _ p(2)]) (simp_all add: is_done_def)
    then have "stepping now (finish_seq ?a ?q ?s1)"
      by (rule stepping_cong [THEN iffD2, rotated 7]) (simp_all add: finish_seq_def store_def)
    with True show ?thesis by simp
  next
    case False
    then have "seq_ok ?q" using q(2) cast by (auto simp: finished_def seq_ok_def)
    then have "stepping now (put ?a ?q p s)"
      using q(3) p(3-5) by (intro stepping_put [OF st e q(1) _ _ _ p(2)]) (simp_all add: run_ok_def)
    then have "stepping now ?s1" by (rule stepping_cong [THEN iffD2, rotated 7]) simp_all
    with False show ?thesis by simp
  qed
  moreover have "frame {?a} s ?s'" using p(3) by (simp add: frame_def finish_seq_def store_def)
  ultimately show ?thesis using p(1) by (auto simp: Let_def)
qed

lemma complete_entries_ok:
  assumes "stepping now s" and "distinct (map be_seq es)" and "\<forall>e\<in>set es. entry_ok s e"
    and "distinct (sc_running s)" and "ts \<noteq> 0" and "now - ts \<le> 30000000"
  shows "\<exists>s'. complete_entries ts toks es i s = Inr s' \<and> stepping now s' \<and>
    frame (be_seq ` set es) s s'"
  using assms(1-4)
proof (induction es arbitrary: s i)
  case Nil
  then show ?case by (simp add: frame_refl)
next
  case (Cons e es)
  have e: "entry_ok s e" using Cons.prems(3) by simp
  have "\<exists>s1 j. complete_entries ts toks (e # es) i s = complete_entries ts toks es j s1 \<and>
      stepping now s1 \<and> frame {be_seq e} s s1"
  proof (cases "be_is_prefill e")
    case True
    from complete_prefill_ok [OF Cons.prems(1) e True] obtain s1 where
      "complete_prefill e s = Inr s1" "stepping now s1" "frame {be_seq e} s s1" by blast
    with True show ?thesis by (intro exI [of _ s1] exI [of _ i]) simp
  next
    case False
    define b where "b \<longleftrightarrow> int i < cast_int (length toks)"
    from complete_decode_ok [OF Cons.prems(1) e False Cons.prems(4) assms(5,6)] obtain s1 where
      "complete_decode ts e (if b then toks ! i else 0) s = Inr s1" "stepping now s1"
      "frame {be_seq e} s s1" by blast
    with False show ?thesis
      by (intro exI [of _ s1] exI [of _ "if b then i + 1 else i"]) (simp add: b_def split: if_splits)
  qed
  then obtain s1 j where
    s1: "complete_entries ts toks (e # es) i s = complete_entries ts toks es j s1"
      "stepping now s1" "frame {be_seq e} s s1" by blast
  have "\<forall>x\<in>set es. entry_ok s1 x"
  proof
    fix x assume x: "x \<in> set es"
    then have "be_seq x \<noteq> be_seq e" using Cons.prems(2) by (auto simp: image_iff)
    with x Cons.prems(3) entry_ok_frame [OF s1(3), of x] show "entry_ok s1 x" by simp
  qed
  moreover have "distinct (sc_running s1)" using Cons.prems(4) s1(3) by (simp add: frame_def)
  ultimately obtain s2 where "complete_entries ts toks es j s1 = Inr s2" "stepping now s2"
      "frame (be_seq ` set es) s1 s2"
    using Cons.IH [OF s1(2), of j] Cons.prems(2) by auto
  moreover from this(3) have "frame (be_seq ` set (e # es)) s s2"
    by (rule frame_trans [OF s1(3)]) auto
  ultimately show ?case using s1(1) by simp
qed

lemma step_complete_ok:
  assumes inv: "sched_inv s" and d: "distinct (map be_seq (sb_entries b))"
    and ok: "\<forall>e\<in>set (sb_entries b). entry_ok s e" and fr: "kv_fresh now s"
    and ts: "ts \<noteq> 0" "now - ts \<le> 30000000"
  shows "\<exists>s1 p. complete_entries ts toks (sb_entries b) 0 s = Inr s1 \<and> sched_inv (purge s1) \<and>
    frame (be_seq ` set (sb_entries b)) s s1 \<and>
    step_complete ts now b toks s = Inr ((purge s1)\<lparr>sc_kv_pool := p\<rparr>) \<and>
    fast_avail p = fast_avail (sc_kv_pool s1) \<union> fast_stale_pages now 30000 (sc_kv_pool s1) \<and>
    fast_touched 0 (fast_stale_pages now 30000 (sc_kv_pool s1)) (sc_kv_pool s1) p \<and>
    fast_universe p = fast_universe (sc_kv_pool s) \<and>
    sched_inv ((purge s1)\<lparr>sc_kv_pool := p\<rparr>)"
proof -
  have "stepping now s" using inv fr by (simp add: stepping_def purge_id)
  from complete_entries_ok [OF this d ok sched_invD(5) [OF inv] ts] obtain s1 where
    s1: "complete_entries ts toks (sb_entries b) 0 s = Inr s1" "stepping now s1"
      "frame (be_seq ` set (sb_entries b)) s s1" by blast
  have inv1: "sched_inv (purge s1)" and fr1: "kv_fresh now (purge s1)"
    using s1(2) by (simp_all add: stepping_def)
  have "\<exists>q. sc_heap s1 a = Some q" if "a \<in> set (sc_running s1)" for a
  proof (cases "done_at s1 a")
    case True
    then show ?thesis by (auto simp: done_at_def split: option.splits)
  next
    case False
    with purge_running [OF that] sched_inv_cell [OF inv1, of a] show ?thesis
      by (auto simp: queued_def)
  qed
  moreover have "distinct (sc_running s1)" using sched_invD(5) [OF inv] s1(3) by (simp add: frame_def)
  ultimately have rd: "remove_done (sc_running s1) s1 =
      Inr (sc_running (purge s1), s1\<lparr>sc_heap := sc_heap (purge s1)\<rparr>)"
    using remove_done_ok [of "sc_running s1" s1] by (simp add: purge_def)
  have live: "fast_live (sc_kv_pool s1)" using sched_invD(2) [OF inv1] by simp
  from fast_leak_scan_ok [OF live, of now 30000] obtain p c where
    p: "fast_leak_scan now 30000 (sc_kv_pool s1) = Inr (c, p)" "fast_live p"
      "fast_universe p = fast_universe (sc_kv_pool s1)"
      "fast_avail p = fast_avail (sc_kv_pool s1) \<union> fast_stale_pages now 30000 (sc_kv_pool s1)"
      "fast_touched 0 (fast_stale_pages now 30000 (sc_kv_pool s1)) (sc_kv_pool s1) p"
    by blast
  have "step_complete ts now b toks s = Inr ((purge s1)\<lparr>sc_kv_pool := p\<rparr>)"
    using s1(1) rd p(1) by (simp add: step_complete_def purge_def)
  moreover have "owns (fast_universe p) (fast_avail p) (queued (purge s1)) (held (purge s1))"
    using sched_invD(11) [OF inv1] fr1 unfolding kv_owned_def kv_fresh_def owns_def p(3,4) by auto
  then have "sched_inv ((purge s1)\<lparr>sc_kv_pool := p\<rparr>)"
    using inv1 p(2) by (simp add: sched_inv_def kv_owned_def queued_def slot_ok_def held_def owns_def)
  moreover have "fast_universe p = fast_universe (sc_kv_pool s)" using s1(3) p(3) by (simp add: frame_def)
  ultimately show ?thesis using s1 inv1 p(4,5) by blast
qed


section \<open>Construction and requests\<close>

lemma sched_ctor_inv:
  assumes "cfg_ok cfg" and "\<And>i n. fst (malloc i n) = 0" and "sched_ctor malloc cfg = Inr s"
    and "max_pages_total cfg < 2 ^ 31"
  shows "sched_inv s"
proof -
  from assms(3) obtain pb pool where
    p: "fast_ctor malloc (nat (max_pages_total cfg)) pb 16 = Inr pool" "0 \<le> max_pages_total cfg"
    and s: "s = \<lparr>sc_cfg = cfg, sc_kv_pool = pool, sc_waiting = [], sc_running = [],
          sc_swapped = [], sc_next_id = 0, sc_total_requests = 0, sc_completed = 0,
          sc_preemptions = 0, sc_tokens_generated = 0, sc_heap = (\<lambda>_. None), sc_brk = 0,
          sc_has_cb = False, sc_log = []\<rparr>"
    by (auto simp: sched_ctor_def rbind_Inr_iff split: if_splits)
  have "nat (max_pages_total cfg) < 2 ^ 31" using assms(4) by simp
  with fast_ctor_ok [of "nat (max_pages_total cfg)" malloc pb 16] p(1) assms(2)
  have "fast_live pool" by auto
  with assms(1) s show ?thesis
    by (simp add: sched_inv_def queued_def kv_owned_def owns_def)
qed

lemma add_request_cases:
  fixes now :: u64 and prompt :: "int list" and max_new :: int and temp :: u32 and eos :: int
  assumes inv: "sched_inv s"
  defines "r \<equiv> add_request now prompt max_new temp eos s"
  shows "if int (length (sc_waiting s)) \<ge> max_waiting_seqs (sc_cfg s)
    then fst r = Inl (Runtime_error ''Scheduler waiting queue full'') \<and>
      snd r = s\<lparr>sc_next_id := sc_next_id s + 1, sc_total_requests := sc_total_requests s + 1\<rparr>
    else fst r = Inr (sint (sc_next_id s)) \<and> sc_waiting (snd r) = sc_waiting s @ [sc_brk s] \<and>
      sc_running (snd r) = sc_running s \<and> sc_kv_pool (snd r) = sc_kv_pool s \<and>
      sc_cfg (snd r) = sc_cfg s \<and> sc_swapped (snd r) = sc_swapped s \<and> sc_brk (snd r) = sc_brk s + 1 \<and>
      sc_heap (snd r) = (sc_heap s)(sc_brk s \<mapsto>
        new_sequence (sc_cfg s) (sint (sc_next_id s)) prompt max_new temp eos now)"
  using inv unfolding r_def by (simp add: add_request_def Let_def store_def)

lemma add_request_inv:
  assumes inv: "sched_inv s" and fits: "request_fits prompt max_new"
  shows "sched_inv (snd (add_request now prompt max_new temp eos s))"
proof (cases "int (length (sc_waiting s)) \<ge> max_waiting_seqs (sc_cfg s)")
  case True
  with add_request_cases [OF inv, of now prompt max_new temp eos] inv show ?thesis
    by (simp add: sched_inv_def queued_def slot_ok_def kv_owned_def owns_def held_def)
next
  case False
  let ?s = "snd (add_request now prompt max_new temp eos s)" and ?a = "sc_brk s"
  let ?q = "new_sequence (sc_cfg s) (sint (sc_next_id s)) prompt max_new temp eos now"
  note i = sched_invD [OF inv]
  have f: "sc_waiting ?s = sc_waiting s @ [?a]" "sc_running ?s = sc_running s"
      "sc_kv_pool ?s = sc_kv_pool s" "sc_cfg ?s = sc_cfg s" "sc_swapped ?s = sc_swapped s"
      "sc_brk ?s = ?a + 1" "sc_heap ?s = (sc_heap s)(?a \<mapsto> ?q)"
    using add_request_cases [OF inv, of now prompt max_new temp eos] False by simp_all
  have new: "?a \<notin> queued s" using i(9) [of ?a] i(10) [of ?a] by auto
  have K: "queued ?s = insert ?a (queued s)" by (auto simp: queued_def f)
  have H: "held ?s = (held s)(?a := [])" by (auto simp: held_def f new_sequence_def fun_eq_iff)
  have "owns (fast_universe (sc_kv_pool s)) (fast_avail (sc_kv_pool s)) (insert ?a (queued s))
      ((held s)(?a := []))"
    by (rule owns_insert_empty) (rule i(11) [unfolded kv_owned_def])
  then have own: "kv_owned ?s" by (simp add: kv_owned_def K H f)
  have "slot_ok ?s ?a ?q"
    using fits new by (simp add: slot_ok_def seq_ok_def new_sequence_def f queued_def)
  then have cells: "\<exists>q. sc_heap ?s x = Some q \<and> slot_ok ?s x q" if "x \<in> queued ?s" for x
    using that i(10) [of x] new by (auto simp: K f slot_ok_def)
  have "distinct (sc_waiting ?s @ sc_running ?s)" using i(4,5,6) new by (auto simp: f queued_def)
  moreover have "int (length (sc_waiting ?s)) \<le> max 0 (max_waiting_seqs (sc_cfg ?s))"
    using False by (simp add: f)
  ultimately show ?thesis
    unfolding sched_inv_def using i(1,2,3,8,9) own cells by (simp add: f)
qed

lemma add_request_entry:
  assumes inv: "sched_inv s" and "entry_ok s e"
  shows "entry_ok (snd (add_request now prompt max_new temp eos s)) e"
proof -
  have "be_seq e \<noteq> sc_brk s" using assms(2) sched_invD(9) [OF inv, of "sc_brk s"] by (auto simp: entry_ok_def)
  with assms(2) add_request_cases [OF inv, of now prompt max_new temp eos] show ?thesis
    by (auto simp: entry_ok_def split: if_splits)
qed

end
