(* ===== verification/Scheduler_Properties.thy ===== *)
theory Scheduler_Properties
  imports Scheduler
begin

text \<open>
  The promises of the scheduler, over the model of the theory Scheduler: what one call of
  \<open>schedule\<close> returns, what every reachable state satisfies, the error and cancellation paths,
  and the ways in which a request or its pages are lost.
\<close>

section \<open>Reachable states\<close>

text \<open>
  A client calls \<open>schedule\<close>, runs the batch and reports it with \<open>step_complete\<close>. The second
  component is the batch not yet reported; \<open>abort_request\<close> is called while there is none.
  A report comes while the pages of every queued sequence are younger than the 30 s limit of
  the leak scan.
\<close>

inductive sched_reach :: "scheduler \<Rightarrow> scheduled_batch option \<Rightarrow> bool" where
  reach_ctor: "cfg_ok cfg \<Longrightarrow> (\<And>i n. fst (malloc i n) = 0) \<Longrightarrow> max_pages_total cfg < 2 ^ 31 \<Longrightarrow>
    sched_ctor malloc cfg = Inr s \<Longrightarrow> sched_reach s None"
| reach_callback: "sched_reach s b \<Longrightarrow> sched_reach (set_completion_callback s) b"
| reach_add: "sched_reach s b \<Longrightarrow> request_fits prompt max_new \<Longrightarrow>
    sched_reach (snd (add_request now prompt max_new temp eos s)) b"
| reach_abort: "sched_reach s None \<Longrightarrow> abort_request sid s = Inr s' \<Longrightarrow> sched_reach s' None"
| reach_schedule: "sched_reach s b \<Longrightarrow> ts \<noteq> 0 \<Longrightarrow> schedule ts s = Inr (bt, s') \<Longrightarrow>
    sched_reach s' (Some bt)"
| reach_step: "sched_reach s (Some bt) \<Longrightarrow> kv_fresh now s \<Longrightarrow> ts \<noteq> 0 \<Longrightarrow> now - ts \<le> 30000000 \<Longrightarrow>
    step_complete ts now bt toks s = Inr s' \<Longrightarrow> sched_reach s' None"

definition pending_ok :: "scheduler \<Rightarrow> scheduled_batch option \<Rightarrow> bool" where
  "pending_ok s b \<longleftrightarrow> (case b of None \<Rightarrow> True
     | Some bt \<Rightarrow> distinct (map be_seq (sb_entries bt)) \<and> list_all (entry_ok s) (sb_entries bt))"

lemma building_pending: "building [] [] budget b s \<Longrightarrow> pending_ok s (Some b)"
  by (auto simp: pending_ok_def building_def list_all_iff)

lemma sched_reach_inv: "sched_reach s b \<Longrightarrow> sched_inv s \<and> pending_ok s b"
proof (induction rule: sched_reach.induct)
  case (reach_ctor cfg malloc s)
  then show ?case using sched_ctor_inv [of cfg malloc s] by (simp add: pending_ok_def)
next
  case (reach_callback s b)
  have "sched_inv (set_completion_callback s) = sched_inv s"
    by (rule sched_inv_cong) (simp_all add: set_completion_callback_def)
  moreover have "frame {} s (set_completion_callback s)"
    by (simp add: frame_def set_completion_callback_def)
  ultimately show ?case using reach_callback
    by (simp add: pending_ok_def entry_ok_frame list_all_iff split: option.splits)
next
  case (reach_add s b prompt max_new now temp eos)
  then show ?case
    using add_request_inv add_request_entry
    by (auto simp: pending_ok_def list_all_iff split: option.splits)
next
  case (reach_abort s sid s')
  then show ?case
    by (metis abort_request_ok pending_ok_def option.simps(4) Inr_inject)
next
  case (reach_schedule s b ts bt s')
  then show ?case
    using schedule_ok [of s ts] building_pending buildingD(1) by fastforce
next
  case (reach_step s bt now ts toks s')
  then have d: "distinct (map be_seq (sb_entries bt))" "\<forall>e\<in>set (sb_entries bt). entry_ok s e"
    by (simp_all add: pending_ok_def list_all_iff)
  from step_complete_ok [OF _ d reach_step.hyps(2-4), of toks] reach_step show ?case
    by (auto simp: pending_ok_def)
qed

section \<open>Safety\<close>


definition demo_cfg :: scheduler_config where
  "demo_cfg = \<lparr>kv_page_size_tokens = 4, max_pages_total = 7, cfg_page_bytes = 64,
     max_batch_tokens = 16, max_seqs_running = 2, max_waiting_seqs = 2,
     enable_chunked_prefill = True, max_prefill_tokens_per_step = 16,
     cfg_preempt_mode = RECOMPUTE, cfg_policy = FCFS\<rparr>"

definition demo_malloc :: "nat \<Rightarrow> nat \<Rightarrow> int \<times> nat option" where
  "demo_malloc i n = (0, Some i)"

lemma demo_ctor: "\<exists>s. sched_ctor demo_malloc demo_cfg = Inr s \<and> sched_reach s None \<and>
    sc_cfg s = demo_cfg \<and> sc_waiting s = [] \<and> sc_running s = [] \<and> sc_next_id s = 0 \<and>
    sc_brk s = 0 \<and> sc_heap s = (\<lambda>_. None) \<and> fast_avail (sc_kv_pool s) = {0..<7} \<and>
    fast_universe (sc_kv_pool s) = {0..<7}"
proof -
  from fast_ctor_ok [of 7 demo_malloc 64 16] obtain p where
    "fast_ctor demo_malloc 7 64 16 = Inr p" "fast_avail p = {0..<7}" "fast_universe p = {0..<7}"
    by (auto simp: demo_malloc_def)
  then obtain s where s: "sched_ctor demo_malloc demo_cfg = Inr s" "sc_cfg s = demo_cfg"
      "sc_waiting s = []" "sc_running s = []" "sc_next_id s = 0" "sc_brk s = 0"
      "sc_heap s = (\<lambda>_. None)" "fast_avail (sc_kv_pool s) = {0..<7}"
      "fast_universe (sc_kv_pool s) = {0..<7}"
    by (simp add: sched_ctor_def demo_cfg_def)
  moreover have "sched_reach s None"
    by (rule reach_ctor [OF _ _ _ s(1)]) (simp_all add: cfg_ok_def demo_cfg_def demo_malloc_def)
  ultimately show ?thesis by blast
qed



section \<open>One scheduling step\<close>

text \<open>
  C10: \<open>schedule\<close> returns a batch whose \<open>total_tokens\<close> is the sum over its entries and never
  exceeds \<open>max_batch_tokens\<close>, whose counters count its prefill and decode entries, and in which
  no sequence occurs twice. Every entry is of a running sequence that owns enough KV pages for
  all its tokens including the scheduled ones; a prefill chunk starts at the cursor, stays
  inside the prompt and within \<open>max_prefill_tokens_per_step\<close>; a decode entry is one token.
\<close>

theorem schedule_spec:
  assumes "sched_inv s" and "ts \<noteq> 0"
  shows "\<exists>b s'. schedule ts s = Inr (b, s') \<and> sched_inv s' \<and>
    sb_total_tokens b = sum_list (map be_n_tokens (sb_entries b)) \<and>
    sb_total_tokens b \<le> max 0 (max_batch_tokens (sc_cfg s)) \<and>
    sb_n_prefill b = int (length (filter be_is_prefill (sb_entries b))) \<and>
    sb_n_decode b = int (length (filter (\<lambda>e. \<not> be_is_prefill e) (sb_entries b))) \<and>
    distinct (map be_seq (sb_entries b)) \<and> list_all (entry_ok s') (sb_entries b)"
proof -
  from schedule_ok [OF assms] obtain budget b s' where
    s': "schedule ts s = Inr (b, s')" "building [] [] budget b s'" "sc_cfg s' = sc_cfg s"
    by blast
  have "sb_total_tokens b \<le> max 0 (max_batch_tokens (sc_cfg s))"
    using s'(2,3) by (auto simp: building_def batch_counts_def)
  with s' show ?thesis
    by (intro exI [of _ b] exI [of _ s']) (auto simp: building_def batch_counts_def list_all_iff)
qed

lemma demo_request:
  assumes "request_fits prompt max_new"
  obtains s s' where "sched_ctor demo_malloc demo_cfg = Inr s"
    "s' = snd (add_request 1 prompt max_new 0 (-1) s)" "sched_reach s' None" "sched_inv s'"
    "sc_cfg s' = demo_cfg" "sc_waiting s' = [0]" "sc_running s' = []"
proof -
  obtain s where s: "sched_ctor demo_malloc demo_cfg = Inr s" "sched_reach s None" "sc_cfg s = demo_cfg"
      "sc_waiting s = []" "sc_running s = []" "sc_brk s = 0"
    using demo_ctor by blast
  let ?s = "snd (add_request 1 prompt max_new 0 (-1) s)"
  have r: "sched_reach ?s None" by (rule reach_add [OF s(2) assms])
  show thesis
    using s sched_reach_inv [OF r] r
    by (intro that [OF s(1) refl]) (simp_all add: add_request_def Let_def store_def demo_cfg_def)
qed

theorem schedule_spec_witness:
  "\<exists>s b s'. schedule 1 s = Inr (b, s') \<and> sc_waiting s = [0] \<and> sb_total_tokens b \<le> 16"
proof -
  obtain s where s: "sched_inv s" "sc_cfg s = demo_cfg" "sc_waiting s = [0]"
    by (rule demo_request [of "[5, 6, 7]" 2]) (simp_all add: request_fits_def)
  from schedule_spec [OF s(1), of 1] s show ?thesis by (auto simp: demo_cfg_def)
qed

text \<open>
  Promotion is first come, first served: \<open>schedule\<close> moves a prefix of \<open>waiting_\<close>, in
  order, to the end of \<open>running_\<close> and leaves the rest of the queue as it was.
\<close>

lemma schedule_fcfs:
  assumes "sched_inv s" and "ts \<noteq> 0" and "schedule ts s = Inr (b, s')"
  shows "\<exists>k. sc_waiting s' = drop k (sc_waiting s) \<and> sc_running s' = sc_running s @ take k (sc_waiting s)"
  using schedule_ok [OF assms(1,2)] assms(3) by auto

lemma step_complete_running:
  assumes "sched_inv s" and "pending_ok s (Some b)" and "kv_fresh now s"
    and "ts \<noteq> 0" and "now - ts \<le> 30000000" and "step_complete ts now b toks s = Inr s'"
  shows "\<exists>P. sc_running s' = filter P (sc_running s)" and "sc_waiting s' = sc_waiting s"
proof -
  have d: "distinct (map be_seq (sb_entries b))" "\<forall>e\<in>set (sb_entries b). entry_ok s e"
    using assms(2) by (simp_all add: pending_ok_def list_all_iff)
  from step_complete_ok [OF assms(1) d assms(3-5), of toks] assms(6) obtain s1 p where
    "frame (be_seq ` set (sb_entries b)) s s1" "s' = (purge s1)\<lparr>sc_kv_pool := p\<rparr>" by auto
  then show "\<exists>P. sc_running s' = filter P (sc_running s)" "sc_waiting s' = sc_waiting s"
    by (auto simp: frame_def purge_def)
qed

lemma abort_in_queues:
  assumes "sched_inv s" and "is_queue get upd" and "abort_in get upd sid s = Inr s'"
  shows "\<exists>P. sc_running s' = filter P (sc_running s) \<and> sc_waiting s' = filter P (sc_waiting s)"
proof (cases "List.find (\<lambda>a. seq_id (the (sc_heap s a)) = sid) (get s)")
  case None
  with abort_in_none [OF assms(1,2)] assms(3) show ?thesis by (intro exI [of _ "\<lambda>_. True"]) simp
next
  case (Some a)
  from abort_in_some [OF assms(1,2) this] assms(3) obtain p where "s' = dropped a p s" by auto
  then show ?thesis using sched_invD(4,5) [OF assms(1)]
    by (intro exI [of _ "\<lambda>x. x \<noteq> a"]) (simp add: dropped_def distinct_remove1_removeAll removeAll_filter_not_eq eq_commute)
qed




section \<open>Requests and cancellation\<close>

text \<open>
  \<open>add_request\<close> appends a fresh WAITING sequence without pages at the end of the queue and
  returns its id; when the queue is full it throws and changes nothing but the two counters,
  which it had advanced before looking at the queue. The invariant is kept either way.
\<close>

theorem add_request_spec:
  assumes "sched_inv s" and "request_fits prompt max_new"
    and "add_request now prompt max_new temp eos s = (r, s')"
  shows "sched_inv s' \<and>
    (if int (length (sc_waiting s)) < max_waiting_seqs (sc_cfg s)
     then r = Inr (sint (sc_next_id s)) \<and> sc_waiting s' = sc_waiting s @ [sc_brk s] \<and>
       sc_heap s (sc_brk s) = None \<and> held s' (sc_brk s) = [] \<and>
       map_option seq_st (sc_heap s' (sc_brk s)) = Some WAITING \<and>
       (\<forall>a. a \<noteq> sc_brk s \<longrightarrow> sc_heap s' a = sc_heap s a)
     else r = Inl (Runtime_error ''Scheduler waiting queue full'') \<and>
       s' = s\<lparr>sc_next_id := sc_next_id s + 1, sc_total_requests := sc_total_requests s + 1\<rparr>)"
proof -
  have e: "r = fst (add_request now prompt max_new temp eos s)"
    "s' = snd (add_request now prompt max_new temp eos s)" using assms(3) by simp_all
  show ?thesis
    using add_request_inv [OF assms(1,2), of now temp eos] sched_invD(9) [OF assms(1), of "sc_brk s"]
      add_request_cases [OF assms(1), of now prompt max_new temp eos, folded e]
    unfolding e [symmetric]
    by (auto simp: held_def new_sequence_def split: if_splits)
qed

theorem add_request_spec_witness:
  "\<exists>s r s'. add_request 1 [5, 6, 7] 2 0 (-1) s = (r, s') \<and> r = Inr 0 \<and> sc_waiting s' = [0]"
proof -
  obtain s where s: "sched_reach s None" "sc_cfg s = demo_cfg" "sc_waiting s = []" "sc_brk s = 0"
      "sc_next_id s = 0"
    using demo_ctor by blast
  have inv: "sched_inv s" using sched_reach_inv [OF s(1)] by simp
  obtain r s' where rs: "add_request 1 [5, 6, 7] 2 0 (-1) s = (r, s')" by fastforce
  from add_request_spec [OF inv _ rs] s rs show ?thesis
    by (auto simp: request_fits_def demo_cfg_def)
qed

text \<open>
  C14: \<open>abort_request\<close> of a queued sequence frees exactly its KV pages, removes it from the
  queue it is in, keeps the order of all others and destroys it. An unknown id changes nothing.
\<close>

theorem abort_request_spec:
  assumes "sched_inv s"
    and "\<forall>a\<in>queued s. \<forall>b\<in>queued s. map_option seq_id (sc_heap s a) = map_option seq_id (sc_heap s b) \<longrightarrow> a = b"
  shows "\<exists>s'. abort_request sid s = Inr s' \<and> sched_inv s' \<and>
    (if \<exists>a\<in>queued s. map_option seq_id (sc_heap s a) = Some sid
     then \<exists>a\<in>queued s. map_option seq_id (sc_heap s a) = Some sid \<and>
       sc_heap s' = (sc_heap s)(a := None) \<and> queued s' = queued s - {a} \<and>
       sc_waiting s' = remove1 a (sc_waiting s) \<and> sc_running s' = remove1 a (sc_running s) \<and>
       fast_avail (sc_kv_pool s') = fast_avail (sc_kv_pool s) \<union> set (held s a)
     else s' = s)"
proof (cases "\<exists>a\<in>queued s. map_option seq_id (sc_heap s a) = Some sid")
  case True
  then obtain a q where a: "a \<in> queued s" "sc_heap s a = Some q" "seq_id q = sid" by auto
  have u: "b = a" if "b \<in> queued s" "sc_heap s b = Some r" "seq_id r = sid" for b r
    using assms(2) a that by (metis option.simps(9))
  obtain p where
    p: "abort_request sid s = Inr (dropped a p s)" "sched_inv (dropped a p s)"
      "fast_avail p = fast_avail (sc_kv_pool s) \<union> set (held s a)"
    using abort_request_unique [OF assms(1) a] u by blast
  have "\<exists>a\<in>queued s. map_option seq_id (sc_heap s a) = Some sid \<and>
      sc_heap (dropped a' p s) = (sc_heap s)(a := None) \<and> queued (dropped a' p s) = queued s - {a} \<and>
      sc_waiting (dropped a' p s) = remove1 a (sc_waiting s) \<and>
      sc_running (dropped a' p s) = remove1 a (sc_running s) \<and>
      fast_avail (sc_kv_pool (dropped a' p s)) = fast_avail (sc_kv_pool s) \<union> set (held s a)"
    if "a' = a" for a'
    using a p(3) queued_dropped [OF assms(1), of a p] that
    by (intro bexI [OF _ a(1)]) (simp add: dropped_def)
  with p(1,2) True show ?thesis by auto
next
  case False
  have none: "List.find (\<lambda>a. seq_id (the (sc_heap s a)) = sid) as = None" if "set as \<subseteq> queued s" for as
    using that False sched_invD(10) [OF assms(1)] by (fastforce intro: find_none)
  have "abort_in sc_waiting sc_waiting_update sid s = Inr s"
    "abort_in sc_running sc_running_update sid s = Inr s"
    by (rule abort_in_none [OF assms(1) is_queue_waiting none] abort_in_none [OF assms(1) is_queue_running none],
        simp add: queued_def)+
  moreover have "abort_in sc_swapped sc_swapped_update sid s = Inr s"
    using sched_invD(3) [OF assms(1)] by (simp add: abort_in_def)
  ultimately have "abort_request sid s = Inr s" by (simp add: abort_request_def)
  with False assms(1) show ?thesis by auto
qed

theorem abort_request_spec_witness:
  "\<exists>s s'. sc_waiting s = [0] \<and> abort_request 7 s = Inr s' \<and> sched_inv s'"
proof -
  obtain s where s: "sched_inv s" "sc_waiting s = [0]" "sc_running s = []"
    by (rule demo_request [of "[5, 6, 7]" 2]) (simp_all add: request_fits_def)
  from abort_request_spec [OF s(1), of 7] s show ?thesis by (auto simp: queued_def)
qed


section \<open>Lost requests and lost pages\<close>

text \<open>Any number of rounds of scheduling and reporting, with requests arriving in between.\<close>

inductive rounds :: "scheduler \<Rightarrow> scheduler \<Rightarrow> bool" for s :: scheduler where
  rounds_refl: "rounds s s"
| rounds_add: "rounds s s1 \<Longrightarrow> request_fits prompt max_new \<Longrightarrow>
    rounds s (snd (add_request now prompt max_new temp eos s1))"
| rounds_step: "rounds s s1 \<Longrightarrow> ts \<noteq> 0 \<Longrightarrow> schedule ts s1 = Inr (b, s2) \<Longrightarrow>
    kv_fresh now s2 \<Longrightarrow> ts' \<noteq> 0 \<Longrightarrow> now - ts' \<le> 30000000 \<Longrightarrow>
    step_complete ts' now b toks s2 = Inr s3 \<Longrightarrow> rounds s s3"

lemma step_complete_frame:
  assumes "sched_inv s" and "pending_ok s (Some b)" and "kv_fresh now s"
    and "ts \<noteq> 0" and "now - ts \<le> 30000000" and "step_complete ts now b toks s = Inr s'"
  shows "sched_inv s'" and "sc_cfg s' = sc_cfg s" and "sc_waiting s' = sc_waiting s"
    and "set (sc_running s') \<subseteq> set (sc_running s)"
    and "fast_universe (sc_kv_pool s') = fast_universe (sc_kv_pool s)"
    and "a \<in> queued s \<Longrightarrow> a \<notin> be_seq ` set (sb_entries b) \<Longrightarrow>
      sc_heap s' a = sc_heap s a \<and> (a \<in> set (sc_running s) \<longrightarrow> a \<in> set (sc_running s'))"
proof -
  have d: "distinct (map be_seq (sb_entries b))" "\<forall>e\<in>set (sb_entries b). entry_ok s e"
    using assms(2) by (simp_all add: pending_ok_def list_all_iff)
  from step_complete_ok [OF assms(1) d assms(3-5), of toks] assms(6) obtain s1 p where
    s1: "frame (be_seq ` set (sb_entries b)) s s1" "s' = (purge s1)\<lparr>sc_kv_pool := p\<rparr>"
      "sched_inv ((purge s1)\<lparr>sc_kv_pool := p\<rparr>)" "fast_universe p = fast_universe (sc_kv_pool s)"
    by auto
  then show "sched_inv s'" "sc_cfg s' = sc_cfg s" "sc_waiting s' = sc_waiting s"
    "set (sc_running s') \<subseteq> set (sc_running s)" "fast_universe (sc_kv_pool s') = fast_universe (sc_kv_pool s)"
    by (auto simp: frame_def purge_def)
  assume a: "a \<in> queued s" "a \<notin> be_seq ` set (sb_entries b)"
  have h: "set (sc_running s1) = set (sc_running s)" "sc_heap s1 a = sc_heap s a"
    using s1(1) a(2) by (simp_all add: frame_def)
  obtain q where "sc_heap s a = Some q" "slot_ok s a q" using sched_inv_cell [OF assms(1) a(1)] by blast
  then have "\<not> done_at s1 a"
    using h(2) a(1) by (auto simp: done_at_def is_done_def slot_ok_def run_ok_def queued_def)
  then show "sc_heap s' a = sc_heap s a \<and> (a \<in> set (sc_running s) \<longrightarrow> a \<in> set (sc_running s'))"
    using h s1(2) by (simp add: purge_def)
qed

text \<open>
  C15: a preempted sequence is set back to WAITING but left in \<open>running_\<close>, where only PREFILL and
  DECODE sequences are scheduled and from where nothing is promoted. Whatever the following
  rounds do, it stays there unchanged and never gets a token; it also keeps its place among the
  \<open>max_seqs_running\<close>. The header of the scheduler says that it is queued again for a retry.
\<close>

theorem preempted_starves:
  assumes "rounds s s'" and "sched_inv s" and "a \<in> set (sc_running s)"
    and "sc_heap s a = Some q" and "seq_st q = WAITING"
  shows "a \<in> set (sc_running s') \<and> sc_heap s' a = Some q"
proof -
  have "sched_inv s' \<and> a \<in> set (sc_running s') \<and> sc_heap s' a = Some q"
    using assms(1)
  proof (induction rule: rounds.induct)
    case rounds_refl
    then show ?case using assms by simp
  next
    case (rounds_add s1 prompt max_new now temp eos)
    then have "a \<noteq> sc_brk s1" using sched_invD(9) [of s1 "sc_brk s1"] by auto
    with rounds_add add_request_inv add_request_cases [of s1 now prompt max_new temp eos]
    show ?case by (auto split: if_splits)
  next
    case (rounds_step s1 ts b s2 now ts' toks s3)
    have inv: "sched_inv s1" and a: "a \<in> set (sc_running s1)" "sc_heap s1 a = Some q"
      using rounds_step.IH by auto
    from schedule_ok [OF inv rounds_step.hyps(2)] rounds_step.hyps(3) obtain budget k where
      b: "building [] [] budget b s2" "sc_running s2 = sc_running s1 @ take k (sc_waiting s1)"
        "\<forall>a\<in>set (sc_running s1). (\<forall>q. sc_heap s1 a = Some q \<longrightarrow> seq_st q \<notin> {PREFILL, DECODE}) \<longrightarrow>
          sc_heap s2 a = sc_heap s1 a \<and> a \<notin> be_seq ` set (sb_entries b)"
      by auto
    then have "sc_heap s2 a = Some q" "a \<notin> be_seq ` set (sb_entries b)" "a \<in> set (sc_running s2)"
      using a assms(5) by auto
    moreover note st = step_complete_frame [OF buildingD(1) [OF b(1)] building_pending [OF b(1)] rounds_step.hyps(4-7)]
    ultimately show ?case using st(1) st(6) [of a] by (simp add: queued_def)
  qed
  then show ?thesis by simp
qed


text \<open>
  A run that preempts: seven pages of four tokens, two prompts of seven tokens. The first
  sequence is prefilled and decoding when the second one asks for its fourth page.
\<close>

definition demo_two :: "scheduler res" where
  "demo_two = rbind (sched_ctor demo_malloc demo_cfg) (\<lambda>s.
     Inr (snd (add_request 1 [1, 2, 3, 4, 5, 6, 7] 2 0 (-1)
       (snd (add_request 1 [1, 2, 3, 4, 5, 6, 7] 2 0 (-1) s)))))"

definition demo_round :: "scheduler res" where
  "demo_round = rbind demo_two (\<lambda>s. rbind (schedule 1 s) (\<lambda>(b, s1). step_complete 1 1 b [] s1))"

definition demo_preempt :: "(scheduled_batch \<times> scheduler) res" where
  "demo_preempt = rbind demo_round (schedule 1)"

definition seq_states :: "scheduler \<Rightarrow> seq_state option list" where
  "seq_states s = map (\<lambda>a. map_option seq_st (sc_heap s a)) (sc_running s)"

definition unstale :: "u64 \<Rightarrow> scheduler \<Rightarrow> bool" where
  "unstale now s \<longleftrightarrow> list_all (\<lambda>m. \<not> fast_stale now 30000 m) (fp_meta (sc_kv_pool s))"

lemma unstale_fresh: "unstale now s \<Longrightarrow> kv_fresh now s"
  by (auto simp: unstale_def kv_fresh_def fast_stale_pages_def list_all_iff fast_universe_def
      dest!: in_range_nat)

lemma demo_two_reach: "\<exists>s. demo_two = Inr s \<and> sched_reach s None"
proof -
  obtain s where s: "sched_ctor demo_malloc demo_cfg = Inr s" "sched_reach s None"
    using demo_ctor by blast
  then show ?thesis
    by (auto simp: demo_two_def request_fits_def intro!: reach_add)
qed

lemma demo_fresh: "map_sum id (\<lambda>(b, s). unstale 1 s) (rbind demo_two (schedule 1)) = Inr True"
  by code_simp

lemma reach_schedule_ex:
  assumes "sched_reach s b" and "ts \<noteq> 0"
  obtains bt s' where "schedule ts s = Inr (bt, s')" "sched_reach s' (Some bt)"
  using schedule_ok [of s ts] sched_reach_inv [OF assms(1)] assms(2) reach_schedule [OF assms]
  by blast

lemma reach_step_ex:
  assumes "sched_reach s (Some bt)" and "unstale now s" and "ts \<noteq> 0" and "now - ts \<le> 30000000"
  obtains s' where "step_complete ts now bt toks s = Inr s'" "sched_reach s' None"
proof -
  have inv: "sched_inv s" and p: "pending_ok s (Some bt)" using sched_reach_inv [OF assms(1)] by auto
  have d: "distinct (map be_seq (sb_entries bt))" "\<forall>e\<in>set (sb_entries bt). entry_ok s e"
    using p by (simp_all add: pending_ok_def list_all_iff)
  from step_complete_ok [OF inv d unstale_fresh [OF assms(2)] assms(3,4), of toks] obtain s' where
    s': "step_complete ts now bt toks s = Inr s'" by blast
  show thesis by (rule that [OF s' reach_step [OF assms(1) unstale_fresh [OF assms(2)] assms(3,4) s']])
qed

lemma demo_round_reach: "\<exists>s. demo_round = Inr s \<and> sched_reach s None"
proof -
  obtain s where s: "demo_two = Inr s" "sched_reach s None" using demo_two_reach by blast
  obtain b s1 where s1: "schedule 1 s = Inr (b, s1)" "sched_reach s1 (Some b)"
    by (rule reach_schedule_ex [OF s(2), of 1]) simp_all
  have "rbind demo_two (schedule 1) = Inr (b, s1)" by (simp add: s s1)
  with demo_fresh have "unstale 1 s1" by simp
  obtain s2 where s2: "step_complete 1 1 b [] s1 = Inr s2" "sched_reach s2 None"
    by (rule reach_step_ex [OF s1(2) \<open>unstale 1 s1\<close>, of 1 "[]"]) simp_all
  have "demo_round = Inr s2" by (simp add: demo_round_def s(1) s1(1) s2(1))
  with s2(2) show ?thesis by blast
qed

lemma demo_preempt_reach:
  obtains b s where "demo_preempt = Inr (b, s)" "sched_reach s (Some b)"
proof -
  obtain s where s: "demo_round = Inr s" "sched_reach s None" using demo_round_reach by blast
  obtain b s1 where s1: "schedule 1 s = Inr (b, s1)" "sched_reach s1 (Some b)"
    by (rule reach_schedule_ex [OF s(2), of 1]) simp_all
  have "demo_preempt = Inr (b, s1)" by (simp add: demo_preempt_def s(1) s1(1))
  then show thesis using s1(2) by (rule that)
qed

lemma demo_preempt_states:
  "map_sum id (\<lambda>(b, s). (sc_running s, seq_states s)) demo_preempt =
    Inr ([0, 1], [Some WAITING, Some PREFILL])"
  by code_simp

theorem preempted_starves_witness:
  "\<exists>b s. demo_preempt = Inr (b, s) \<and> (\<forall>s'. rounds s s' \<longrightarrow> 0 \<in> set (sc_running s'))"
proof -
  obtain b s where s: "demo_preempt = Inr (b, s)" "sched_reach s (Some b)" by (rule demo_preempt_reach)
  have o: "sc_running s = [0, 1]" "seq_states s = [Some WAITING, Some PREFILL]"
    using demo_preempt_states by (simp_all add: s(1))
  then obtain q where q: "sc_heap s 0 = Some q" "seq_st q = WAITING" by (auto simp: seq_states_def)
  have "sched_inv s" using sched_reach_inv [OF s(2)] by simp
  from preempted_starves [OF _ this _ q] o s(1) show ?thesis by auto
qed



text \<open>A run to the first decode step: one request of three tokens and one new token.\<close>

definition demo_one :: "scheduler res" where
  "demo_one = rbind (sched_ctor demo_malloc demo_cfg) (\<lambda>s.
     Inr (set_completion_callback (snd (add_request 1 [1, 2, 3] 1 0 (-1) s))))"

definition demo_decode :: "(scheduled_batch \<times> scheduler) res" where
  "demo_decode = rbind demo_one (\<lambda>s. rbind (schedule 1 s) (\<lambda>(b, s1).
     rbind (step_complete 1 1 b [] s1) (schedule 1)))"

lemma demo_one_fresh: "map_sum id (\<lambda>(b, s). unstale 1 s) (rbind demo_one (schedule 1)) = Inr True"
  by code_simp

lemma demo_decode_obs:
  "map_sum id (\<lambda>(b, s). (sb_entries b, sc_waiting s, sc_running s, unstale 1 s,
      map_option (\<lambda>q. (seq_id q, output_tokens q, max_new_tokens q, kv_page_ids q)) (sc_heap s 0),
      map (\<lambda>m. fast_stale (2 ^ 40) 30000 m) (fp_meta (sc_kv_pool s)))) demo_decode =
    Inr ([\<lparr>be_seq = 0, be_n_tokens = 1, be_is_prefill = False, be_prefill_start = 0\<rparr>], [], [0], True,
      Some (0, [], 1, [0, 1]), [True, True, False, False, False, False, False])"
  by code_simp

lemma demo_decode_reach:
  obtains b s where "demo_decode = Inr (b, s)" "sched_reach s (Some b)"
proof -
  obtain s0 where s0: "sched_ctor demo_malloc demo_cfg = Inr s0" "sched_reach s0 None"
    using demo_ctor by blast
  let ?s = "set_completion_callback (snd (add_request 1 [1, 2, 3] 1 0 (-1) s0))"
  have s: "demo_one = Inr ?s" by (simp add: demo_one_def s0(1))
  have r: "sched_reach ?s None"
    by (intro reach_callback reach_add [OF s0(2)]) (simp add: request_fits_def)
  obtain b1 s1 where s1: "schedule 1 ?s = Inr (b1, s1)" "sched_reach s1 (Some b1)"
    by (rule reach_schedule_ex [OF r, of 1]) simp_all
  have "rbind demo_one (schedule 1) = Inr (b1, s1)" by (simp add: s s1)
  with demo_one_fresh have "unstale 1 s1" by simp
  obtain s2 where s2: "step_complete 1 1 b1 [] s1 = Inr s2" "sched_reach s2 None"
    by (rule reach_step_ex [OF s1(2) \<open>unstale 1 s1\<close>, of 1 "[]"]) simp_all
  obtain b3 s3 where s3: "schedule 1 s2 = Inr (b3, s3)" "sched_reach s3 (Some b3)"
    by (rule reach_schedule_ex [OF s2(2), of 1]) simp_all
  have "demo_decode = Inr (b3, s3)" by (simp add: demo_decode_def s s1(1) s2(1) s3(1))
  then show thesis using s3(2) by (rule that)
qed

lemma demo_decode_state:
  obtains b s q where "demo_decode = Inr (b, s)" "sched_inv s" "sc_waiting s = []" "sc_running s = [0]"
    "sb_entries b = [\<lparr>be_seq = 0, be_n_tokens = 1, be_is_prefill = False, be_prefill_start = 0\<rparr>]"
    "entry_ok s \<lparr>be_seq = 0, be_n_tokens = 1, be_is_prefill = False, be_prefill_start = 0\<rparr>"
    "unstale 1 s" "sc_heap s 0 = Some q" "seq_id q = 0" "output_tokens q = []" "max_new_tokens q = 1"
    "kv_page_ids q = [0, 1]"
    "map (\<lambda>m. fast_stale (2 ^ 40) 30000 m) (fp_meta (sc_kv_pool s)) =
      [True, True, False, False, False, False, False]"
proof -
  obtain b s where r: "demo_decode = Inr (b, s)" "sched_reach s (Some b)" by (rule demo_decode_reach)
  note o = demo_decode_obs [unfolded r(1), simplified]
  then obtain q where "sc_heap s 0 = Some q" by auto
  with o sched_reach_inv [OF r(2)] show thesis
    by (intro that [OF r(1)]) (auto simp: pending_ok_def)
qed





text \<open>
  C18: prefill never touches pages, so the leak scan at the end of \<open>step_complete\<close> can reclaim
  pages that a queued sequence still uses: a page untouched for more than 30 s becomes available
  while it stays in the sequence's \<open>kv_page_ids\<close>.
\<close>

theorem leak_scan_steals_live_page:
  assumes "sched_inv s" and "a \<in> queued s" and "x \<in> set (held s a)"
    and "x \<in> fast_stale_pages now 30000 (sc_kv_pool s)"
  shows "\<exists>s'. step_complete ts now empty_batch [] s = Inr s' \<and> a \<in> queued s' \<and>
    x \<in> set (held s' a) \<and> x \<in> fast_avail (sc_kv_pool s')"
proof -
  note i = sched_invD [OF assms(1)]
  have "\<exists>q. sc_heap s b = Some q" if "b \<in> set (sc_running s)" for b
    using i(10) [of b] that by (auto simp: queued_def)
  then have rd: "remove_done (sc_running s) s = Inr (sc_running s, s)"
    using remove_done_ok [OF i(5)] purge_id [OF assms(1)] running_not_done [OF assms(1)]
    by (auto simp: purge_def filter_id_conv cong: if_cong)
  from fast_leak_scan_ok [OF i(2), of now 30000] obtain p c where
    p: "fast_leak_scan now 30000 (sc_kv_pool s) = Inr (c, p)"
      "fast_avail p = fast_avail (sc_kv_pool s) \<union> fast_stale_pages now 30000 (sc_kv_pool s)"
    by blast
  have "step_complete ts now empty_batch [] s = Inr (s\<lparr>sc_kv_pool := p\<rparr>)"
    by (simp add: step_complete_def empty_batch_def rd p(1))
  moreover have "queued (s\<lparr>sc_kv_pool := p\<rparr>) = queued s" "held (s\<lparr>sc_kv_pool := p\<rparr>) = held s"
    by (simp_all add: queued_def held_def fun_eq_iff)
  ultimately show ?thesis using assms(2-4) p(2) by simp
qed

theorem leak_scan_steals_live_page_witness:
  "\<exists>b s s'. demo_decode = Inr (b, s) \<and> step_complete 1 (2 ^ 40) empty_batch [] s = Inr s' \<and>
    0 \<in> set (held s' 0) \<and> 0 \<in> fast_avail (sc_kv_pool s')"
proof -
  obtain b s q where s: "demo_decode = Inr (b, s)" "sched_inv s" "sc_running s = [0]"
    "sc_heap s 0 = Some q" "kv_page_ids q = [0, 1]"
    "map (\<lambda>m. fast_stale (2 ^ 40) 30000 m) (fp_meta (sc_kv_pool s)) =
      [True, True, False, False, False, False, False]"
    by (rule demo_decode_state)
  from s(6) obtain m ms where "fp_meta (sc_kv_pool s) = m # ms" "fast_stale (2 ^ 40) 30000 m"
    by (auto simp: Cons_eq_map_conv map_eq_Cons_conv)
  then have st: "0 \<in> fast_stale_pages (2 ^ 40) 30000 (sc_kv_pool s)"
    by (simp add: fast_stale_pages_def fast_universe_def in_range_def)
  have "0 \<in> queued s" "0 \<in> set (held s 0)" using s(3-5) by (simp_all add: queued_def held_def)
  from leak_scan_steals_live_page [OF s(2) this st, of 1] s(1) show ?thesis by auto
qed

end
