(* ===== verification/Scheduler_Liveness.thy ===== *)
theory Scheduler_Liveness
  imports Scheduler_Properties
begin

text \<open>
  What becomes of the requests in the queues of the scheduler. When the pool has pages for all of
  them, rounds of \<open>schedule\<close> and \<open>step_complete\<close> complete every request within as many rounds as there
  are tokens to process: each round lowers the work left. A request with an empty prompt and one that
  needs more pages than the pool has, on the other hand, stay queued along every run.
\<close>

section \<open>Work left and pages wanted\<close>

text \<open>The tokens a sequence has still to process: prompt tokens to prefill and output tokens at most.\<close>

definition seq_work :: "sequence \<Rightarrow> nat" where
  "seq_work q = nat (int (length (prompt_tokens q)) - prefill_cursor q) +
     nat (max 1 (max_new_tokens q) - int (length (output_tokens q)))"

definition work :: "scheduler \<Rightarrow> nat" where
  "work s = (\<Sum>a\<in>queued s. seq_work (the (sc_heap s a)))"

text \<open>
  The most pages \<open>pages_needed_for\<close> ever asks for: the whole prompt is counted together with the chunk
  to prefill, the page of the promotion, or the output.
\<close>

definition most_tokens :: "scheduler_config \<Rightarrow> sequence \<Rightarrow> int" where
  "most_tokens cfg q = max (int (length (prompt_tokens q))) (max (kv_page_size_tokens cfg) (max 1 (max_new_tokens q)))"

definition most_pages :: "scheduler_config \<Rightarrow> sequence \<Rightarrow> nat" where
  "most_pages cfg q = nat ((int (length (prompt_tokens q)) + most_tokens cfg q + kv_page_size_tokens cfg - 1)
     div kv_page_size_tokens cfg)"

definition wanted :: "scheduler \<Rightarrow> nat" where
  "wanted s = (\<Sum>a\<in>queued s. most_pages (sc_cfg s) (the (sc_heap s a)) - length (held s a))"

text \<open>
  A sequence that the scheduler will get on with: it decodes, or it has prompt tokens to prefill and no
  output yet.
\<close>

definition lively_seq :: "sequence \<Rightarrow> bool" where
  "lively_seq q \<longleftrightarrow> seq_st q = DECODE \<or>
     seq_st q \<in> {WAITING, PREFILL} \<and> output_tokens q = [] \<and> prefill_cursor q < int (length (prompt_tokens q))"

definition lively :: "scheduler \<Rightarrow> bool" where
  "lively s \<longleftrightarrow> (\<forall>a\<in>queued s. lively_seq (the (sc_heap s a))) \<and>
     (\<forall>a\<in>set (sc_running s). seq_st (the (sc_heap s a)) \<noteq> WAITING) \<and>
     wanted s \<le> card (fast_avail (sc_kv_pool s))"

text \<open>The limits of the configuration let a batch make progress.\<close>

definition serving :: "scheduler_config \<Rightarrow> bool" where
  "serving cfg \<longleftrightarrow> 1 \<le> max_seqs_running cfg \<and> 1 \<le> max_batch_tokens cfg \<and> 1 \<le> max_prefill_tokens_per_step cfg"

text \<open>What a client is owed: completions counted or to come, and the ids reported or to be reported.\<close>

definition pending_ids :: "scheduler \<Rightarrow> int multiset" where
  "pending_ids s = image_mset (\<lambda>a. seq_id (the (sc_heap s a))) (mset_set (queued s))"

definition tally :: "scheduler \<Rightarrow> scheduler_config \<times> bool \<times> u64 \<times> int multiset" where
  "tally s = (sc_cfg s, sc_has_cb s, sc_completed s + word_of_nat (card (queued s)),
     if sc_has_cb s then mset (map fst (sc_log s)) + pending_ids s else {#})"

text \<open>\<open>N\<close> are the clock readings of leak scans to come.\<close>

definition healthy :: "u64 set \<Rightarrow> scheduler \<Rightarrow> bool" where
  "healthy N s \<longleftrightarrow> sched_inv s \<and> lively s \<and> (\<forall>now\<in>N. kv_fresh now s)"

lemma finite_queued [simp]: "finite (queued s)"
  by (simp add: queued_def)

lemma load_cong:
  assumes "sc_heap s' = sc_heap s" "sc_waiting s' = sc_waiting s" "sc_running s' = sc_running s"
  shows "queued s' = queued s" "held s' = held s" "work s' = work s" "pending_ids s' = pending_ids s"
    and "sc_cfg s' = sc_cfg s \<Longrightarrow> sc_kv_pool s' = sc_kv_pool s \<Longrightarrow> lively s' = lively s"
proof -
  show q: "queued s' = queued s" and h: "held s' = held s"
    using assms by (simp_all add: queued_def held_def fun_eq_iff)
  show "work s' = work s" "pending_ids s' = pending_ids s"
    by (simp_all add: work_def pending_ids_def q assms)
  show "sc_cfg s' = sc_cfg s \<Longrightarrow> sc_kv_pool s' = sc_kv_pool s \<Longrightarrow> lively s' = lively s"
    by (simp add: lively_def wanted_def q h assms)
qed

lemma seq_work_pos: "seq_ok q \<Longrightarrow> 0 < seq_work q"
  by (simp add: seq_work_def seq_ok_def)

lemma work_zero:
  assumes "sched_inv s" and "work s = 0"
  shows "queued s = {}"
proof (rule ccontr)
  assume "queued s \<noteq> {}"
  then obtain a where a: "a \<in> queued s" by blast
  then obtain q where "sc_heap s a = Some q" "seq_ok q" using sched_inv_cell [OF assms(1)] by blast
  with seq_work_pos have "0 < seq_work (the (sc_heap s a))" by simp
  with a assms(2) show False by (auto simp: work_def)
qed

text \<open>Changing the sequence of one address in a sum over the queues.\<close>

lemma sum_put:
  fixes f :: "nat \<Rightarrow> nat"
  assumes "finite K" and "a \<in> K" and "\<And>x. x \<in> K \<Longrightarrow> x \<noteq> a \<Longrightarrow> g x = f x"
  shows "(\<Sum>x\<in>K. g x) + f a = (\<Sum>x\<in>K. f x) + g a"
  using assms by (simp add: sum.remove [of K a])

lemma work_put:
  assumes "a \<in> queued s" and "sc_heap s a = Some q"
  shows "work (put a q' p s) + seq_work q = work s + seq_work q'"
  using sum_put [OF finite_queued assms(1), of "\<lambda>x. seq_work (the (sc_heap (put a q' p s) x))" "\<lambda>x. seq_work (the (sc_heap s x))"]
  assms(2) by (simp add: work_def)

lemma lively_put:
  assumes "lively s" and a: "a \<in> queued s" and q: "sc_heap s a = Some q" and "lively_seq q'"
    and "a \<in> set (sc_running s) \<Longrightarrow> seq_st q' \<noteq> WAITING"
    and most: "most_pages (sc_cfg s) q' = most_pages (sc_cfg s) q" and kv: "kv_page_ids q' = kv_page_ids q @ ids"
    and fits: "ids = [] \<or> length (kv_page_ids q) + length ids \<le> most_pages (sc_cfg s) q"
    and avail: "card (fast_avail (sc_kv_pool s)) \<le> card (fast_avail p) + length ids"
  shows "lively (put a q' p s)"
proof -
  let ?f = "\<lambda>t x. most_pages (sc_cfg t) (the (sc_heap t x)) - length (held t x)" and ?s = "put a q' p s"
  have "wanted ?s + ?f s a = wanted s + ?f ?s a"
    using sum_put [OF finite_queued a, of "?f ?s" "?f s"] by (simp add: wanted_def)
  moreover have "?f s a = most_pages (sc_cfg s) q - length (kv_page_ids q)"
    "?f ?s a = most_pages (sc_cfg s) q - (length (kv_page_ids q) + length ids)"
    using q kv most by (simp_all add: held_def)
  moreover have "wanted s \<le> card (fast_avail (sc_kv_pool s))" using assms(1) by (simp add: lively_def)
  ultimately have "wanted ?s \<le> card (fast_avail p)" using fits avail by auto
  then show ?thesis using assms(1,4,5) by (simp add: lively_def)
qed

text \<open>Removing a sequence.\<close>

lemma dropped_load:
  assumes inv: "sched_inv s" and a: "a \<in> queued s" and q: "sc_heap s a = Some q"
  shows "work (dropped a p s) + seq_work q = work s"
    and "pending_ids s = add_mset (seq_id q) (pending_ids (dropped a p s))"
    and "lively s \<Longrightarrow> fast_avail p = fast_avail (sc_kv_pool s) \<Longrightarrow> lively (dropped a p s)"
    and "card (queued s) = Suc (card (queued (dropped a p s)))"
proof -
  let ?s = "dropped a p s"
  note K = queued_dropped [OF inv, of a p]
  have h: "sc_heap ?s x = sc_heap s x" "held ?s x = held s x" if "x \<in> queued s - {a}" for x
    using that by (simp_all add: dropped_def held_def)
  show "work ?s + seq_work q = work s"
    using q h by (simp add: work_def K sum.remove [OF finite_queued a])
  have "mset_set (queued s) = add_mset a (mset_set (queued s - {a}))"
    by (rule mset_set.remove [OF finite_queued a])
  moreover have "image_mset (\<lambda>x. seq_id (the (sc_heap ?s x))) (mset_set (queued s - {a})) =
      image_mset (\<lambda>x. seq_id (the (sc_heap s x))) (mset_set (queued s - {a}))"
    using h by (intro image_mset_cong) simp
  ultimately show "pending_ids s = add_mset (seq_id q) (pending_ids ?s)"
    using q by (simp add: pending_ids_def K)
  show "card (queued s) = Suc (card (queued ?s))"
    unfolding K by (rule card.remove [OF finite_queued a])
  assume l: "lively s" and p: "fast_avail p = fast_avail (sc_kv_pool s)"
  have "sc_cfg ?s = sc_cfg s" "sc_kv_pool ?s = p" by (simp_all add: dropped_def)
  then have "wanted ?s \<le> wanted s"
    using h by (simp add: wanted_def K sum.remove [OF finite_queued a])
  then show "lively ?s" using l p sched_invD(4,5) [OF inv]
    by (auto simp: lively_def K dropped_def queued_def)
qed

section \<open>Allocation\<close>

lemma touched_not_stale:
  assumes "fast_touched ts X pl p" and "ts = 0 \<or> now - ts \<le> 30000000"
  shows "fast_stale_pages now 30000 p \<subseteq> fast_stale_pages now 30000 pl - X"
  using assms fast_touched_universe [OF assms(1)]
  by (auto simp: fast_stale_pages_def fast_stale_def fast_touched_def fast_universe_def split: if_splits)

lemma fresh_put:
  assumes "kv_fresh now s" and "a \<in> queued s" and "sc_heap s a = Some q" and "kv_page_ids q' = kv_page_ids q @ ids"
    and "fast_stale_pages now 30000 p \<subseteq> fast_stale_pages now 30000 (sc_kv_pool s) - set ids"
  shows "kv_fresh now (put a q' p s)"
proof -
  have "held s a = kv_page_ids q" using assms(3) by (simp add: held_def)
  then have "set (kv_page_ids q) \<inter> fast_stale_pages now 30000 (sc_kv_pool s) = {}"
    using assms(1,2) by (metis kv_fresh_def)
  with assms show ?thesis by (fastforce simp: kv_fresh_def)
qed

lemma most_pages_bound:
  assumes "cfg_ok cfg" and "int (length (output_tokens q)) + n \<le> most_tokens cfg q"
  shows "pages_for cfg q n \<le> int (most_pages cfg q)"
proof -
  have ps: "0 < kv_page_size_tokens cfg" using assms(1) by (simp add: cfg_ok_def)
  have "pages_for cfg q n \<le> (int (length (prompt_tokens q)) + most_tokens cfg q + kv_page_size_tokens cfg - 1)
      div kv_page_size_tokens cfg"
    unfolding pages_for_def using assms(2) ps by (intro zdiv_mono1) auto
  then show ?thesis unfolding most_pages_def by linarith
qed

text \<open>
  With room in the pool an allocation succeeds, and all that changes is that one sequence has
  more pages.
\<close>

lemma try_alloc_room:
  assumes inv: "sched_inv s" and a: "a \<in> queued s" and q: "sc_heap s a = Some q" and n: "0 \<le> n" "n \<le> 2 ^ 29" and ts: "ts \<noteq> 0"
    and room: "most_pages (sc_cfg s) q - length (kv_page_ids q) \<le> card (fast_avail (sc_kv_pool s))"
    and most: "int (length (output_tokens q)) + n \<le> most_tokens (sc_cfg s) q"
  obtains ids p where "try_alloc_pages ts a n s = Inr (True, put a (q\<lparr>kv_page_ids := kv_page_ids q @ ids\<rparr>) p s)"
    "sched_inv (put a (q\<lparr>kv_page_ids := kv_page_ids q @ ids\<rparr>) p s)"
    "ids = [] \<or> length (kv_page_ids q) + length ids \<le> most_pages (sc_cfg s) q"
    "card (fast_avail (sc_kv_pool s)) = card (fast_avail p) + length ids"
    "\<And>now. now - ts \<le> 30000000 \<Longrightarrow> fast_stale_pages now 30000 p \<subseteq> fast_stale_pages now 30000 (sc_kv_pool s) - set ids"
proof -
  note i = sched_invD [OF inv]
  let ?l = "length (kv_page_ids q)" and ?k = "pages_for (sc_cfg s) q n" and ?av = "fast_avail (sc_kv_pool s)"
  have k: "?k \<le> int (most_pages (sc_cfg s) q)" by (rule most_pages_bound [OF i(1) most])
  show thesis
  proof (cases "?k \<le> int ?l")
    case True
    with try_alloc_enough [OF inv a q n] inv show thesis
      by (intro that [of "[]" "sc_kv_pool s"]) (simp_all add: put_same [OF q])
  next
    case False
    have x: "0 \<le> ?k - int ?l" "?k - int ?l \<le> int (card ?av)" using False k room by linarith+
    from fast_alloc_ok [OF i(12) x(1), of ts "seq_id q"] x(2) obtain ids p where
      al: "fast_alloc ts (seq_id q) (?k - int ?l) (sc_kv_pool s) = Inr (ids, p)" "int (length ids) = ?k - int ?l"
        "distinct ids" "set ids \<subseteq> ?av" "fast_avail p = ?av - set ids" "fast_touched ts (set ids) (sc_kv_pool s) p" by auto
    have fin: "finite ?av" by (simp add: fast_avail_def)
    have "length ids \<le> card ?av" using card_mono [OF fin al(4)] distinct_card [OF al(3)] by simp
    then have card: "card ?av = card (fast_avail p) + length ids"
      using card_Diff_subset [OF _ al(4)] distinct_card [OF al(3)] unfolding al(5) by simp
    have run: "try_alloc_pages ts a n s = Inr (True, put a (q\<lparr>kv_page_ids := kv_page_ids q @ ids\<rparr>) p s)"
      using try_alloc_run [OF inv a q n _ al(1)] al(2) False by auto
    from try_alloc_ok [OF inv a q n ts] run obtain ids' p' where
      eq: "put a (q\<lparr>kv_page_ids := kv_page_ids q @ ids\<rparr>) p s = put a (q\<lparr>kv_page_ids := kv_page_ids q @ ids'\<rparr>) p' s"
        "sched_inv (put a (q\<lparr>kv_page_ids := kv_page_ids q @ ids'\<rparr>) p' s)" by auto
    show thesis using al(2) k touched_not_stale [OF al(6)] eq by (intro that [OF run _ _ card]) auto
  qed
qed

section \<open>Scheduling a round\<close>

text \<open>Building a batch with enough pages changes nothing but the pages of sequences.\<close>

definition grown :: "scheduler \<Rightarrow> scheduler \<Rightarrow> bool" where
  "grown s s' \<longleftrightarrow> sc_cfg s' = sc_cfg s \<and> sc_waiting s' = sc_waiting s \<and> sc_running s' = sc_running s \<and>
     sc_has_cb s' = sc_has_cb s \<and> sc_completed s' = sc_completed s \<and> sc_log s' = sc_log s \<and>
     (\<forall>a. map_option (kv_page_ids_update (\<lambda>_. [])) (sc_heap s' a) = map_option (kv_page_ids_update (\<lambda>_. [])) (sc_heap s a))"

lemma grown_refl: "grown s s"
  by (simp add: grown_def)

lemma grown_trans: "grown s s' \<Longrightarrow> grown s' s'' \<Longrightarrow> grown s s''"
  by (simp add: grown_def)

lemma grown_put: "sc_heap s a = Some q \<Longrightarrow> grown s (put a (q\<lparr>kv_page_ids := ids\<rparr>) p s)"
  by (simp add: grown_def put_def)

lemma strip_kv:
  assumes "map_option (kv_page_ids_update (\<lambda>_. [])) x = map_option (kv_page_ids_update (\<lambda>_. [])) y"
  shows "seq_work (the x) = seq_work (the y)" and "seq_id (the x) = seq_id (the y)"
    and "x = Some q \<Longrightarrow> \<exists>q'. y = Some q' \<and> q\<lparr>kv_page_ids := []\<rparr> = q'\<lparr>kv_page_ids := []\<rparr>"
proof -
  have s: "seq_work (q\<lparr>kv_page_ids := []\<rparr>) = seq_work q" "seq_id (q\<lparr>kv_page_ids := []\<rparr>) = seq_id q" for q
    by (simp_all add: seq_work_def)
  show "seq_work (the x) = seq_work (the y)" "seq_id (the x) = seq_id (the y)"
    using assms by (cases x; cases y; simp; metis s)+
  show "x = Some q \<Longrightarrow> \<exists>q'. y = Some q' \<and> q\<lparr>kv_page_ids := []\<rparr> = q'\<lparr>kv_page_ids := []\<rparr>"
    using assms by (cases y) simp_all
qed

lemma grown_load:
  assumes "grown s s'"
  shows "queued s' = queued s" and "work s' = work s" and "tally s' = tally s" and "in_state s' st a = in_state s st a"
proof -
  have k: "map_option (kv_page_ids_update (\<lambda>_. [])) (sc_heap s' x) = map_option (kv_page_ids_update (\<lambda>_. [])) (sc_heap s x)" for x
    using assms by (simp add: grown_def)
  show q: "queued s' = queued s" using assms by (simp add: grown_def queued_def)
  show "work s' = work s" by (simp add: work_def q strip_kv(1) [OF k])
  have "pending_ids s' = pending_ids s" by (simp add: pending_ids_def q strip_kv(2) [OF k])
  then show "tally s' = tally s" using assms q by (simp add: tally_def grown_def)
  have st: "seq_st q = seq_st q'" if "q\<lparr>kv_page_ids := []\<rparr> = q'\<lparr>kv_page_ids := []\<rparr>" for q q' :: sequence
    using arg_cong [OF that, of seq_st] by simp
  show "in_state s' st a = in_state s st a"
    using assms strip_kv(3) [OF k, of a] strip_kv(3) [OF k [symmetric], of a] st
    unfolding in_state_def grown_def by metis
qed

lemma alloc_step:
  assumes "healthy N s" and a: "a \<in> queued s" and q: "sc_heap s a = Some q" and n: "0 \<le> n" "n \<le> 2 ^ 29"
    and most: "int (length (output_tokens q)) + n \<le> most_tokens (sc_cfg s) q"
    and ts: "ts \<noteq> 0" "\<forall>now\<in>N. now - ts \<le> 30000000"
  obtains ids p where "try_alloc_pages ts a n s = Inr (True, put a (q\<lparr>kv_page_ids := ids\<rparr>) p s)"
    "healthy N (put a (q\<lparr>kv_page_ids := ids\<rparr>) p s)"
proof -
  have inv: "sched_inv s" and l: "lively s" and f: "\<forall>now\<in>N. kv_fresh now s" using assms(1) by (simp_all add: healthy_def)
  have "most_pages (sc_cfg s) (the (sc_heap s a)) - length (held s a) \<le> wanted s"
    unfolding wanted_def by (rule member_le_sum [OF a]) simp_all
  then have room: "most_pages (sc_cfg s) q - length (kv_page_ids q) \<le> card (fast_avail (sc_kv_pool s))"
    using l q by (simp add: lively_def held_def)
  obtain ids p where r: "try_alloc_pages ts a n s = Inr (True, put a (q\<lparr>kv_page_ids := kv_page_ids q @ ids\<rparr>) p s)"
    "sched_inv (put a (q\<lparr>kv_page_ids := kv_page_ids q @ ids\<rparr>) p s)"
    "ids = [] \<or> length (kv_page_ids q) + length ids \<le> most_pages (sc_cfg s) q"
    "card (fast_avail (sc_kv_pool s)) = card (fast_avail p) + length ids"
    "\<And>now. now - ts \<le> 30000000 \<Longrightarrow> fast_stale_pages now 30000 p \<subseteq> fast_stale_pages now 30000 (sc_kv_pool s) - set ids"
    by (rule try_alloc_room [OF inv a q n ts(1) room most]) blast
  let ?q = "q\<lparr>kv_page_ids := kv_page_ids q @ ids\<rparr>"
  have "lively (put a ?q p s)"
    by (rule lively_put [OF l a q, where ids = ids])
      (use l a q r(3,4) in \<open>force simp: lively_def lively_seq_def most_pages_def most_tokens_def\<close>)+
  moreover have "\<forall>now\<in>N. kv_fresh now (put a ?q p s)"
    using fresh_put [OF _ a q, of _ ?q ids] f r(5) ts(2) by simp
  ultimately show thesis using r(1,2) by (intro that [of "kv_page_ids q @ ids" p]) (simp_all add: healthy_def)
qed

lemma healthy_cell:
  assumes "healthy N s" and "a \<in> queued s"
  obtains q where "sc_heap s a = Some q" "slot_ok s a q" "seq_ok q" "lively_seq q"
    "a \<in> set (sc_running s) \<Longrightarrow> seq_st q \<noteq> WAITING"
proof -
  obtain q where q: "sc_heap s a = Some q" "slot_ok s a q" "seq_ok q"
    using sched_inv_cell [of s a] assms by (auto simp: healthy_def)
  with assms show thesis by (intro that [of q]) (force simp: healthy_def lively_def)+
qed

lemma schedule_prefill_live:
  assumes "healthy N s" and "serving (sc_cfg s)" and "\<forall>a\<in>set as. in_state s PREFILL a"
    and ts: "ts \<noteq> 0" "\<forall>now\<in>N. now - ts \<le> 30000000"
  shows "\<exists>bu b' s'. schedule_prefill ts as dec budget b s = Inr (dec, bu, b', s') \<and> healthy N s' \<and> grown s s' \<and>
    (as = [] \<longrightarrow> bu = budget) \<and> (sb_entries b \<noteq> [] \<or> as \<noteq> [] \<and> 0 < budget \<longrightarrow> sb_entries b' \<noteq> [])"
  using assms(1-3)
proof (induction as arbitrary: budget b s)
  case Nil
  then show ?case by (simp add: grown_refl)
next
  case (Cons a as)
  show ?case
  proof (cases "budget \<le> 0")
    case True
    with Cons.prems show ?thesis by (simp add: grown_refl)
  next
    case False
    have aq: "a \<in> queued s" "a \<in> set (sc_running s)" using Cons.prems(3) by (simp_all add: in_state_def queued_def)
    obtain q where q: "sc_heap s a = Some q" "seq_ok q" "lively_seq q" by (rule healthy_cell [OF Cons.prems(1) aq(1)])
    then have l: "output_tokens q = []" "prefill_cursor q < int (length (prompt_tokens q))"
      using Cons.prems(3) by (auto simp: in_state_def lively_seq_def)
    define c where "c = min (int (length (prompt_tokens q)) - prefill_cursor q) (min (max_prefill_tokens_per_step (sc_cfg s)) budget)"
    have c: "0 < c" "c \<le> int (length (prompt_tokens q))"
      using l(2) q(2) False Cons.prems(2) by (auto simp: c_def serving_def seq_ok_def)
    have c2: "0 \<le> c" "c \<le> 2 ^ 29" using c seq_ok_bounds(2) [OF q(2)] by simp_all
    have "int (length (output_tokens q)) + c \<le> most_tokens (sc_cfg s) q" using l(1) c(2) by (simp add: most_tokens_def)
    from alloc_step [OF Cons.prems(1) aq(1) q(1) c2 this ts] obtain ids p where
      al: "try_alloc_pages ts a c s = Inr (True, put a (q\<lparr>kv_page_ids := ids\<rparr>) p s)"
        "healthy N (put a (q\<lparr>kv_page_ids := ids\<rparr>) p s)" by blast
    let ?s = "put a (q\<lparr>kv_page_ids := ids\<rparr>) p s"
    let ?e = "\<lparr>be_seq = a, be_n_tokens = c, be_is_prefill = True, be_prefill_start = prefill_cursor q\<rparr>"
    have g: "grown s ?s" by (rule grown_put [OF q(1)])
    have run: "schedule_prefill ts (a # as) dec budget b s = schedule_prefill ts as dec (budget - c) (push_entry ?e b) ?s"
      using False q(1,2) c(1) al(1) by (simp add: deref_def Let_def c_def [symmetric] prefill_alloc_def)
    have "\<forall>x\<in>set as. in_state ?s PREFILL x" using Cons.prems(3) grown_load(4) [OF g] by simp
    with Cons.IH [OF al(2), of "budget - c" "push_entry ?e b"] Cons.prems(2) obtain bu b2 s2 where
      "schedule_prefill ts as dec (budget - c) (push_entry ?e b) ?s = Inr (dec, bu, b2, s2)" "healthy N s2"
      "grown ?s s2" "sb_entries b2 \<noteq> []" by auto
    then show ?thesis using run grown_trans [OF g] by auto
  qed
qed

lemma schedule_decode_live:
  assumes "healthy N s" and "serving (sc_cfg s)" and "\<forall>a\<in>set as. in_state s DECODE a"
    and ts: "ts \<noteq> 0" "\<forall>now\<in>N. now - ts \<le> 30000000"
  shows "\<exists>b' s'. schedule_decode ts as budget b s = Inr (b', s') \<and> healthy N s' \<and> grown s s' \<and>
    (sb_entries b \<noteq> [] \<or> as \<noteq> [] \<and> 0 < budget \<longrightarrow> sb_entries b' \<noteq> [])"
  using assms(1-3)
proof (induction as arbitrary: budget b s)
  case Nil
  then show ?case by (simp add: grown_refl)
next
  case (Cons a as)
  show ?case
  proof (cases "budget \<le> 0")
    case True
    with Cons.prems show ?thesis by (simp add: grown_refl)
  next
    case False
    have aq: "a \<in> queued s" using Cons.prems(3) by (simp add: in_state_def queued_def)
    obtain q where q: "sc_heap s a = Some q" "seq_ok q" by (rule healthy_cell [OF Cons.prems(1) aq])
    have "int (length (output_tokens q)) + 1 \<le> most_tokens (sc_cfg s) q"
      using q(2) by (simp add: most_tokens_def seq_ok_def max_def)
    from alloc_step [OF Cons.prems(1) aq q(1) _ _ this ts] obtain ids p where
      al: "try_alloc_pages ts a 1 s = Inr (True, put a (q\<lparr>kv_page_ids := ids\<rparr>) p s)"
        "healthy N (put a (q\<lparr>kv_page_ids := ids\<rparr>) p s)" by auto
    let ?s = "put a (q\<lparr>kv_page_ids := ids\<rparr>) p s"
    let ?e = "\<lparr>be_seq = a, be_n_tokens = 1, be_is_prefill = False, be_prefill_start = 0\<rparr>"
    have g: "grown s ?s" by (rule grown_put [OF q(1)])
    have "\<forall>x\<in>set as. in_state ?s DECODE x" using Cons.prems(3) grown_load(4) [OF g] by simp
    with Cons.IH [OF al(2), of "budget - 1" "push_entry ?e b"] Cons.prems(2) obtain b2 s2 where
      "schedule_decode ts as (budget - 1) (push_entry ?e b) ?s = Inr (b2, s2)" "healthy N s2"
      "grown ?s s2" "sb_entries b2 \<noteq> []" by auto
    then show ?thesis using False al(1) grown_trans [OF g] by auto
  qed
qed

lemma promoted_healthy:
  assumes h: "healthy N s" and w: "sc_waiting s = a # w" and q: "sc_heap s a = Some q"
    and len: "int (length (sc_running s)) < max_seqs_running (sc_cfg s)"
  shows "healthy N (promoted a q w s)" and "queued (promoted a q w s) = queued s"
    and "work (promoted a q w s) = work s" and "tally (promoted a q w s) = tally s"
proof -
  let ?s = "promoted a q w s"
  have inv: "sched_inv s" and l: "lively s" using h by (simp_all add: healthy_def)
  have aq: "a \<in> queued s" using w by (simp add: queued_def)
  have st: "seq_st q = WAITING" using healthy_cell [OF h aq] q w by (auto simp: slot_ok_def)
  show K: "queued ?s = queued s" using w by (auto simp: promoted_def queued_def store_def)
  have H: "held ?s = held s" using q by (auto simp: promoted_def held_def store_def)
  have the: "seq_work (the (sc_heap ?s x)) = seq_work (the (sc_heap s x))"
    "seq_id (the (sc_heap ?s x)) = seq_id (the (sc_heap s x))"
    "most_pages cfg (the (sc_heap ?s x)) = most_pages cfg (the (sc_heap s x))"
    "lively_seq (the (sc_heap s x)) \<Longrightarrow> lively_seq (the (sc_heap ?s x))" for x cfg
    using q st by (auto simp: promoted_def store_def seq_work_def most_pages_def most_tokens_def lively_seq_def)
  have cfg: "sc_cfg ?s = sc_cfg s" "sc_kv_pool ?s = sc_kv_pool s" by (simp_all add: promoted_def store_def)
  show "work ?s = work s" by (simp add: work_def K the(1))
  show "tally ?s = tally s"
    by (simp add: tally_def pending_ids_def K the(2)) (simp add: promoted_def store_def)
  have "lively ?s" using l the(4) sched_invD(6) [OF inv] w
    unfolding lively_def wanted_def K H cfg the(3) by (auto simp: promoted_def store_def)
  moreover have "\<forall>now\<in>N. kv_fresh now ?s" using h by (simp add: healthy_def kv_fresh_def K H cfg)
  ultimately show "healthy N ?s" using promoted_inv [OF inv w q len] by (simp add: healthy_def)
qed

lemma promote_live:
  assumes "healthy N s" and "serving (sc_cfg s)" and "sc_waiting s = w"
    and ts: "ts \<noteq> 0" "\<forall>now\<in>N. now - ts \<le> 30000000"
  shows "\<exists>s'. promote_loop ts w s = Inr s' \<and> healthy N s' \<and> queued s' = queued s \<and> work s' = work s \<and> tally s' = tally s \<and>
    (sc_running s \<noteq> [] \<or> w \<noteq> [] \<longrightarrow> sc_running s' \<noteq> [])"
  using assms(1-3)
proof (induction w arbitrary: s)
  case Nil
  then show ?case by simp
next
  case (Cons a w)
  have inv: "sched_inv s" using Cons.prems(1) by (simp add: healthy_def)
  show ?case
  proof (cases "int (length (sc_running s)) < max_seqs_running (sc_cfg s)")
    case False
    with Cons.prems(2) have "sc_running s \<noteq> []" by (auto simp: serving_def)
    with False Cons.prems inv show ?thesis by (intro exI [of _ s]) simp
  next
    case True
    let ?n = "kv_page_size_tokens (sc_cfg s)"
    have aq: "a \<in> queued s" using Cons.prems(3) by (simp add: queued_def)
    obtain q where q: "sc_heap s a = Some q" "slot_ok s a q" "lively_seq q" by (rule healthy_cell [OF Cons.prems(1) aq])
    then have "output_tokens q = []" using Cons.prems(3) by (auto simp: slot_ok_def lively_seq_def)
    then have most: "int (length (output_tokens q)) + ?n \<le> most_tokens (sc_cfg s) q" by (simp add: most_tokens_def)
    have n: "0 \<le> ?n" "?n \<le> 2 ^ 29" using sched_invD(1) [OF inv] by (simp_all add: cfg_ok_def)
    from alloc_step [OF Cons.prems(1) aq q(1) n most ts] obtain ids p where
      al: "try_alloc_pages ts a ?n s = Inr (True, put a (q\<lparr>kv_page_ids := ids\<rparr>) p s)"
        "healthy N (put a (q\<lparr>kv_page_ids := ids\<rparr>) p s)" by blast
    let ?q = "q\<lparr>kv_page_ids := ids\<rparr>"
    let ?t = "put a ?q p s"
    let ?s = "promoted a ?q w ?t"
    note g = grown_load(1-3) [OF grown_put [OF q(1)], of ids p]
    note pr = promoted_healthy [OF al(2), of a w ?q, simplified, OF Cons.prems(3) True]
    have "serving (sc_cfg ?s)" "sc_waiting ?s = w" using Cons.prems(2) by (simp_all add: promoted_def store_def)
    with Cons.IH [OF pr(1)] obtain s' where
      "promote_loop ts w ?s = Inr s'" "healthy N s'" "queued s' = queued ?s" "work s' = work ?s" "tally s' = tally ?s"
      "sc_running s' \<noteq> []" by (auto simp: promoted_def)
    moreover have "promote_loop ts (a # w) s = promote_loop ts w ?s"
      using True al(1) inv by (simp add: deref_def promoted_def)
    ultimately show ?thesis using pr(2-4) g by (intro exI [of _ s']) simp
  qed
qed

lemma schedule_live:
  assumes h: "healthy N s" and serv: "serving (sc_cfg s)" and ts: "ts \<noteq> 0" "\<forall>now\<in>N. now - ts \<le> 30000000"
  obtains b s' where "schedule ts s = Inr (b, s')" "healthy N s'" "work s' = work s" "tally s' = tally s"
    "queued s' = queued s" "pending_ok s' (Some b)" "queued s \<noteq> {} \<Longrightarrow> sb_entries b \<noteq> []"
proof -
  from promote_live [OF h serv refl ts] obtain s1 where
    s1: "promote_waiting ts s = Inr s1" "healthy N s1" "queued s1 = queued s" "work s1 = work s" "tally s1 = tally s"
      "queued s \<noteq> {} \<longrightarrow> sc_running s1 \<noteq> []"
    unfolding promote_waiting_def queued_def by auto
  have serv1: "serving (sc_cfg s1)" using serv s1(5) by (simp add: tally_def)
  let ?P = "state_in s1 PREFILL" and ?D = "state_in s1 DECODE"
  have ex: "\<exists>q. sc_heap s1 a = Some q \<and> (seq_st q = PREFILL \<or> seq_st q = DECODE)" if "a \<in> set (sc_running s1)" for a
    using healthy_cell [OF s1(2), of a] that unfolding queued_def lively_seq_def by (metis UnI2 insertE singletonD)
  have sel: "select_state s1 st (sc_running s1) = Inr (state_in s1 st)" for st
    unfolding state_in_def by (rule select_state_ok) (use ex in blast)
  have st: "\<forall>a\<in>set (state_in s1 st). in_state s1 st a" for st
    using ex by (force simp: state_in_def in_state_def)
  from schedule_prefill_live [OF s1(2) serv1 st ts, of ?D "max_batch_tokens (sc_cfg s1)" empty_batch] obtain bu b2 s2 where
    s2: "schedule_prefill ts ?P ?D (max_batch_tokens (sc_cfg s1)) empty_batch s1 = Inr (?D, bu, b2, s2)" "healthy N s2"
      "grown s1 s2" "?P = [] \<longrightarrow> bu = max_batch_tokens (sc_cfg s1)" "?P \<noteq> [] \<longrightarrow> sb_entries b2 \<noteq> []"
    using serv1 by (auto simp: serving_def)
  have serv2: "serving (sc_cfg s2)" using serv1 s2(3) by (simp add: grown_def)
  have "\<forall>a\<in>set ?D. in_state s2 DECODE a" using st grown_load(4) [OF s2(3)] by simp
  from schedule_decode_live [OF s2(2) serv2 this ts, of bu b2] obtain b3 s3 where
    s3: "schedule_decode ts ?D bu b2 s2 = Inr (b3, s3)" "healthy N s3" "grown s2 s3"
      "sb_entries b2 \<noteq> [] \<or> ?D \<noteq> [] \<and> 0 < bu \<longrightarrow> sb_entries b3 \<noteq> []" by blast
  have run: "schedule ts s = Inr (b3, s3)" using s1(1) sel s2(1) s3(1) by (simp add: schedule_def)
  have pend: "pending_ok s3 (Some b3)"
    using schedule_ok [of s ts] h ts(1) run building_pending by (auto simp: healthy_def)
  have "sb_entries b3 \<noteq> []" if ne: "queued s \<noteq> {}"
  proof (cases "?P = []")
    case True
    have "?D \<noteq> []" using ex s1(6) ne True
      unfolding state_in_def filter_empty_conv by (metis last_in_set option.sel)
    with s3(4) s2(4) True serv1 show ?thesis by (auto simp: serving_def)
  qed (use s2(5) s3(4) in blast)
  with run s3(2) pend s1(3-5) grown_load(1-3) [OF s2(3)] grown_load(1-3) [OF s3(3)] show thesis
    by (intro that [of b3 s3]) simp_all
qed

section \<open>Reporting a round\<close>

lemma healthy_cong:
  assumes "sc_cfg s' = sc_cfg s" "sc_kv_pool s' = sc_kv_pool s" "sc_swapped s' = sc_swapped s"
    "sc_waiting s' = sc_waiting s" "sc_running s' = sc_running s" "sc_brk s' = sc_brk s" "sc_heap s' = sc_heap s"
  shows "healthy N (purge s') = healthy N (purge s)" and "work (purge s') = work (purge s)"
    and "queued (purge s') = queued (purge s)" and "pending_ids (purge s') = pending_ids (purge s)"
proof -
  have p: "sc_running (purge s') = sc_running (purge s)" "sc_heap (purge s') = sc_heap (purge s)"
    using assms by (simp_all add: purge_def done_at_def cong: if_cong)
  moreover have w: "sc_waiting (purge s') = sc_waiting (purge s)" using assms by simp
  ultimately have load: "queued (purge s') = queued (purge s)" "held (purge s') = held (purge s)"
    "work (purge s') = work (purge s)" "pending_ids (purge s') = pending_ids (purge s)"
    by (rule load_cong [rotated 2])+
  then show "work (purge s') = work (purge s)" "queued (purge s') = queued (purge s)"
    "pending_ids (purge s') = pending_ids (purge s)" by blast+
  have "sched_inv (purge s') = sched_inv (purge s)" by (rule sched_inv_cong) (use p assms in simp_all)
  moreover have "lively (purge s') = lively (purge s)" by (rule load_cong(5)) (use p assms in simp_all)
  moreover have "kv_fresh now (purge s') = kv_fresh now (purge s)" for now
    using assms by (simp add: kv_fresh_def load(1,2))
  ultimately show "healthy N (purge s') = healthy N (purge s)" by (simp add: healthy_def)
qed

lemma tally_purge:
  "tally (purge s) = (sc_cfg s, sc_has_cb s, sc_completed s + word_of_nat (card (queued (purge s))),
     if sc_has_cb s then mset (map fst (sc_log s)) + pending_ids (purge s) else {#})"
  by (simp add: tally_def) (simp add: purge_def)

text \<open>The sequence of an entry goes on, or it ends.\<close>

lemma entry_put:
  assumes h: "healthy N (purge s)" "N \<noteq> {}" and e: "entry_ok s e" and q: "sc_heap s (be_seq e) = Some q"
    and ok: "seq_ok q'" "run_ok q'" "seq_st q' \<noteq> WAITING" "lively_seq q'"
    and keep: "kv_page_ids q' = kv_page_ids q" "prompt_tokens q' = prompt_tokens q"
      "max_new_tokens q' = max_new_tokens q" "seq_id q' = seq_id q"
    and p: "fast_live p" "fast_universe p = fast_universe (sc_kv_pool s)" "fast_avail p = fast_avail (sc_kv_pool s)"
      "\<forall>now\<in>N. fast_stale_pages now 30000 p \<subseteq> fast_stale_pages now 30000 (sc_kv_pool s)"
  shows "healthy N (purge (put (be_seq e) q' p s))"
    and "work (purge (put (be_seq e) q' p s)) + seq_work q = work (purge s) + seq_work q'"
    and "queued (purge (put (be_seq e) q' p s)) = queued (purge s)"
    and "pending_ids (purge (put (be_seq e) q' p s)) = pending_ids (purge s)"
proof -
  let ?a = "be_seq e"
  have st: "stepping now s" if "now \<in> N" for now using h(1) that by (simp add: healthy_def stepping_def)
  with h(2) obtain now0 where st0: "stepping now0 s" by blast
  from st0 e q have c: "?a \<in> set (sc_running s)" "\<not> done_at s ?a" "?a \<in> queued (purge s)" "sc_heap (purge s) ?a = Some q"
    by (auto elim!: stepping_cell)
  have "\<not> is_done q'" using ok(2) by (auto simp: run_ok_def is_done_def)
  note pp = purge_put [OF c(1,2) this, of p]
  have sp: "stepping now (put ?a q' p s)" if "now \<in> N" for now
    using p(4) that by (intro stepping_put [OF st [OF that] e q ok(1,2) keep(1) p(1-3)]) blast
  have "lively (put ?a q' p (purge s))"
    by (rule lively_put [OF _ c(3,4) ok(4), where ids = "[]"])
      (use h(1) ok(3) keep p(3) in \<open>simp_all add: healthy_def most_pages_def most_tokens_def\<close>)
  with sp h(2) show "healthy N (purge (put ?a q' p s))" unfolding healthy_def stepping_def pp by blast
  show "work (purge (put ?a q' p s)) + seq_work q = work (purge s) + seq_work q'"
    unfolding pp by (rule work_put [OF c(3,4)])
  show "queued (purge (put ?a q' p s)) = queued (purge s)" by (simp add: pp)
  have "seq_id (the (sc_heap (put ?a q' p (purge s)) x)) = seq_id (the (sc_heap (purge s) x))" for x
    using c(4) keep(4) by simp
  then show "pending_ids (purge (put ?a q' p s)) = pending_ids (purge s)" by (simp add: pp pending_ids_def)
qed

lemma entry_drop:
  assumes h: "healthy N (purge s)" "N \<noteq> {}" and e: "entry_ok s e" and q: "sc_heap s (be_seq e) = Some q"
    and d: "distinct (sc_running s)" and ok: "is_done q'"
    and p: "fast_live p" "fast_universe p = fast_universe (sc_kv_pool s)" "fast_avail p = fast_avail (sc_kv_pool s)"
      "\<forall>now\<in>N. fast_stale_pages now 30000 p \<subseteq> fast_stale_pages now 30000 (sc_kv_pool s)"
  shows "healthy N (purge (put (be_seq e) q' p s))"
    and "work (purge (put (be_seq e) q' p s)) + seq_work q = work (purge s)"
    and "card (queued (purge s)) = Suc (card (queued (purge (put (be_seq e) q' p s))))"
    and "pending_ids (purge s) = add_mset (seq_id q) (pending_ids (purge (put (be_seq e) q' p s)))"
proof -
  let ?a = "be_seq e"
  have inv: "sched_inv (purge s)" and l: "lively (purge s)" using h(1) by (simp_all add: healthy_def)
  have st: "stepping now s" if "now \<in> N" for now using h(1) that by (simp add: healthy_def stepping_def)
  with h(2) obtain now0 where st0: "stepping now0 s" by blast
  from st0 e q have c: "?a \<in> set (sc_running s)" "\<not> done_at s ?a" "?a \<in> queued (purge s)" "sc_heap (purge s) ?a = Some q"
      "?a \<notin> set (sc_waiting s)"
    by (auto elim!: stepping_cell)
  note pf = purge_finish [OF c(1,2) ok d c(5), of p]
  have sp: "stepping now (put ?a q' p s)" if "now \<in> N" for now
    using p(4) that by (intro stepping_finish [OF st [OF that] e d ok p(1-3)]) blast
  note dl = dropped_load [OF inv c(3,4), of p]
  with sp h(2) l p(3) show "healthy N (purge (put ?a q' p s))"
    unfolding healthy_def stepping_def pf by auto
  show "work (purge (put ?a q' p s)) + seq_work q = work (purge s)"
    "card (queued (purge s)) = Suc (card (queued (purge (put ?a q' p s))))"
    "pending_ids (purge s) = add_mset (seq_id q) (pending_ids (purge (put ?a q' p s)))"
    unfolding pf using dl by simp_all
qed

lemma complete_prefill_live:
  assumes h: "healthy N (purge s)" and N: "now \<in> N" and e: "entry_ok s e" and pre: "be_is_prefill e"
  shows "\<exists>s'. complete_prefill e s = Inr s' \<and> healthy N (purge s') \<and> frame {be_seq e} s s' \<and>
    work (purge s') < work (purge s) \<and> tally (purge s') = tally (purge s)"
proof -
  let ?n = "be_n_tokens e"
  have st: "stepping now s" using h N by (simp add: healthy_def stepping_def)
  from st e obtain q where q: "sc_heap s (be_seq e) = Some q" "be_seq e \<in> queued (purge s)"
      "sc_heap (purge s) (be_seq e) = Some q" by (auto elim!: stepping_cell)
  let ?q = "prefilled ?n q"
  from e pre q(1) have e': "0 < ?n" "seq_st q = PREFILL" "prefill_cursor q + ?n \<le> int (length (prompt_tokens q))"
    by (auto simp: entry_ok_def)
  have "lively_seq q" using healthy_cell [OF h q(2)] q(3) by auto
  then have l: "seq_st ?q \<noteq> WAITING" "lively_seq ?q"
    using e' by (auto simp: lively_seq_def prefilled_def Let_def)
  have ids: "kv_page_ids ?q = kv_page_ids q" "prompt_tokens ?q = prompt_tokens q"
    "max_new_tokens ?q = max_new_tokens q" "seq_id ?q = seq_id q" by (simp_all add: prefilled_def Let_def)
  have N': "N \<noteq> {}" and live: "fast_live (sc_kv_pool s)"
    using N h sched_invD(2) [of "purge s"] by (auto simp: healthy_def)
  note run = complete_prefill_run [OF st e pre q(1)]
  note ep = entry_put [OF h N' e q(1) run(2,3) l ids live refl refl, simplified]
  have "seq_work ?q < seq_work q" using e' by (auto simp: seq_work_def prefilled_def Let_def)
  with ep(2) have "work (purge (put (be_seq e) ?q (sc_kv_pool s) s)) < work (purge s)" by linarith
  moreover have "tally (purge (put (be_seq e) ?q (sc_kv_pool s) s)) = tally (purge s)"
    unfolding tally_purge ep(3,4) by (simp add: put_def)
  ultimately show ?thesis using run(1) ep(1) frame_put by blast
qed

lemma complete_decode_live:
  assumes h: "healthy N (purge s)" and N: "now \<in> N" and e: "entry_ok s e" and dec: "\<not> be_is_prefill e"
    and d: "distinct (sc_running s)" and ts: "ts \<noteq> 0" "\<forall>now\<in>N. now - ts \<le> 30000000"
  shows "\<exists>s'. complete_decode ts e tok s = Inr s' \<and> healthy N (purge s') \<and> frame {be_seq e} s s' \<and>
    work (purge s') < work (purge s) \<and> tally (purge s') = tally (purge s)"
proof -
  let ?a = "be_seq e"
  have st: "stepping now s" using h N by (simp add: healthy_def stepping_def)
  from st e obtain q where q: "sc_heap s ?a = Some q" "seq_ok q" "run_ok q" by (auto elim!: stepping_cell)
  from e dec q(1) have e': "seq_st q = DECODE" by (auto simp: entry_ok_def)
  let ?q = "q\<lparr>output_tokens := output_tokens q @ [tok]\<rparr>"
  obtain p where p: "\<forall>tok. complete_decode ts e tok s =
      Inr (let s1 = (put ?a (q\<lparr>output_tokens := output_tokens q @ [tok]\<rparr>) p s)
                      \<lparr>sc_tokens_generated := sc_tokens_generated s + 1\<rparr>
           in if finished (q\<lparr>output_tokens := output_tokens q @ [tok]\<rparr>) tok
              then finish_seq ?a (q\<lparr>output_tokens := output_tokens q @ [tok]\<rparr>) s1 else s1)"
      "fast_live p" "fast_universe p = fast_universe (sc_kv_pool s)"
      "fast_avail p = fast_avail (sc_kv_pool s)"
      "\<And>n. n - ts \<le> 30000000 \<Longrightarrow> fast_stale_pages n 30000 p \<subseteq> fast_stale_pages n 30000 (sc_kv_pool s)"
    by (rule complete_decode_run [OF st e q(1) ts(1)]) blast
  let ?s1 = "(put ?a ?q p s)\<lparr>sc_tokens_generated := sc_tokens_generated s + 1\<rparr>"
  have N': "N \<noteq> {}" and stale: "\<forall>n\<in>N. fast_stale_pages n 30000 p \<subseteq> fast_stale_pages n 30000 (sc_kv_pool s)"
    using N p(5) ts(2) by auto
  have cast: "cast_int (length (output_tokens ?q)) = int (length (output_tokens q)) + 1"
    using seq_ok_bounds(3) [OF q(2)] cast_int_small [of "length (output_tokens ?q)"] by simp
  show ?thesis
  proof (cases "finished ?q tok")
    case True
    let ?p = "put ?a (?q\<lparr>seq_st := DONE\<rparr>) p s" and ?t = "finish_seq ?a ?q ?s1"
    have "is_done (?q\<lparr>seq_st := DONE\<rparr>)" by (simp add: is_done_def)
    note drop = entry_drop [OF h N' e q(1) d this p(2-4) stale]
    have cong: "healthy N (purge ?t) = healthy N (purge ?p)" "work (purge ?t) = work (purge ?p)"
      "queued (purge ?t) = queued (purge ?p)" "pending_ids (purge ?t) = pending_ids (purge ?p)"
      by (rule healthy_cong; simp add: finish_seq_def store_def)+
    have "work (purge ?t) < work (purge s)" using drop(2) seq_work_pos [OF q(2)] cong(2) by linarith
    moreover have "tally (purge ?t) = tally (purge s)"
      unfolding tally_purge cong(3,4) drop(3,4) by (simp add: finish_seq_def store_def put_def)
    moreover have "frame {?a} s ?t" using p(3) by (simp add: frame_def finish_seq_def store_def)
    ultimately show ?thesis using p(1) drop(1) cong(1) True by (intro exI [of _ ?t]) (simp add: Let_def)
  next
    case False
    let ?p = "put ?a ?q p s"
    have ok: "seq_ok ?q" "run_ok ?q" "seq_st ?q \<noteq> WAITING" "lively_seq ?q"
      using False q cast e' by (auto simp: finished_def seq_ok_def run_ok_def lively_seq_def)
    have ids: "kv_page_ids ?q = kv_page_ids q" "prompt_tokens ?q = prompt_tokens q"
      "max_new_tokens ?q = max_new_tokens q" "seq_id ?q = seq_id q" by simp_all
    note keep = entry_put [OF h N' e q(1) ok ids p(2-4) stale]
    have cong: "healthy N (purge ?s1) = healthy N (purge ?p)" "work (purge ?s1) = work (purge ?p)"
      "queued (purge ?s1) = queued (purge ?p)" "pending_ids (purge ?s1) = pending_ids (purge ?p)"
      by (rule healthy_cong; simp)+
    have "seq_work ?q < seq_work q" using q(2) by (auto simp: seq_work_def seq_ok_def)
    then have "work (purge ?s1) < work (purge s)" using keep(2) cong(2) by linarith
    moreover have "tally (purge ?s1) = tally (purge s)"
      unfolding tally_purge cong(3,4) keep(3,4) by (simp add: put_def)
    moreover have "frame {?a} s ?s1" using p(3) by (simp add: frame_def)
    ultimately show ?thesis using p(1) keep(1) cong(1) False by (intro exI [of _ ?s1]) (simp add: Let_def)
  qed
qed

lemma complete_entries_live:
  assumes "healthy N (purge s)" and N: "now \<in> N" and "distinct (map be_seq es)" and "\<forall>e\<in>set es. entry_ok s e"
    and "distinct (sc_running s)" and ts: "ts \<noteq> 0" "\<forall>now\<in>N. now - ts \<le> 30000000"
  shows "\<exists>s'. complete_entries ts toks es i s = Inr s' \<and> healthy N (purge s') \<and> tally (purge s') = tally (purge s) \<and>
    work (purge s') + length es \<le> work (purge s)"
  using assms(1,3-5)
proof (induction es arbitrary: s i)
  case Nil
  then show ?case by simp
next
  case (Cons e es)
  have e: "entry_ok s e" using Cons.prems(3) by simp
  have "\<exists>s1 j. complete_entries ts toks (e # es) i s = complete_entries ts toks es j s1 \<and> healthy N (purge s1) \<and>
      frame {be_seq e} s s1 \<and> work (purge s1) < work (purge s) \<and> tally (purge s1) = tally (purge s)"
  proof (cases "be_is_prefill e")
    case True
    from complete_prefill_live [OF Cons.prems(1) N e True] True show ?thesis by fastforce
  next
    case False
    define b where "b \<longleftrightarrow> int i < cast_int (length toks)"
    from complete_decode_live [OF Cons.prems(1) N e False Cons.prems(4) ts, of "if b then toks ! i else 0"] obtain s1 where
      "complete_decode ts e (if b then toks ! i else 0) s = Inr s1" "healthy N (purge s1)"
      "frame {be_seq e} s s1" "work (purge s1) < work (purge s)" "tally (purge s1) = tally (purge s)" by blast
    with False show ?thesis
      by (intro exI [of _ s1] exI [of _ "if b then i + 1 else i"]) (simp add: b_def split: if_splits)
  qed
  then obtain s1 j where
    s1: "complete_entries ts toks (e # es) i s = complete_entries ts toks es j s1" "healthy N (purge s1)"
      "frame {be_seq e} s s1" "work (purge s1) < work (purge s)" "tally (purge s1) = tally (purge s)" by blast
  have "entry_ok s1 x" if "x \<in> set es" for x
  proof -
    have "be_seq x \<noteq> be_seq e" using that Cons.prems(2) by (auto simp: image_iff)
    with that Cons.prems(3) entry_ok_frame [OF s1(3), of x] show ?thesis by simp
  qed
  moreover have "distinct (sc_running s1)" using Cons.prems(4) s1(3) by (simp add: frame_def)
  ultimately obtain s2 where "complete_entries ts toks es j s1 = Inr s2" "healthy N (purge s2)"
      "tally (purge s2) = tally (purge s1)" "work (purge s2) + length es \<le> work (purge s1)"
    using Cons.IH [OF s1(2), of j] Cons.prems(2) by auto
  with s1 show ?case by (intro exI [of _ s2]) simp
qed

lemma step_complete_live:
  assumes h: "healthy N s" and N: "now \<in> N" and b: "pending_ok s (Some b)"
    and ts: "ts \<noteq> 0" "\<forall>now\<in>N. now - ts \<le> 30000000"
  obtains s' where "step_complete ts now b toks s = Inr s'" "healthy N s'" "tally s' = tally s"
    "work s' + length (sb_entries b) \<le> work s"
proof -
  have inv: "sched_inv s" and fr: "kv_fresh now s" using h N by (simp_all add: healthy_def)
  have d: "distinct (map be_seq (sb_entries b))" "\<forall>e\<in>set (sb_entries b). entry_ok s e"
    using b by (simp_all add: pending_ok_def list_all_iff)
  from step_complete_ok [OF inv d fr ts(1)] ts(2) N obtain s1 p where
    s1: "complete_entries ts toks (sb_entries b) 0 s = Inr s1"
      "step_complete ts now b toks s = Inr ((purge s1)\<lparr>sc_kv_pool := p\<rparr>)"
      "fast_avail p = fast_avail (sc_kv_pool s1) \<union> fast_stale_pages now 30000 (sc_kv_pool s1)"
      "sched_inv ((purge s1)\<lparr>sc_kv_pool := p\<rparr>)"
      "fast_touched 0 (fast_stale_pages now 30000 (sc_kv_pool s1)) (sc_kv_pool s1) p" by blast
  have "healthy N (purge s)" using h by (simp add: purge_id [OF inv])
  from complete_entries_live [OF this N d sched_invD(5) [OF inv] ts, of toks 0] s1(1) purge_id [OF inv]
  have l: "healthy N (purge s1)" "tally (purge s1) = tally s" "work (purge s1) + length (sb_entries b) \<le> work s" by simp_all
  let ?s = "(purge s1)\<lparr>sc_kv_pool := p\<rparr>"
  have load: "queued ?s = queued (purge s1)" "held ?s = held (purge s1)" "work ?s = work (purge s1)"
    "pending_ids ?s = pending_ids (purge s1)" by (rule load_cong; simp)+
  have fin: "finite (fast_avail p)" by (simp add: fast_avail_def)
  have "card (fast_avail (sc_kv_pool s1)) \<le> card (fast_avail p)" using s1(3) by (intro card_mono [OF fin]) blast
  moreover have "wanted ?s = wanted (purge s1)" by (simp add: wanted_def load(1,2))
  ultimately have "lively ?s" using l(1) by (simp add: healthy_def lively_def load(1))
  moreover have "\<forall>n\<in>N. kv_fresh n ?s"
    using l(1) touched_not_stale [OF s1(5)] load(1,2) by (fastforce simp: healthy_def kv_fresh_def)
  moreover have "tally ?s = tally (purge s1)" by (simp add: tally_def load(1,4))
  ultimately show thesis using s1(2,4) l load(3) by (intro that [of ?s]) (simp_all add: healthy_def)
qed

section \<open>Serving the queue\<close>

text \<open>
  \<open>n\<close> rounds of \<open>schedule\<close>, a forward pass, and \<open>step_complete\<close>. The clock is read three times a
  round, \<open>k\<close> counts the readings so far, and \<open>toks k\<close> are the tokens the forward pass sampled.
\<close>

primrec serve :: "(nat \<Rightarrow> u64) \<Rightarrow> (nat \<Rightarrow> int list) \<Rightarrow> nat \<Rightarrow> nat \<Rightarrow> scheduler \<Rightarrow> scheduler res" where
  "serve clock toks 0 k s = Inr s"
| "serve clock toks (Suc n) k s = rbind (schedule (clock k) s) (\<lambda>(b, s1).
     rbind (step_complete (clock (k + 1)) (clock (k + 2)) b (toks k) s1) (serve clock toks n (k + 3)))"

text \<open>No reading is 0 and a later one is at most 30 s after an earlier one.\<close>

definition timely :: "(nat \<Rightarrow> u64) \<Rightarrow> nat \<Rightarrow> nat \<Rightarrow> bool" where
  "timely clock k m \<longleftrightarrow> (\<forall>i\<in>{k..<m}. clock i \<noteq> 0 \<and> (\<forall>j\<in>{i..<m}. clock j - clock i \<le> 30000000))"

lemma healthy_mono: "healthy N s \<Longrightarrow> M \<subseteq> N \<Longrightarrow> healthy M s"
  by (auto simp: healthy_def)

lemma timely_mono: "timely clock k m \<Longrightarrow> k \<le> k' \<Longrightarrow> timely clock k' m"
  by (auto simp: timely_def)

lemma timelyD: "timely clock k m \<Longrightarrow> k < m \<Longrightarrow> clock k \<noteq> 0 \<and> (\<forall>now\<in>clock ` {k..<m}. now - clock k \<le> 30000000)"
  by (auto simp: timely_def)

lemma serve_live:
  assumes "healthy (clock ` {k..<k + 3 * n}) s" and "serving (sc_cfg s)" and "timely clock k (k + 3 * n)" and "work s \<le> n"
  shows "\<exists>s'. serve clock toks n k s = Inr s' \<and> sched_inv s' \<and> queued s' = {} \<and> tally s' = tally s"
  using assms
proof (induction n arbitrary: k s)
  case 0
  then show ?case using work_zero [of s] by (auto simp: healthy_def)
next
  case (Suc n)
  let ?N = "\<lambda>i. clock ` {i..<k + 3 * Suc n}"
  have t0: "clock k \<noteq> 0" "\<forall>now\<in>?N k. now - clock k \<le> 30000000" using timelyD [OF Suc.prems(3)] by simp_all
  obtain b s1 where s1: "schedule (clock k) s = Inr (b, s1)" "healthy (?N k) s1" "work s1 = work s" "tally s1 = tally s"
    "pending_ok s1 (Some b)" "queued s \<noteq> {} \<Longrightarrow> sb_entries b \<noteq> []"
    by (rule schedule_live [OF Suc.prems(1,2) t0]) blast
  have h1: "healthy (?N (k + 1)) s1" by (rule healthy_mono [OF s1(2)]) auto
  have now: "clock (k + 2) \<in> ?N (k + 1)" by simp
  have t1: "clock (k + 1) \<noteq> 0" "\<forall>now\<in>?N (k + 1). now - clock (k + 1) \<le> 30000000"
    using timelyD [OF timely_mono [OF Suc.prems(3), of "k + 1"]] by simp_all
  obtain s2 where s2: "step_complete (clock (k + 1)) (clock (k + 2)) b (toks k) s1 = Inr s2" "healthy (?N (k + 1)) s2"
    "tally s2 = tally s1" "work s2 + length (sb_entries b) \<le> work s1"
    by (rule step_complete_live [OF h1 now s1(5) t1])
  have "work s2 \<le> n"
  proof (cases "queued s = {}")
    case True
    then have "work s = 0" by (simp add: work_def)
    with s1(3) s2(4) show ?thesis by simp
  next
    case False
    with s1(6) have "0 < length (sb_entries b)" by simp
    with s1(3) s2(4) Suc.prems(4) show ?thesis by linarith
  qed
  moreover have "healthy (clock ` {k + 3..<k + 3 + 3 * n}) s2" by (rule healthy_mono [OF s2(2)]) auto
  moreover have "timely clock (k + 3) (k + 3 + 3 * n)" 
    using timely_mono [OF Suc.prems(3), of "k + 3"] by (simp add: add.assoc)
  moreover have "serving (sc_cfg s2)" using Suc.prems(2) s1(4) s2(3) by (simp add: tally_def)
  ultimately obtain s3 where "serve clock toks n (k + 3) s2 = Inr s3" "sched_inv s3" "queued s3 = {}" "tally s3 = tally s2"
    using Suc.IH by blast
  with s1(1,4) s2(1,3) show ?case by (intro exI [of _ s3]) simp
qed


text \<open>One request of three prompt tokens and at most two output tokens is served within five rounds.\<close>

lemma demo_served:
  obtains s where "sched_inv s" "lively s" "serving (sc_cfg s)" "kv_fresh 1 s" "work s = 5" "card (queued s) = 1"
    "sc_waiting s = [0]"
proof -
  obtain s where s: "sched_reach s None" "sc_cfg s = demo_cfg" "sc_waiting s = []" "sc_running s = []" "sc_brk s = 0"
    "fast_avail (sc_kv_pool s) = {0..<7}"
    using demo_ctor by blast
  let ?q = "new_sequence demo_cfg (sint (sc_next_id s)) [5, 6, 7] 2 0 (-1) 1" and ?s = "snd (add_request 1 [5, 6, 7] 2 0 (-1) s)"
  have o: "sc_cfg ?s = demo_cfg" "sc_waiting ?s = [0]" "sc_running ?s = []" "sc_kv_pool ?s = sc_kv_pool s" "sc_heap ?s 0 = Some ?q"
    using s by (simp_all add: add_request_def Let_def store_def demo_cfg_def)
  then have k: "queued ?s = {0}" "held ?s 0 = []" by (simp_all add: queued_def held_def new_sequence_def)
  have "sched_reach ?s None" by (rule reach_add [OF s(1)]) (simp add: request_fits_def)
  then have "sched_inv ?s" using sched_reach_inv by blast
  moreover have "lively ?s"
    using o s(6) by (simp add: lively_def wanted_def k lively_seq_def most_pages_def most_tokens_def new_sequence_def demo_cfg_def)
  moreover have "serving (sc_cfg ?s)" by (simp add: o(1) serving_def demo_cfg_def)
  moreover have "kv_fresh 1 ?s" by (simp add: kv_fresh_def k)
  moreover have "work ?s = 5" by (simp add: work_def k o(5) seq_work_def new_sequence_def)
  ultimately show thesis using k(1) o(2) by (intro that [of ?s]) simp_all
qed


end
