(* ===== verification/Scheduler_Starvation.thy ===== *)
theory Scheduler_Starvation
  imports Scheduler_Properties
begin

text \<open>
  Requests that are never served, over the rounds of the theory Scheduler_Properties: one with an
  empty prompt, and one at the head of the queue that needs more pages than the pool has.
\<close>

section \<open>Empty prompts\<close>

text \<open>No prompt, no output, and not yet decoding.\<close>

definition unfed_seq :: "sequence \<Rightarrow> bool" where
  "unfed_seq q \<longleftrightarrow> prompt_tokens q = [] \<and> output_tokens q = [] \<and> seq_st q \<in> {WAITING, PREFILL}"

definition unfed :: "nat \<Rightarrow> int \<Rightarrow> scheduler \<Rightarrow> bool" where
  "unfed a sid s \<longleftrightarrow> (\<exists>q. sc_heap s a = Some q \<and> unfed_seq q \<and> seq_id q = sid)"

lemma unfed_cong: "sc_heap s' a = sc_heap s a \<Longrightarrow> unfed a sid s' = unfed a sid s"
  by (simp add: unfed_def)

lemma unfed_seq_simps [simp]:
  "unfed_seq (q\<lparr>kv_page_ids := ids\<rparr>) = unfed_seq q"
  "unfed_seq q \<Longrightarrow> unfed_seq (q\<lparr>seq_st := PREFILL\<rparr>)"
  "unfed_seq q \<Longrightarrow> unfed_seq (q\<lparr>kv_page_ids := ids, seq_st := WAITING, prefill_cursor := 0, output_tokens := []\<rparr>)"
  by (auto simp: unfed_seq_def)

lemma unfed_alloc: "try_alloc_pages ts b n s = Inr (ok, s') \<Longrightarrow> unfed a sid s \<Longrightarrow> unfed a sid s'"
  by (auto simp: try_alloc_pages_def deref_def Let_def store_def unfed_def split: option.splits if_splits prod.splits)

lemma unfed_preempt: "preempt_sequence b s = Inr s' \<Longrightarrow> unfed a sid s \<Longrightarrow> unfed a sid s'"
  by (auto simp: preempt_sequence_def seq_free_pages_def deref_def store_def unfed_def unfed_seq_def
      split: option.splits if_splits)

lemma unfed_promoted:
  "unfed a sid s \<Longrightarrow> deref s b = Inr q \<Longrightarrow> unfed a sid ((store b (q\<lparr>seq_st := PREFILL\<rparr>) s)\<lparr>sc_running := r, sc_waiting := w\<rparr>)"
  by (auto simp: unfed_def store_def deref_def split: option.splits)

lemma unfed_promote: "promote_loop ts w s = Inr s' \<Longrightarrow> unfed a sid s \<Longrightarrow> unfed a sid s'"
  by (induction w arbitrary: s) (auto split: if_splits, (metis unfed_alloc unfed_promoted)+)

lemma unfed_prefill_alloc:
  "prefill_alloc ts b n dec bt s = Inr (ok, dec', bt', s') \<Longrightarrow> unfed a sid s \<Longrightarrow> unfed a sid s'"
  by (auto simp: prefill_alloc_def split: if_splits) (blast intro: unfed_alloc unfed_preempt)+

lemma unfed_schedule_prefill:
  "schedule_prefill ts as dec bu b s = Inr (dec', bu', b', s') \<Longrightarrow> unfed a sid s \<Longrightarrow> unfed a sid s'"
  by (induction as arbitrary: dec bu b s) (auto simp: Let_def split: if_splits, (metis unfed_prefill_alloc)+)

lemma unfed_schedule_decode: "schedule_decode ts as bu b s = Inr (b', s') \<Longrightarrow> unfed a sid s \<Longrightarrow> unfed a sid s'"
  by (induction as arbitrary: bu b s) (auto split: if_splits, (metis unfed_alloc unfed_preempt)+)

lemma unfed_schedule: "schedule ts s = Inr (b, s') \<Longrightarrow> unfed a sid s \<Longrightarrow> unfed a sid s'"
  by (auto simp: schedule_def promote_waiting_def dest!: unfed_promote unfed_schedule_prefill unfed_schedule_decode)

lemma unfed_not_scheduled: "sched_inv s \<Longrightarrow> unfed a sid s \<Longrightarrow> entry_ok s e \<Longrightarrow> be_seq e \<noteq> a"
  by (cases "a \<in> queued s") (auto simp: unfed_def unfed_seq_def entry_ok_def queued_def slot_ok_def seq_ok_def
      elim!: sched_inv_cell split: if_splits)

text \<open>
  A request with an empty prompt is never served. \<open>schedule\<close> skips it because its chunk has no
  token, and only the report of a chunk turns a sequence to decoding. Whatever the following rounds do,
  it stays in a queue without an output token, and once promoted it keeps one of the places in \<open>running_\<close>.
\<close>

theorem empty_prompt_starves:
  assumes "rounds s s'" and "sched_inv s" and "a \<in> queued s" and "sc_heap s a = Some q"
    and "prompt_tokens q = []" and "output_tokens q = []" and "seq_st q \<in> {WAITING, PREFILL}"
  shows "a \<in> queued s' \<and> (a \<in> set (sc_running s) \<longrightarrow> a \<in> set (sc_running s')) \<and>
    (\<exists>q'. sc_heap s' a = Some q' \<and> seq_id q' = seq_id q \<and> output_tokens q' = [] \<and> seq_st q' \<in> {WAITING, PREFILL})"
proof -
  have "sched_inv s' \<and> a \<in> queued s' \<and> (a \<in> set (sc_running s) \<longrightarrow> a \<in> set (sc_running s')) \<and> unfed a (seq_id q) s'"
    using assms(1)
  proof (induction rule: rounds.induct)
    case rounds_refl
    then show ?case using assms by (simp add: unfed_def unfed_seq_def)
  next
    case (rounds_add s1 prompt max_new now temp eos)
    then obtain q1 where "sc_heap s1 a = Some q1" by (auto simp: unfed_def)
    then have "a \<noteq> sc_brk s1" using rounds_add sched_invD(9) [of s1 "sc_brk s1"] by auto
    with rounds_add add_request_inv add_request_cases [of s1 now prompt max_new temp eos]
    show ?case by (auto simp: queued_def unfed_def split: if_splits)
  next
    case (rounds_step s1 ts b s2 now ts' toks s3)
    have inv: "sched_inv s1" and a: "a \<in> queued s1" "unfed a (seq_id q) s1"
      "a \<in> set (sc_running s) \<longrightarrow> a \<in> set (sc_running s1)"
      using rounds_step.IH by auto
    from schedule_ok [OF inv rounds_step.hyps(2)] rounds_step.hyps(3) obtain budget k where
      b: "building [] [] budget b s2" "sc_waiting s2 = drop k (sc_waiting s1)"
        "sc_running s2 = sc_running s1 @ take k (sc_waiting s1)"
      by auto
    have u: "unfed a (seq_id q) s2" by (rule unfed_schedule [OF rounds_step.hyps(3) a(2)])
    have q2: "a \<in> queued s2" "a \<in> set (sc_running s) \<longrightarrow> a \<in> set (sc_running s2)"
      using a(1,3) b(2,3) by (auto simp: queued_def) (metis append_take_drop_id Un_iff set_append)
    note inv2 = buildingD(1) [OF b(1)]
    have "a \<notin> be_seq ` set (sb_entries b)"
      using unfed_not_scheduled [OF inv2 u] b(1) by (auto simp: building_def)
    moreover note st = step_complete_frame [OF inv2 building_pending [OF b(1)] rounds_step.hyps(4-7)]
    ultimately show ?case using st(1,3) st(6) [of a] q2 u by (auto simp: queued_def unfed_def)
  qed
  then show ?thesis by (auto simp: unfed_def unfed_seq_def)
qed

text \<open>One empty request in the demonstration configuration.\<close>

definition demo_unfed :: "scheduler res" where
  "demo_unfed = rbind (sched_ctor demo_malloc demo_cfg) (\<lambda>s. Inr (snd (add_request 1 [] 2 0 (-1) s)))"

lemma demo_unfed_obs:
  "map_sum id (\<lambda>s. map_option (\<lambda>q. (prompt_tokens q, output_tokens q, seq_st q)) (sc_heap s 0)) demo_unfed =
    Inr (Some ([], [], WAITING))"
  "map_sum id (\<lambda>(b, s). (sb_entries b, sc_running s, unstale 1 s)) (rbind demo_unfed (schedule 1)) = Inr ([], [0], True)"
  by code_simp+

theorem empty_prompt_starves_witness:
  "\<exists>s b s1 s2. demo_unfed = Inr s \<and> schedule 1 s = Inr (b, s1) \<and> step_complete 1 1 b [] s1 = Inr s2 \<and> 0 \<in> queued s2"
proof -
  obtain s0 where s0: "sched_ctor demo_malloc demo_cfg = Inr s0" "sched_reach s0 None" "sc_cfg s0 = demo_cfg"
    "sc_waiting s0 = []" "sc_brk s0 = 0"
    using demo_ctor by blast
  let ?s = "snd (add_request 1 [] 2 0 (-1) s0)"
  have s: "demo_unfed = Inr ?s" by (simp add: demo_unfed_def s0(1))
  have r: "sched_reach ?s None" by (rule reach_add [OF s0(2)]) (simp add: request_fits_def)
  have k: "0 \<in> queued ?s"
    using s0(3-5) by (simp add: add_request_def Let_def queued_def store_def demo_cfg_def)
  obtain q where q: "sc_heap ?s 0 = Some q" "prompt_tokens q = []" "output_tokens q = []" "seq_st q = WAITING"
    using demo_unfed_obs(1) by (auto simp: s)
  obtain b s1 where s1: "schedule 1 ?s = Inr (b, s1)" "sched_reach s1 (Some b)"
    by (rule reach_schedule_ex [OF r, of 1]) simp_all
  have u: "unstale 1 s1" using demo_unfed_obs(2) by (simp add: s s1(1))
  obtain s2 where s2: "step_complete 1 1 b [] s1 = Inr s2"
    by (rule reach_step_ex [OF s1(2) u, of 1 "[]"]) simp_all
  have "rounds ?s s2"
    by (rule rounds_step [OF rounds_refl _ s1(1) unstale_fresh [OF u] _ _ s2]) simp_all
  from empty_prompt_starves [OF this _ k q(1-3)] q(4) sched_reach_inv [OF r] s s1(1) s2 show ?thesis by auto
qed


section \<open>The head of the queue\<close>

lemma held_card: "sched_inv s \<Longrightarrow> a \<in> queued s \<Longrightarrow> length (held s a) \<le> card (fast_universe (sc_kv_pool s))"
  using ownsD(1,2) [OF sched_invD(11) [unfolded kv_owned_def], of s a]
    card_mono [of "fast_universe (sc_kv_pool s)" "set (held s a)"] distinct_card [of "held s a"]
  by (simp add: fast.universe_finite)

text \<open>A sequence for whose prefill of \<open>n\<close> tokens all the pages of the pool are not enough.\<close>

definition oversized :: "scheduler \<Rightarrow> sequence \<Rightarrow> bool" where
  "oversized s q \<longleftrightarrow> kv_page_size_tokens (sc_cfg s) * int (card (fast_universe (sc_kv_pool s))) <
     int (length (prompt_tokens q) + length (output_tokens q)) + kv_page_size_tokens (sc_cfg s)"

lemma promote_blocked:
  assumes inv: "sched_inv s" and w: "sc_waiting s = a # w" and q: "sc_heap s a = Some q"
    and big: "oversized s q" and ts: "ts \<noteq> 0"
  obtains p where "promote_waiting ts s = Inr (put a q p s)" "sched_inv (put a q p s)"
    "fast_universe p = fast_universe (sc_kv_pool s)"
proof (cases "int (length (sc_running s)) < max_seqs_running (sc_cfg s)")
  case False
  then show thesis using inv w q
    by (intro that [of "sc_kv_pool s"]) (simp_all add: promote_waiting_def put_same)
next
  case True
  let ?n = "kv_page_size_tokens (sc_cfg s)"
  have a: "a \<in> queued s" using w by (simp add: queued_def)
  have n: "0 \<le> ?n" "?n \<le> 2 ^ 29" using sched_invD(1) [OF inv] by (simp_all add: cfg_ok_def)
  from try_alloc_ok [OF inv a q n ts] obtain ok ids p where
    al: "try_alloc_pages ts a ?n s = Inr (ok, put a (q\<lparr>kv_page_ids := kv_page_ids q @ ids\<rparr>) p s)"
      "sched_inv (put a (q\<lparr>kv_page_ids := kv_page_ids q @ ids\<rparr>) p s)"
      "fast_universe p = fast_universe (sc_kv_pool s)"
      "if ok then covers (sc_cfg s) (q\<lparr>kv_page_ids := kv_page_ids q @ ids\<rparr>) ?n else ids = []"
    by blast
  have "int (length (kv_page_ids q @ ids)) \<le> int (card (fast_universe (sc_kv_pool s)))"
    using held_card [OF al(2), of a] a al(3) by simp
  then have "?n * int (length (kv_page_ids q @ ids)) \<le> ?n * int (card (fast_universe (sc_kv_pool s)))"
    using n(1) by (rule mult_left_mono)
  then have "\<not> ok" using al(4) big by (auto simp: covers_def oversized_def)
  then show thesis using al w True inv
    by (intro that [of p]) (simp_all add: promote_waiting_def)
qed

text \<open>
  C13: promotion looks at the head of \<open>waiting_\<close> only, and \<open>add_request\<close> accepts any prompt. A request
  at the head that cannot get the pages of its prompt and one page more, even from an empty pool, blocks
  the scheduler for good: in all following rounds it stays where it is, no request behind it is ever
  promoted, and \<open>running_\<close> only shrinks.
\<close>

theorem oversized_blocks_queue:
  assumes "rounds s s'" and "sched_inv s" and "sc_waiting s = a # w" and "sc_heap s a = Some q" and "oversized s q"
  shows "\<exists>w'. sc_waiting s' = sc_waiting s @ w' \<and> set (sc_running s') \<subseteq> set (sc_running s) \<and> sc_heap s' a = Some q"
proof -
  have "sched_inv s' \<and> (\<exists>w'. sc_waiting s' = sc_waiting s @ w') \<and> set (sc_running s') \<subseteq> set (sc_running s) \<and>
      sc_heap s' a = Some q \<and> oversized s' q"
    using assms(1)
  proof (induction rule: rounds.induct)
    case rounds_refl
    then show ?case using assms by simp
  next
    case (rounds_add s1 prompt max_new now temp eos)
    then have "a \<noteq> sc_brk s1" using sched_invD(9) [of s1 "sc_brk s1"] by auto
    moreover have "sc_kv_pool (snd (add_request now prompt max_new temp eos s1)) = sc_kv_pool s1"
      "sc_cfg (snd (add_request now prompt max_new temp eos s1)) = sc_cfg s1"
      "sc_running (snd (add_request now prompt max_new temp eos s1)) = sc_running s1"
      by (simp_all add: add_request_def Let_def store_def)
    ultimately show ?case
      using rounds_add add_request_inv add_request_cases [of s1 now prompt max_new temp eos]
      by (auto simp: oversized_def split: if_splits)
  next
    case (rounds_step s1 ts b s2 now ts' toks s3)
    then obtain w' where inv: "sched_inv s1" and s1: "sc_waiting s1 = a # w @ w'" "sc_heap s1 a = Some q" "oversized s1 q"
      "set (sc_running s1) \<subseteq> set (sc_running s)"
      using assms(3) by auto
    obtain p where p: "promote_waiting ts s1 = Inr (put a q p s1)" "sched_inv (put a q p s1)"
      "fast_universe p = fast_universe (sc_kv_pool s1)"
      by (rule promote_blocked [OF inv s1(1-3) rounds_step.hyps(2)])
    let ?t = "put a q p s1"
    have idle: "a \<notin> set (state_in ?t PREFILL) \<union> set (state_in ?t DECODE)"
      using sched_invD(6) [OF inv] s1(1) by (auto simp: state_in_def)
    obtain budget where b: "building [] [] budget b s2"
        "frame (set (state_in ?t PREFILL) \<union> set (state_in ?t DECODE)) ?t s2"
        "be_seq ` set (sb_entries b) \<subseteq> set (state_in ?t PREFILL) \<union> set (state_in ?t DECODE)"
      using schedule_built [OF p(1,2) rounds_step.hyps(2)] rounds_step.hyps(3) by (metis Inr_inject prod.inject)
    then have s2: "sc_waiting s2 = a # w @ w'" "sc_running s2 = sc_running s1" "sc_heap s2 a = Some q" "oversized s2 q"
        "a \<notin> be_seq ` set (sb_entries b)" "a \<in> queued s2"
      using idle s1 p(3) by (auto simp: frame_def oversized_def queued_def)
    note st = step_complete_frame [OF buildingD(1) [OF b(1)] building_pending [OF b(1)] rounds_step.hyps(4-7)]
    have "oversized s3 q" using s2(4) st(2,5) by (simp add: oversized_def)
    moreover have "sc_heap s3 a = Some q" using st(6) [OF s2(6,5)] s2(3) by simp
    ultimately show ?case using st(1,3,4) s2(1,2) s1(4) assms(3) by auto
  qed
  then show ?thesis by blast
qed

text \<open>A prompt of 25 tokens, which the seven pages of four tokens can hold, and one of a single token behind it.\<close>

definition demo_oversized :: "scheduler res" where
  "demo_oversized = rbind (sched_ctor demo_malloc demo_cfg) (\<lambda>s.
     Inr (snd (add_request 1 [5] 1 0 (-1) (snd (add_request 1 (replicate 25 5) 1 0 (-1) s)))))"

lemma demo_oversized_obs:
  "map_sum id (\<lambda>s. map_option (\<lambda>q. (length (prompt_tokens q), length (output_tokens q))) (sc_heap s 0)) demo_oversized =
    Inr (Some (25, 0))"
  "map_sum id (\<lambda>(b, s). unstale 1 s) (rbind demo_oversized (schedule 1)) = Inr True"
  by code_simp+

theorem oversized_blocks_queue_witness:
  "\<exists>s b s1 s2. demo_oversized = Inr s \<and> schedule 1 s = Inr (b, s1) \<and> step_complete 1 1 b [] s1 = Inr s2 \<and>
    take 2 (sc_waiting s2) = [0, 1] \<and> sc_running s2 = []"
proof -
  obtain s0 where s0: "sched_ctor demo_malloc demo_cfg = Inr s0" "sched_reach s0 None" "sc_cfg s0 = demo_cfg"
    "sc_waiting s0 = []" "sc_running s0 = []" "sc_brk s0 = 0" "fast_universe (sc_kv_pool s0) = {0..<7}"
    using demo_ctor by blast
  let ?s = "snd (add_request 1 [5] 1 0 (-1) (snd (add_request 1 (replicate 25 5) 1 0 (-1) s0)))"
  have s: "demo_oversized = Inr ?s" by (simp add: demo_oversized_def s0(1))
  have r: "sched_reach ?s None" by (intro reach_add s0(2)) (simp_all add: request_fits_def)
  have k: "sc_waiting ?s = [0, 1]" "sc_running ?s = []" "fast_universe (sc_kv_pool ?s) = {0..<7}" "sc_cfg ?s = demo_cfg"
    using s0(3-7) by (simp_all add: add_request_def Let_def store_def demo_cfg_def)
  obtain q where q: "sc_heap ?s 0 = Some q" "length (prompt_tokens q) = 25" "output_tokens q = []"
    using demo_oversized_obs(1) by (auto simp: s)
  then have big: "oversized ?s q" using k(3,4) by (simp add: oversized_def demo_cfg_def)
  obtain b s1 where s1: "schedule 1 ?s = Inr (b, s1)" "sched_reach s1 (Some b)"
    by (rule reach_schedule_ex [OF r, of 1]) simp_all
  have u: "unstale 1 s1" using demo_oversized_obs(2) by (simp add: s s1(1))
  obtain s2 where s2: "step_complete 1 1 b [] s1 = Inr s2"
    by (rule reach_step_ex [OF s1(2) u, of 1 "[]"]) simp_all
  have "rounds ?s s2"
    by (rule rounds_step [OF rounds_refl _ s1(1) unstale_fresh [OF u] _ _ s2]) simp_all
  from oversized_blocks_queue [OF this _ k(1) q(1) big] k(1,2) sched_reach_inv [OF r] s s1(1) s2 show ?thesis
    by auto
qed

end
