(* ===== verification/Sha256.thy ===== *)
theory Sha256
  imports Prelude
begin

text \<open>
  The SHA-256 of the cache (src/cache.cpp, struct \<open>SHA256\<close>): the streaming implementation with
  its 64 byte buffer, and the standard's definition by padding and blocks, to which it is shown
  equal. \<open>sh_buf\<close> holds the first \<open>buf_len\<close> bytes of \<open>buf\<close>; the rest of the array is never
  read.
\<close>

unbundle bit_operations_syntax

section \<open>The implementation\<close>

record sha256 =
  sh_h :: "u32 list"
  sh_bit_len :: u64
  sh_buf :: "byte list"

definition sha_init :: sha256 where
  "sha_init = \<lparr>sh_h = [0x6a09e667, 0xbb67ae85, 0x3c6ef372, 0xa54ff53a,
     0x510e527f, 0x9b05688c, 0x1f83d9ab, 0x5be0cd19], sh_bit_len = 0, sh_buf = []\<rparr>"

definition rot :: "u32 \<Rightarrow> nat \<Rightarrow> u32" where
  "rot x n = drop_bit n x OR push_bit (32 - n) x"

text \<open>The round constants, one row per line of the table in the code.\<close>

definition sha_K :: "u32 list" where
  "sha_K = concat
    [[0x428a2f98, 0x71374491, 0xb5c0fbcf, 0xe9b5dba5, 0x3956c25b, 0x59f111f1],
     [0x923f82a4, 0xab1c5ed5, 0xd807aa98, 0x12835b01, 0x243185be, 0x550c7dc3],
     [0x72be5d74, 0x80deb1fe, 0x9bdc06a7, 0xc19bf174, 0xe49b69c1, 0xefbe4786],
     [0x0fc19dc6, 0x240ca1cc, 0x2de92c6f, 0x4a7484aa, 0x5cb0a9dc, 0x76f988da],
     [0x983e5152, 0xa831c66d, 0xb00327c8, 0xbf597fc7, 0xc6e00bf3, 0xd5a79147],
     [0x06ca6351, 0x14292967, 0x27b70a85, 0x2e1b2138, 0x4d2c6dfc, 0x53380d13],
     [0x650a7354, 0x766a0abb, 0x81c2c92e, 0x92722c85, 0xa2bfe8a1, 0xa81a664b],
     [0xc24b8b70, 0xc76c51a3, 0xd192e819, 0xd6990624, 0xf40e3585, 0x106aa070],
     [0x19a4c116, 0x1e376c08, 0x2748774c, 0x34b0bcb5, 0x391c0cb3, 0x4ed8aa4a],
     [0x5b9cca4f, 0x682e6ff3, 0x748f82ee, 0x78a5636f, 0x84c87814, 0x8cc70208],
     [0x90befffa, 0xa4506ceb, 0xbef9a3f7, 0xc67178f2]]"

text \<open>The message schedule: sixteen big-endian words, then 48 derived ones.\<close>

definition load_be :: "byte list \<Rightarrow> nat \<Rightarrow> u32" where
  "load_be p i = push_bit 24 (ucast (p ! (i * 4))) OR push_bit 16 (ucast (p ! (i * 4 + 1))) OR
     push_bit 8 (ucast (p ! (i * 4 + 2))) OR ucast (p ! (i * 4 + 3))"

definition next_w :: "u32 list \<Rightarrow> nat \<Rightarrow> u32" where
  "next_w w i =
     (let s0 = rot (w ! (i - 15)) 7 XOR rot (w ! (i - 15)) 18 XOR drop_bit 3 (w ! (i - 15));
          s1 = rot (w ! (i - 2)) 17 XOR rot (w ! (i - 2)) 19 XOR drop_bit 10 (w ! (i - 2))
      in w ! (i - 16) + s0 + w ! (i - 7) + s1)"

definition msg_schedule :: "byte list \<Rightarrow> u32 list" where
  "msg_schedule p = fold (\<lambda>i w. w @ [next_w w i]) [16..<64] (map (load_be p) [0..<16])"

type_synonym sha_vars = "u32 \<times> u32 \<times> u32 \<times> u32 \<times> u32 \<times> u32 \<times> u32 \<times> u32"

definition sha_round :: "u32 \<Rightarrow> u32 \<Rightarrow> sha_vars \<Rightarrow> sha_vars" where
  "sha_round k wi = (\<lambda>(a, b, c, d, e, f, g, hh).
     let S1 = rot e 6 XOR rot e 11 XOR rot e 25;
         ch = (e AND f) XOR (NOT e AND g);
         t1 = hh + S1 + ch + k + wi;
         S0 = rot a 2 XOR rot a 13 XOR rot a 22;
         mj = (a AND b) XOR (a AND c) XOR (b AND c);
         t2 = S0 + mj
     in (t1 + t2, a, b, c, d + t1, e, f, g))"

definition sha_compress :: "u32 list \<Rightarrow> byte list \<Rightarrow> u32 list" where
  "sha_compress h p =
     (let w = msg_schedule p;
          (a, b, c, d, e, f, g, hh) = fold (\<lambda>i v. sha_round (sha_K ! i) (w ! i) v) [0..<64]
            (h ! 0, h ! 1, h ! 2, h ! 3, h ! 4, h ! 5, h ! 6, h ! 7)
      in [h ! 0 + a, h ! 1 + b, h ! 2 + c, h ! 3 + d, h ! 4 + e, h ! 5 + f, h ! 6 + g, h ! 7 + hh])"

definition sha_block :: "byte list \<Rightarrow> sha256 \<Rightarrow> sha256" where
  "sha_block p s = s\<lparr>sh_h := sha_compress (sh_h s) p\<rparr>"

text \<open>
  The copy loop of \<open>update\<close>. A full buffer at the top of the loop would never make progress;
  the loop empties a full buffer at once, so that case does not occur.
\<close>

function sha_absorb :: "byte list \<Rightarrow> sha256 \<Rightarrow> sha256" where
  "sha_absorb d s =
     (if d = [] \<or> 64 \<le> length (sh_buf s) then s
      else let k = min (64 - length (sh_buf s)) (length d);
               s1 = s\<lparr>sh_buf := sh_buf s @ take k d\<rparr>
           in sha_absorb (drop k d)
             (if length (sh_buf s1) = 64 then (sha_block (sh_buf s1) s1)\<lparr>sh_buf := []\<rparr> else s1))"
  by pat_completeness auto
termination by (relation "measure (length \<circ> fst)") auto

declare sha_absorb.simps [simp del]

definition sha_update :: "byte list \<Rightarrow> sha256 \<Rightarrow> sha256" where
  "sha_update d s =
     sha_absorb d (s\<lparr>sh_bit_len := sh_bit_len s + word_of_nat (length d) * 8\<rparr>)"

text \<open>Absorbing one byte, and the buffered loop as a fold over bytes.\<close>

definition sha_byte :: "byte \<Rightarrow> sha256 \<Rightarrow> sha256" where
  "sha_byte b s = (let s1 = s\<lparr>sh_buf := sh_buf s @ [b]\<rparr> in
     if length (sh_buf s1) = 64 then (sha_block (sh_buf s1) s1)\<lparr>sh_buf := []\<rparr> else s1)"

lemma sha_byte_buf: "length (sh_buf s) < 64 \<Longrightarrow> length (sh_buf (sha_byte b s)) < 64"
  by (simp add: sha_byte_def Let_def)

lemma fold_bytes_buf: "length (sh_buf s) < 64 \<Longrightarrow> length (sh_buf (fold sha_byte d s)) < 64"
  by (induction d arbitrary: s) (simp_all add: sha_byte_buf)

lemma fold_bytes_fill:
  "length (sh_buf s) + length xs < 64 \<Longrightarrow> fold sha_byte xs s = s\<lparr>sh_buf := sh_buf s @ xs\<rparr>"
  by (induction xs arbitrary: s) (simp_all add: sha_byte_def)

lemma fold_bytes_full:
  assumes "length (sh_buf s) + length xs = 64" and "xs \<noteq> []"
  shows "fold sha_byte xs s = (sha_block (sh_buf s @ xs) s)\<lparr>sh_buf := []\<rparr>"
proof -
  obtain ys y where xs: "xs = ys @ [y]" using assms(2) by (metis rev_exhaust)
  with assms have "fold sha_byte ys s = s\<lparr>sh_buf := sh_buf s @ ys\<rparr>" by (simp add: fold_bytes_fill)
  with assms xs show ?thesis by (simp add: sha_byte_def sha_block_def)
qed

lemma absorb_eq: "length (sh_buf s) < 64 \<Longrightarrow> sha_absorb d s = fold sha_byte d s"
proof (induction d s rule: sha_absorb.induct)
  case (1 d s)
  show ?case
  proof (cases "d = []")
    case True
    then show ?thesis by (subst sha_absorb.simps) simp
  next
    case False
    define k where "k = min (64 - length (sh_buf s)) (length d)"
    have k: "0 < k" "k \<le> length d" "length (sh_buf s) + k \<le> 64"
      using False "1.prems" by (auto simp: k_def)
    let ?s1 = "s\<lparr>sh_buf := sh_buf s @ take k d\<rparr>"
    let ?s2 = "if length (sh_buf ?s1) = 64 then (sha_block (sh_buf ?s1) ?s1)\<lparr>sh_buf := []\<rparr> else ?s1"
    have s2: "?s2 = fold sha_byte (take k d) s"
      using k False fold_bytes_full [of s "take k d"] fold_bytes_fill [of s "take k d"]
      by (auto simp: sha_block_def)
    have "length (sh_buf ?s2) < 64" unfolding s2 by (rule fold_bytes_buf [OF "1.prems"])
    then have "sha_absorb (drop k d) ?s2 = fold sha_byte (drop k d) ?s2"
      using "1.IH" [OF _ k_def refl] False "1.prems" by auto
    moreover have "sha_absorb d s = sha_absorb (drop k d) ?s2"
      using False "1.prems" by (subst sha_absorb.simps) (simp add: k_def Let_def)
    ultimately show ?thesis
      unfolding s2 by (metis append_take_drop_id fold_append comp_apply)
  qed
qed

text \<open>The zero bytes of \<open>hexdigest\<close>, up to 56 bytes in the buffer.\<close>

lemma update_one: "length (sh_buf s) < 64 \<Longrightarrow>
    sha_update [b] s = sha_byte b (s\<lparr>sh_bit_len := sh_bit_len s + 8\<rparr>)"
  by (simp add: sha_update_def absorb_eq)

function sha_zeros :: "sha256 \<Rightarrow> sha256" where
  "sha_zeros s = (if length (sh_buf s) = 56 \<or> 64 \<le> length (sh_buf s) then s
     else sha_zeros (sha_update [0] s))"
  by pat_completeness auto
termination
proof (relation "measure (\<lambda>s. (120 - length (sh_buf s)) mod 64)")
  fix s :: sha256 assume "\<not> (length (sh_buf s) = 56 \<or> 64 \<le> length (sh_buf s))"
  then have "length (sh_buf s) < 64" "length (sh_buf s) \<noteq> 56" by auto
  moreover from this(1) have "length (sh_buf (sha_update [0] s)) =
      (if length (sh_buf s) = 63 then 0 else length (sh_buf s) + 1)"
    by (simp add: update_one sha_byte_def Let_def)
  ultimately show "(sha_update [0] s, s) \<in> measure (\<lambda>s. (120 - length (sh_buf s)) mod 64)"
    by (auto simp: mod_if)
qed simp

declare sha_zeros.simps [simp del]

definition hex_digit :: "nat \<Rightarrow> char" where
  "hex_digit n = ''0123456789abcdef'' ! n"

definition hex8 :: "u32 \<Rightarrow> string" where
  "hex8 w = map (\<lambda>i. hex_digit (unat (drop_bit (4 * (7 - i)) w AND 15))) [0..<8]"

definition be64 :: "u64 \<Rightarrow> byte list" where
  "be64 bl = map (\<lambda>i. ucast (drop_bit ((7 - i) * 8) bl AND 0xff)) [0..<8]"

definition sha_hexdigest :: "sha256 \<Rightarrow> string" where
  "sha_hexdigest s =
     (let bl = sh_bit_len s;
          s1 = sha_zeros (sha_update [0x80] s);
          s2 = sha_update (be64 bl) s1
      in concat (map hex8 (sh_h s2)))"

section \<open>The standard's definition\<close>

text \<open>
  Padding (RFC 6234, section 4.1): a one bit, the least number of zero bits, and the length of
  the message in bits as a 64 bit number, so that the result is a whole number of blocks.
\<close>

definition sha_pad :: "byte list \<Rightarrow> byte list" where
  "sha_pad m = m @ [0x80] @ replicate ((64 - (length m + 9) mod 64) mod 64) 0 @
     be64 (word_of_nat (8 * length m))"

fun blocks64 :: "byte list \<Rightarrow> byte list list" where
  "blocks64 xs = (if length xs < 64 then [] else take 64 xs # blocks64 (drop 64 xs))"

declare blocks64.simps [simp del] fold_replicate [simp del]

definition sha_spec :: "byte list \<Rightarrow> u32 list" where
  "sha_spec m = fold (\<lambda>p h. sha_compress h p) (blocks64 (sha_pad m)) (sh_h sha_init)"

section \<open>Equality\<close>

lemma sha_byte_bit_len:
  "sha_byte b (s\<lparr>sh_bit_len := x\<rparr>) = (sha_byte b s)\<lparr>sh_bit_len := x\<rparr>"
  by (simp add: sha_byte_def sha_block_def Let_def)

lemma fold_byte_bit_len:
  "fold sha_byte d (s\<lparr>sh_bit_len := x\<rparr>) = (fold sha_byte d s)\<lparr>sh_bit_len := x\<rparr>"
  by (induction d arbitrary: s) (simp_all add: sha_byte_bit_len)

lemma sha_byte_keeps_len: "sh_bit_len (sha_byte b s) = sh_bit_len s"
  by (simp add: sha_byte_def sha_block_def Let_def)

lemma fold_byte_keeps_len: "sh_bit_len (fold sha_byte d s) = sh_bit_len s"
  by (induction d arbitrary: s) (simp_all add: sha_byte_keeps_len)

lemma update_eq:
  "length (sh_buf s) < 64 \<Longrightarrow> sha_update d s =
    (fold sha_byte d s)\<lparr>sh_bit_len := sh_bit_len s + word_of_nat (length d) * 8\<rparr>"
  by (simp add: sha_update_def absorb_eq fold_byte_bit_len)

lemma zeros_eq:
  "length (sh_buf s) < 64 \<Longrightarrow> \<exists>x. sha_zeros s =
    (fold sha_byte (replicate ((120 - length (sh_buf s)) mod 64) 0) s)\<lparr>sh_bit_len := x\<rparr>"
proof (induction s rule: sha_zeros.induct)
  case (1 s)
  show ?case
  proof (cases "length (sh_buf s) = 56")
    case True
    then show ?thesis
      by (subst sha_zeros.simps) (auto intro: exI [of _ "sh_bit_len s"])
  next
    case False
    let ?s = "sha_update [0] s"
    have up: "?s = (sha_byte 0 s)\<lparr>sh_bit_len := sh_bit_len s + 8\<rparr>"
      using "1.prems" by (simp add: update_one sha_byte_bit_len)
    have len: "length (sh_buf ?s) = (if length (sh_buf s) = 63 then 0 else length (sh_buf s) + 1)"
      using "1.prems" by (simp add: up sha_byte_def Let_def)
    have z: "(120 - length (sh_buf s)) mod 64 = Suc ((120 - length (sh_buf ?s)) mod 64)"
      using "1.prems" False unfolding len by (auto simp: mod_if)
    from "1.IH" False "1.prems" len obtain x where
      "sha_zeros ?s = (fold sha_byte (replicate ((120 - length (sh_buf ?s)) mod 64) 0) ?s)\<lparr>sh_bit_len := x\<rparr>"
      by (auto split: if_splits)
    moreover have "sha_zeros s = sha_zeros ?s"
      using False "1.prems" by (subst sha_zeros.simps) simp
    ultimately show ?thesis
      unfolding z by (auto simp: up fold_byte_bit_len)
  qed
qed

lemma fold_bytes_blocks:
  "sh_buf s = [] \<Longrightarrow> sh_h (fold sha_byte d s) = fold (\<lambda>p h. sha_compress h p) (blocks64 d) (sh_h s) \<and>
    length (sh_buf (fold sha_byte d s)) = length d mod 64"
proof (induction d arbitrary: s rule: blocks64.induct)
  case (1 d)
  show ?case
  proof (cases "length d < 64")
    case True
    with "1.prems" show ?thesis by (simp add: fold_bytes_fill blocks64.simps [of d])
  next
    case False
    let ?s = "fold sha_byte (take 64 d) s"
    have "?s = (sha_block (take 64 d) s)\<lparr>sh_buf := []\<rparr>"
      using fold_bytes_full [of s "take 64 d"] False "1.prems" by (cases d) auto
    then have s': "sh_buf ?s = []" "sh_h ?s = sha_compress (sh_h s) (take 64 d)"
      by (simp_all add: sha_block_def)
    have "fold sha_byte d s = fold sha_byte (drop 64 d) ?s"
      by (metis append_take_drop_id fold_append comp_apply)
    with "1.IH" [OF False s'(1)] s'(2) False show ?thesis
      by (simp add: blocks64.simps [of d] le_mod_geq)
  qed
qed

lemma pad_zeros: "(120 - (n + 1) mod 64) mod 64 = (64 - (n + 9) mod 64) mod (64 :: nat)"
proof -
  define l where "l = (n + 1) mod 64"
  have "(n + 9) mod 64 = (l + 8) mod 64"
    unfolding l_def mod_add_left_eq by (simp add: ac_simps)
  moreover have "l < 64" by (simp add: l_def)
  moreover have "(120 - l) mod 64 = (64 - (l + 8) mod 64) mod 64"
  proof (cases "l < 56")
    case True
    then have "120 - l = (56 - l) + 64" by simp
    then have "(120 - l) mod 64 = (56 - l) mod 64" by (metis mod_add_self2)
    with True show ?thesis by simp
  next
    case False
    then have "(l + 8) mod 64 = l - 56" using \<open>l < 64\<close> by (simp add: mod_if)
    with False show ?thesis by simp
  qed
  ultimately show ?thesis unfolding l_def by simp
qed

lemma sha_streaming_eq:
  "sha_hexdigest (sha_update m sha_init) = concat (map hex8 (sha_spec m))"
proof -
  let ?s1 = "sha_update m sha_init"
  let ?f = "\<lambda>d. fold sha_byte d sha_init"
  have b0: "length (sh_buf sha_init) < 64" "sh_buf sha_init = []" by (simp_all add: sha_init_def)
  have s1: "?s1 = (?f m)\<lparr>sh_bit_len := word_of_nat (8 * length m)\<rparr>"
    by (simp add: update_eq [OF b0(1)]) (simp add: sha_init_def mult.commute)
  have len: "length (sh_buf (?f d)) = length d mod 64" for d
    using fold_bytes_blocks [OF b0(2)] by blast
  then have lt: "length (sh_buf (?f d)) < 64" for d by simp
  have "sha_update [0x80] ?s1 = (?f (m @ [0x80]))\<lparr>sh_bit_len := word_of_nat (8 * length m) + 8\<rparr>"
    using lt [of m] by (simp add: s1 update_one sha_byte_bit_len)
  moreover have "(120 - length (sh_buf (?f (m @ [0x80])))) mod 64 = (64 - (length m + 9) mod 64) mod 64"
    unfolding len using pad_zeros [of "length m"] by simp
  ultimately obtain x where x: "sha_zeros (sha_update [0x80] ?s1) =
      (?f (m @ [0x80] @ replicate ((64 - (length m + 9) mod 64) mod 64) 0))\<lparr>sh_bit_len := x\<rparr>"
    using zeros_eq [of "sha_update [0x80] ?s1"] lt [of "m @ [0x80]"]
    by (auto simp: fold_byte_bit_len)
  have up: "sh_h (sha_update d ((?f e)\<lparr>sh_bit_len := x\<rparr>)) = sh_h (?f (e @ d))" for d e x
    using lt [of e] by (simp add: update_eq fold_byte_bit_len)
  have "sh_h (sha_update (be64 (word_of_nat (8 * length m))) (sha_zeros (sha_update [0x80] ?s1))) =
      sh_h (?f (sha_pad m))"
    unfolding x sha_pad_def up by (simp only: append_assoc)
  moreover have "sh_bit_len ?s1 = word_of_nat (8 * length m)" by (simp add: s1)
  moreover have "sh_h (?f (sha_pad m)) = sha_spec m"
    using fold_bytes_blocks [OF b0(2), of "sha_pad m"] by (simp add: sha_spec_def)
  ultimately show ?thesis by (simp add: sha_hexdigest_def Let_def)
qed

lemma sha_compress_length: "length (sha_compress h p) = 8"
  by (simp add: sha_compress_def Let_def split: prod.split)

lemma sha_spec_length: "length (sha_spec m) = 8"
proof -
  have "length h = 8 \<Longrightarrow> length (fold (\<lambda>p h. sha_compress h p) bs h) = 8" for bs h
    by (induction bs arbitrary: h) (simp_all add: sha_compress_length)
  then show ?thesis by (simp add: sha_spec_def sha_init_def)
qed

lemma hex8_digits: "length (hex8 w) = 8" "set (hex8 w) \<subseteq> set ''0123456789abcdef''"
proof -
  have "hex_digit (unat (v AND 15)) \<in> set ''0123456789abcdef''" for v :: u32
  proof -
    have "v AND 15 = take_bit 4 v" by (simp add: take_bit_eq_mask mask_eq_exp_minus_1)
    then have "unat (v AND 15) < length ''0123456789abcdef''"
      using take_bit_nat_less_exp [of 4 "unat v"] by (simp add: unsigned_take_bit_eq)
    then show ?thesis unfolding hex_digit_def by (rule nth_mem)
  qed
  then show "set (hex8 w) \<subseteq> set ''0123456789abcdef''" unfolding hex8_def by auto
qed (simp add: hex8_def)


end
