(* ===== verification/Sha256_Vector.thy ===== *)
theory Sha256_Vector
  imports Sha256
begin

text \<open>
  The standard's test vector for the message \<open>abc\<close>, computed by the model: the constants, the
  message schedule, the rounds, the padding and the printing agree with RFC 6234.
\<close>

text \<open>
  The digest the code computes for the three bytes of \<open>abc\<close> is the published one.
\<close>

theorem abc_digest: "sha_hexdigest (sha_update [97, 98, 99] sha_init) =
    ''ba7816bf8f01cfea414140de5dae2223b00361a396177a9cb410ff61f20015ad''"
  by code_simp

end
