(* ===== verification/Blob_Store.thy ===== *)
theory Blob_Store
  imports Prelude
begin

text \<open>
  The contract of a store of byte strings under string keys, as \<open>CacheStore\<close> offers it to the
  two cached stores built on it. \<open>fits b\<close> says that \<open>b\<close> can be stored faithfully.
\<close>

type_synonym blob = "byte list"

locale blob_store =
  fixes fits :: "blob \<Rightarrow> bool"
    and lookup :: "string \<Rightarrow> 'd \<Rightarrow> blob option"
    and store_blob :: "string \<Rightarrow> blob \<Rightarrow> 'd \<Rightarrow> 'd"
  assumes lookup_store: "fits b \<Longrightarrow>
    lookup k (store_blob l b d) = (if k = l then Some b else lookup k d)"
begin

text \<open>After a sequence of writes a key holds the last value written to it.\<close>

definition write_all :: "(string \<times> blob) list \<Rightarrow> 'd \<Rightarrow> 'd" where
  "write_all ws d = fold (\<lambda>(k, b). store_blob k b) ws d"

lemma write_all_append: "write_all (xs @ ys) d = write_all ys (write_all xs d)"
  by (simp add: write_all_def)

lemma write_all_simps [simp]:
  "write_all [] d = d" "write_all ((k, b) # ws) d = write_all ws (store_blob k b d)"
  by (simp_all add: write_all_def)

lemma lookup_write_all:
  assumes "\<forall>(k, b)\<in>set ws. fits b"
  shows "lookup k (write_all ws d) =
    (case map_of (rev ws) k of None \<Rightarrow> lookup k d | Some b \<Rightarrow> Some b)"
  using assms
proof (induction ws rule: rev_induct)
  case Nil
  then show ?case by simp
next
  case (snoc w ws)
  then show ?case by (cases w) (auto simp: write_all_append lookup_store)
qed

end

end
