(* ===== verification/Cache_Store.thy ===== *)
theory Cache_Store
  imports Sha256 Blob_Store "HOL-Library.AList"
begin

text \<open>
  The persistent compile cache (include/cache.hpp, src/cache.cpp): the fingerprint of a compile
  graph, the binary header with its FNV-1a checksum, and the store of one file per key. The
  directory is a list of files, name and contents; multi-byte header fields are little-endian,
  as on every target of the program. A write is broken into the file system operations the code
  issues, so that an interruption between them can be stated.
\<close>

section \<open>Fingerprint\<close>

record compile_graph =
  cg_op :: string
  cg_shape :: "int list"
  cg_dtype :: string
  cg_arch :: string
  cg_tune_cfg :: string
  cg_runtime_ver :: string

text \<open>Decimal output of an \<open>int\<close>.\<close>

fun show_nat :: "nat \<Rightarrow> string" where
  "show_nat n = (if n < 10 then [char_of (48 + n)] else show_nat (n div 10) @ [char_of (48 + n mod 10)])"

declare show_nat.simps [simp del]

definition show_int :: "int \<Rightarrow> string" where
  "show_int i = (if i < 0 then CHR ''-'' # show_nat (nat (- i)) else show_nat (nat i))"

definition graph_string :: "compile_graph \<Rightarrow> string" where
  "graph_string g = cg_op g @ ''|'' @ cg_dtype g @ ''|'' @ cg_arch g @ ''|'' @
     cg_tune_cfg g @ ''|'' @ cg_runtime_ver g @ ''|'' @
     concat (map (\<lambda>d. show_int d @ '','') (cg_shape g))"

definition bytes_of :: "string \<Rightarrow> byte list" where
  "bytes_of s = map (\<lambda>c. of_char c) s"

definition fingerprint :: "compile_graph \<Rightarrow> string" where
  "fingerprint g = take 16 (sha_hexdigest (sha_update (bytes_of (graph_string g)) sha_init))"

section \<open>Header and checksum\<close>

definition fnv_step :: "byte \<Rightarrow> u32 \<Rightarrow> u32" where
  "fnv_step b h = (h XOR ucast b) * 16777619"

definition fnv1a32 :: "blob \<Rightarrow> u32" where
  "fnv1a32 d = fold fnv_step d 2166136261"

definition kMagic :: "byte list" where
  "kMagic = [0x55, 0x58, 0x4C, 0x43]"

definition kVersion :: u32 where
  "kVersion = 1"

record bin_header =
  hd_magic :: "byte list"
  hd_version :: u32
  hd_crc :: u32
  hd_len :: u32

definition le32 :: "u32 \<Rightarrow> byte list" where
  "le32 w = [ucast w, ucast (drop_bit 8 w), ucast (drop_bit 16 w), ucast (drop_bit 24 w)]"

definition read_le32 :: "byte list \<Rightarrow> u32" where
  "read_le32 b = ucast (b ! 0) OR push_bit 8 (ucast (b ! 1)) OR push_bit 16 (ucast (b ! 2)) OR
     push_bit 24 (ucast (b ! 3))"

definition header_bytes :: "bin_header \<Rightarrow> byte list" where
  "header_bytes h = hd_magic h @ le32 (hd_version h) @ le32 (hd_crc h) @ le32 (hd_len h)"

text \<open>Reading the 16 bytes; \<open>None\<close> when the file is shorter.\<close>

definition read_header :: "byte list \<Rightarrow> bin_header option" where
  "read_header f = (if length f < 16 then None
     else Some \<lparr>hd_magic = take 4 f, hd_version = read_le32 (drop 4 f),
       hd_crc = read_le32 (drop 8 f), hd_len = read_le32 (drop 12 f)\<rparr>)"

section \<open>The store\<close>

type_synonym directory = "(string \<times> byte list) list"

definition bin_name :: "string \<Rightarrow> string" where
  "bin_name key = key @ ''.bin''"

definition tmp_name :: "string \<Rightarrow> string" where
  "tmp_name key = key @ ''.tmp''"

definition decode_entry :: "byte list \<Rightarrow> blob option" where
  "decode_entry f = (case read_header f of None \<Rightarrow> None
     | Some h \<Rightarrow>
         if hd_magic h \<noteq> kMagic \<or> hd_version h \<noteq> kVersion then None
         else let rest = drop 16 f in
           if length rest < unat (hd_len h) then None
           else let bin = take (unat (hd_len h)) rest in
             if fnv1a32 bin \<noteq> hd_crc h then None else Some bin)"

definition cache_get :: "string \<Rightarrow> directory \<Rightarrow> blob option" where
  "cache_get key d = (case map_of d (bin_name key) of None \<Rightarrow> None | Some f \<Rightarrow> decode_entry f)"

definition encode_entry :: "blob \<Rightarrow> byte list" where
  "encode_entry bin = header_bytes \<lparr>hd_magic = kMagic, hd_version = kVersion,
     hd_crc = fnv1a32 bin, hd_len = word_of_nat (length bin)\<rparr> @ bin"

text \<open>The file system operations of \<open>put\<close>: truncate the temporary, write it, rename it.\<close>

datatype fs_op =
    Create string
  | Append string "byte list"
  | Rename string string

fun fs_apply :: "fs_op \<Rightarrow> directory \<Rightarrow> directory" where
  "fs_apply (Create n) d = AList.update n [] d"
| "fs_apply (Append n bs) d =
     (case map_of d n of None \<Rightarrow> d | Some f \<Rightarrow> AList.update n (f @ bs) d)"
| "fs_apply (Rename a b) d =
     (case map_of d a of None \<Rightarrow> d | Some f \<Rightarrow> AList.update b f (AList.delete a d))"

definition put_ops :: "string \<Rightarrow> blob \<Rightarrow> fs_op list" where
  "put_ops key bin = [Create (tmp_name key),
     Append (tmp_name key) (header_bytes \<lparr>hd_magic = kMagic, hd_version = kVersion,
       hd_crc = fnv1a32 bin, hd_len = word_of_nat (length bin)\<rparr>),
     Append (tmp_name key) bin,
     Rename (tmp_name key) (bin_name key)]"

definition cache_put :: "string \<Rightarrow> blob \<Rightarrow> directory \<Rightarrow> directory" where
  "cache_put key bin d = fold fs_apply (put_ops key bin) d"

text \<open>\<open>path.extension() == ".bin"\<close>: the suffix of a name with a non-empty stem.\<close>

definition is_bin :: "string \<Rightarrow> bool" where
  "is_bin n \<longleftrightarrow> 4 < length n \<and> drop (length n - 4) n = ''.bin''"

definition cache_size :: "directory \<Rightarrow> nat" where
  "cache_size d = length (filter (\<lambda>(n, f). is_bin n) d)"

definition blob_fits :: "blob \<Rightarrow> bool" where
  "blob_fits b \<longleftrightarrow> length b < 2 ^ 32"


section \<open>Round trip of an entry\<close>

lemma read_le32_le32: "read_le32 (le32 w @ xs) = w"
proof (rule bit_word_eqI)
  fix n assume "n < LENGTH(32)"
  then consider "n < 8" | "8 \<le> n" "n < 16" | "16 \<le> n" "n < 24" | "24 \<le> n" "n < 32"
    by fastforce
  then show "bit (read_le32 (le32 w @ xs)) n = bit w n"
    by cases (simp_all add: read_le32_def le32_def bit_simps less_diff_conv2)
qed

lemma le32_length [simp]: "length (le32 w) = 4"
  by (simp add: le32_def)

lemma header_length: "length (hd_magic h) = 4 \<Longrightarrow> length (header_bytes h) = 16"
  by (simp add: header_bytes_def)

lemma read_header_bytes:
  assumes "length (hd_magic h) = 4"
  shows "read_header (header_bytes h @ xs) = Some h"
proof -
  let ?f = "header_bytes h @ xs"
  have "take 4 ?f = hd_magic h" "drop 4 ?f = le32 (hd_version h) @ le32 (hd_crc h) @ le32 (hd_len h) @ xs"
    using assms by (simp_all add: header_bytes_def)
  moreover have "drop 8 ?f = le32 (hd_crc h) @ le32 (hd_len h) @ xs" "drop 12 ?f = le32 (hd_len h) @ xs"
    using assms by (simp_all add: header_bytes_def)
  ultimately show ?thesis
    using header_length [OF assms] by (simp add: read_header_def read_le32_le32)
qed

definition entry_header :: "blob \<Rightarrow> bin_header" where
  "entry_header bin = \<lparr>hd_magic = kMagic, hd_version = kVersion, hd_crc = fnv1a32 bin,
     hd_len = word_of_nat (length bin)\<rparr>"

lemma encode_entry_eq: "encode_entry bin = header_bytes (entry_header bin) @ bin"
  by (simp add: encode_entry_def entry_header_def)

lemma kMagic_length [simp]: "length kMagic = 4"
  by (simp add: kMagic_def)

lemma entry_header_simps [simp]:
  "length (hd_magic (entry_header b)) = 4" "hd_magic (entry_header b) = kMagic"
  "hd_version (entry_header b) = kVersion" "hd_crc (entry_header b) = fnv1a32 b"
  "length (header_bytes (entry_header b)) = 16"
  by (simp_all add: entry_header_def header_length)

lemma entry_header_len: "blob_fits b \<Longrightarrow> unat (hd_len (entry_header b)) = length b"
  by (simp add: entry_header_def blob_fits_def unsigned_of_nat take_bit_nat_eq_self)

text \<open>What \<open>get\<close> makes of a file that starts with the header of \<open>b\<close>.\<close>

lemma decode_with_header:
  assumes "blob_fits b"
  shows "decode_entry (header_bytes (entry_header b) @ f) =
    (if length f < length b then None
     else if fnv1a32 (take (length b) f) = fnv1a32 b then Some (take (length b) f) else None)"
  using entry_header_len [OF assms]
  by (simp add: decode_entry_def read_header_bytes)

lemma decode_encode: "blob_fits b \<Longrightarrow> decode_entry (encode_entry b) = Some b"
  by (simp add: encode_entry_eq decode_with_header)

lemma decode_truncated:
  assumes "blob_fits b" and "n < length (encode_entry b)"
  shows "decode_entry (take n (encode_entry b)) = None"
proof (cases "n < 16")
  case True
  then have "length (take n (encode_entry b)) < 16" by simp
  then show ?thesis by (simp only: decode_entry_def read_header_def if_True option.case)
next
  case False
  then have "take n (encode_entry b) = header_bytes (entry_header b) @ take (n - 16) b"
    by (simp add: encode_entry_eq)
  moreover have "n - 16 < length b" using False assms(2) by (simp add: encode_entry_eq less_diff_conv2)
  ultimately show ?thesis using assms(1) by (simp add: decode_with_header)
qed

section \<open>The checksum\<close>

text \<open>Multiplication by the FNV prime is invertible modulo \<open>2 ^ 32\<close>.\<close>

lemma fnv_prime_inverse: "(16777619 :: u32) * 899433627 = 1"
  by simp

lemma fnv_step_inject: "fnv_step b g = fnv_step c h \<longleftrightarrow> g XOR ucast b = h XOR ucast c"
proof
  assume "fnv_step b g = fnv_step c h"
  then have "(g XOR ucast b) * 16777619 * 899433627 = (h XOR ucast c) * 16777619 * 899433627"
    by (simp add: fnv_step_def)
  then show "g XOR ucast b = h XOR ucast c"
    by (simp only: mult.assoc fnv_prime_inverse mult_1_right)
qed (simp add: fnv_step_def)

lemma xor_cancel_right: "(g :: u32) XOR x = h XOR x \<longleftrightarrow> g = h"
proof
  assume "g XOR x = h XOR x"
  then have "(g XOR x) XOR x = (h XOR x) XOR x" by (rule arg_cong)
  then show "g = h" by (simp add: xor.assoc)
qed simp

lemma ucast_byte_inject: "(ucast (b :: byte) :: u32) = ucast c \<longleftrightarrow> b = c"
proof
  assume "(ucast b :: u32) = ucast c"
  then have eq: "bit (ucast b :: u32) n = bit (ucast c :: u32) n" for n by simp
  show "b = c"
  proof (rule bit_word_eqI)
    fix n assume "n < LENGTH(8)"
    with eq [of n] show "bit b n = bit c n" by (simp add: bit_simps)
  qed
qed simp

lemma fnv_fold_inject: "fold fnv_step ys g = fold fnv_step ys h \<longleftrightarrow> g = h"
  by (induction ys arbitrary: g h) (simp_all add: fnv_step_inject xor_cancel_right)

lemma fnv_single_byte:
  "fnv1a32 (xs @ b # ys) = fnv1a32 (xs @ c # ys) \<longleftrightarrow> b = c"
  by (simp add: fnv1a32_def fnv_fold_inject fnv_step_inject)
    (metis xor_cancel_right xor.commute ucast_byte_inject)


section \<open>Writing\<close>

lemma names_differ: "bin_name k \<noteq> tmp_name l"
proof
  assume "bin_name k = tmp_name l"
  then have "rev (bin_name k) = rev (tmp_name l)" by simp
  then show False by (simp add: bin_name_def tmp_name_def)
qed

lemma bin_name_inject [simp]: "bin_name k = bin_name l \<longleftrightarrow> k = l"
  by (simp add: bin_name_def)

lemma get_tmp_irrelevant:
  "cache_get k (AList.update (tmp_name l) f d) = cache_get k d"
  by (simp add: cache_get_def update_conv' names_differ)

text \<open>The temporary file after the header and the payload, or a part of them, were written.\<close>

lemma put_prefix_get:
  "cache_get k (fold fs_apply [Create (tmp_name l), Append (tmp_name l) bs] d) = cache_get k d"
  by (simp add: update_conv' get_tmp_irrelevant)

lemma cache_put_eq:
  "map_of (cache_put l b d) n =
    (if n = bin_name l then Some (encode_entry b) else if n = tmp_name l then None else map_of d n)"
  using names_differ [of l l]
  by (simp add: cache_put_def put_ops_def update_conv' delete_conv' encode_entry_def)

lemma get_put: "blob_fits b \<Longrightarrow> cache_get k (cache_put l b d) = (if k = l then Some b else cache_get k d)"
  using names_differ [of k l] by (auto simp: cache_get_def cache_put_eq decode_encode)

interpretation disk: blob_store blob_fits cache_get cache_put
  by unfold_locales (rule get_put)

section \<open>Properties\<close>

text \<open>
  C20: \<open>put\<close> followed by \<open>get\<close> returns the stored bytes, for every key and every binary below
  4 GiB, and leaves every other key as it was; in particular the last of several writes wins.
\<close>

theorem cache_put_get:
  assumes "\<forall>(k, b)\<in>set ws. length b < 2 ^ 32"
  shows "cache_get key (fold (\<lambda>(k, b). cache_put k b) ws d) =
    (case map_of (rev ws) key of None \<Rightarrow> cache_get key d | Some b \<Rightarrow> Some b)"
proof -
  have "\<forall>(k, b)\<in>set ws. blob_fits b" using assms by (auto simp: blob_fits_def)
  from disk.lookup_write_all [OF this, of key d] show ?thesis by (simp add: disk.write_all_def)
qed

theorem cache_put_get_witness:
  "cache_get ''k'' (fold (\<lambda>(k, b). cache_put k b) [(''k'', [1, 2]), (''j'', []), (''k'', [7])] []) = Some [7]"
  by (subst cache_put_get) (simp_all add: split_def)

text \<open>
  C21: a write is atomic. Stopping \<open>put\<close> before its rename, wherever inside the two writes of
  the temporary file, leaves what \<open>get\<close> returns for every key unchanged.
\<close>

theorem cache_put_atomic:
  "cache_get k (fold fs_apply (take j (put_ops l b)) d) =
      (if j < 4 then cache_get k d else cache_get k (cache_put l b d)) \<and>
    cache_get k (fold fs_apply [Create (tmp_name l),
      Append (tmp_name l) (take i (encode_entry b))] d) = cache_get k d"
proof (intro conjI)
  consider "j = 0" | "j = 1" | "j = 2" | "j = 3" | "4 \<le> j" by linarith
  then show "cache_get k (fold fs_apply (take j (put_ops l b)) d) =
      (if j < 4 then cache_get k d else cache_get k (cache_put l b d))"
    by cases (simp_all add: put_ops_def cache_put_def update_conv' get_tmp_irrelevant
        take_Cons' numeral_eq_Suc)
qed (rule put_prefix_get)

text \<open>
  C22: damage is a miss. A file cut short anywhere, even inside the header, is not decoded, and
  neither is one in which a single byte of the payload was changed: the FNV-1a checksum detects
  every change of one byte, because each of its steps is a bijection of the 32 bit state.
\<close>

theorem cache_damage_is_miss:
  assumes "length b < 2 ^ 32"
  shows "(n < length (encode_entry b) \<longrightarrow> decode_entry (take n (encode_entry b)) = None) \<and>
    (i < length b \<and> x \<noteq> b ! i \<longrightarrow> decode_entry ((encode_entry b)[16 + i := x]) = None)"
proof (intro conjI impI)
  assume "n < length (encode_entry b)"
  with assms show "decode_entry (take n (encode_entry b)) = None"
    by (simp add: decode_truncated blob_fits_def)
next
  assume i: "i < length b \<and> x \<noteq> b ! i"
  then have "b = take i b @ b ! i # drop (Suc i) b" by (simp add: id_take_nth_drop)
  moreover from i have "b[i := x] = take i b @ x # drop (Suc i) b" by (simp add: upd_conv_take_nth_drop)
  ultimately have "fnv1a32 (b[i := x]) \<noteq> fnv1a32 b"
    using i fnv_single_byte [of "take i b" x "drop (Suc i) b" "b ! i"] by metis
  moreover have "(encode_entry b)[16 + i := x] = header_bytes (entry_header b) @ b[i := x]"
    by (simp add: encode_entry_eq list_update_append)
  ultimately show "decode_entry ((encode_entry b)[16 + i := x]) = None"
    using assms by (simp add: decode_with_header blob_fits_def)
qed

theorem cache_damage_is_miss_witness:
  "decode_entry (take 17 (encode_entry [1, 2, 3])) = None \<and>
    decode_entry ((encode_entry [1, 2, 3])[16 + 1 := 9]) = None"
  using cache_damage_is_miss [of "[1, 2, 3]" 17 1 9]
  by (simp add: encode_entry_def header_bytes_def)

text \<open>
  C23: a fingerprint is a safe file name: it always has 16 characters, all of them lower case
  hexadecimal digits, so that different keys never share a file or leave the cache directory.
\<close>

theorem fingerprint_shape:
  "length (fingerprint g) = 16 \<and> set (fingerprint g) \<subseteq> set ''0123456789abcdef''"
proof -
  let ?ws = "sha_spec (bytes_of (graph_string g))"
  have len: "length (concat (map hex8 ws)) = 8 * length ws" for ws
    by (induction ws) (simp_all add: hex8_digits(1))
  have "set (concat (map hex8 ?ws)) \<subseteq> set ''0123456789abcdef''"
    unfolding set_concat set_map using hex8_digits(2) by blast
  then have "set (fingerprint g) \<subseteq> set ''0123456789abcdef''"
    unfolding fingerprint_def sha_streaming_eq by (rule order_trans [OF set_take_subset])
  moreover have "length (fingerprint g) = 16"
    unfolding fingerprint_def sha_streaming_eq by (simp add: len sha_spec_length)
  ultimately show ?thesis by blast
qed

text \<open>
  The fields of a graph are joined by \<open>|\<close> without escaping, so two different graphs can have
  the same fingerprint: here the separator moves from the operator's name to the data type.
\<close>

theorem fingerprint_collision:
  "fingerprint \<lparr>cg_op = ''a|b'', cg_shape = s, cg_dtype = ''c'', cg_arch = r, cg_tune_cfg = t, cg_runtime_ver = v\<rparr> =
    fingerprint \<lparr>cg_op = ''a'', cg_shape = s, cg_dtype = ''b|c'', cg_arch = r, cg_tune_cfg = t, cg_runtime_ver = v\<rparr>"
  by (simp add: fingerprint_def graph_string_def)

end
