(* ===== verification/Cache_Fast.thy ===== *)
theory Cache_Fast
  imports Cache_Store
begin

text \<open>
  The two-tier cache (include/cache_fast.hpp, src/cache_fast.cpp): an in-memory L1 with clock
  eviction in front of the disk store. Each operation is modelled as it runs alone; \<open>put\<close> is
  composed of its disk write and its locked L1 update, which other threads can separate. The map
  \<open>clock_pos_\<close> is left out: it is written and never read. Byte counts are natural numbers, the
  sizes of objects in memory.
\<close>

section \<open>State and operations\<close>

record l1_entry =
  le_data :: blob
  le_used :: bool

record cache_fast =
  cf_disk :: directory
  cf_l1 :: "string \<Rightarrow> l1_entry option"
  cf_clock :: "string list"
  cf_bytes :: nat
  cf_max :: nat
  cf_l1_hits :: u64
  cf_l2_hits :: u64
  cf_misses :: u64
  cf_evictions :: u64

definition cf_ctor :: "directory \<Rightarrow> nat \<Rightarrow> cache_fast" where
  "cf_ctor d max_l1_bytes = \<lparr>cf_disk = d, cf_l1 = (\<lambda>_. None), cf_clock = [], cf_bytes = 0,
     cf_max = max_l1_bytes, cf_l1_hits = 0, cf_l2_hits = 0, cf_misses = 0, cf_evictions = 0\<rparr>"

definition cf_l1_count :: "cache_fast \<Rightarrow> nat" where
  "cf_l1_count s = card (dom (cf_l1 s))"

definition over :: "nat \<Rightarrow> cache_fast \<Rightarrow> bool" where
  "over needed s \<longleftrightarrow> cf_bytes s + needed > cf_max s"

text \<open>
  One pass of the clock: \<open>kept\<close> is the part of \<open>clock_order_\<close> before the iterator, the list
  argument the part from it on. The local \<open>current\<close> equals \<open>l1_bytes_\<close> throughout.
\<close>

primrec evict_scan :: "nat \<Rightarrow> string list \<Rightarrow> string list \<Rightarrow> cache_fast \<Rightarrow> cache_fast" where
  "evict_scan needed kept [] s = s\<lparr>cf_clock := kept\<rparr>"
| "evict_scan needed kept (k # rest) s =
     (if over needed s
      then (case cf_l1 s k of
          None \<Rightarrow> evict_scan needed kept rest s
        | Some e \<Rightarrow>
            if le_used e
            then evict_scan needed (kept @ [k]) rest
              (s\<lparr>cf_l1 := (cf_l1 s)(k \<mapsto> e\<lparr>le_used := False\<rparr>)\<rparr>)
            else evict_scan needed kept rest
              (s\<lparr>cf_l1 := (cf_l1 s)(k := None), cf_bytes := cf_bytes s - length (le_data e),
                 cf_evictions := cf_evictions s + 1\<rparr>))
      else s\<lparr>cf_clock := kept @ k # rest\<rparr>)"

definition evict_pass :: "nat \<Rightarrow> cache_fast \<Rightarrow> cache_fast" where
  "evict_pass needed s = (if over needed s then evict_scan needed [] (cf_clock s) s else s)"

definition evict_to_fit :: "nat \<Rightarrow> cache_fast \<Rightarrow> cache_fast" where
  "evict_to_fit needed s =
     (if cf_max s = 0 then s
      else if cf_bytes s + needed \<le> cf_max s then s
      else evict_pass needed (evict_pass needed s))"

definition l1_put_locked :: "string \<Rightarrow> blob \<Rightarrow> cache_fast \<Rightarrow> cache_fast" where
  "l1_put_locked key bin s =
     (let s1 = evict_to_fit (length bin) s in
      s1\<lparr>cf_clock := cf_clock s1 @ [key],
         cf_l1 := (cf_l1 s1)(key \<mapsto> \<lparr>le_data = bin, le_used = True\<rparr>),
         cf_bytes := cf_bytes s1 + length bin\<rparr>)"

definition cf_get :: "string \<Rightarrow> cache_fast \<Rightarrow> blob option \<times> cache_fast" where
  "cf_get key s =
     (case cf_l1 s key of
        Some e \<Rightarrow> (Some (le_data e), s\<lparr>cf_l1 := (cf_l1 s)(key \<mapsto> e\<lparr>le_used := True\<rparr>),
          cf_l1_hits := cf_l1_hits s + 1\<rparr>)
      | None \<Rightarrow>
          (case cache_get key (cf_disk s) of
             None \<Rightarrow> (None, s\<lparr>cf_misses := cf_misses s + 1\<rparr>)
           | Some bin \<Rightarrow>
               let s1 = (if cf_l1 s key = None then l1_put_locked key bin s else s)
               in (Some bin, s1\<lparr>cf_l2_hits := cf_l2_hits s1 + 1\<rparr>)))"

definition put_disk :: "string \<Rightarrow> blob \<Rightarrow> cache_fast \<Rightarrow> cache_fast" where
  "put_disk key bin s = s\<lparr>cf_disk := cache_put key bin (cf_disk s)\<rparr>"

definition put_l1 :: "string \<Rightarrow> blob \<Rightarrow> cache_fast \<Rightarrow> cache_fast" where
  "put_l1 key bin s =
     (case cf_l1 s key of
        Some e \<Rightarrow> s\<lparr>cf_l1 := (cf_l1 s)(key \<mapsto> e\<lparr>le_data := bin, le_used := True\<rparr>),
          cf_bytes := cf_bytes s - length (le_data e) + length bin\<rparr>
      | None \<Rightarrow> l1_put_locked key bin s)"

definition cf_put :: "string \<Rightarrow> blob \<Rightarrow> cache_fast \<Rightarrow> cache_fast" where
  "cf_put key bin s = put_l1 key bin (put_disk key bin s)"

section \<open>Invariant\<close>

definition entry_size :: "cache_fast \<Rightarrow> string \<Rightarrow> nat" where
  "entry_size s k = (case cf_l1 s k of None \<Rightarrow> 0 | Some e \<Rightarrow> length (le_data e))"

definition l1_ok :: "cache_fast \<Rightarrow> bool" where
  "l1_ok s \<longleftrightarrow> distinct (cf_clock s) \<and> set (cf_clock s) = dom (cf_l1 s) \<and>
     cf_bytes s = sum_list (map (entry_size s) (cf_clock s))"

definition coherent :: "cache_fast \<Rightarrow> bool" where
  "coherent s \<longleftrightarrow> (\<forall>k e. cf_l1 s k = Some e \<longrightarrow> cache_get k (cf_disk s) = Some (le_data e))"

definition cf_inv :: "cache_fast \<Rightarrow> bool" where
  "cf_inv s \<longleftrightarrow> l1_ok s \<and> coherent s"

text \<open>The bits, and nothing else, may differ from \<open>s\<close> on the entries that are left.\<close>

definition shrunk :: "cache_fast \<Rightarrow> cache_fast \<Rightarrow> bool" where
  "shrunk s s' \<longleftrightarrow> cf_disk s' = cf_disk s \<and> cf_max s' = cf_max s \<and>
     (\<forall>k e'. cf_l1 s' k = Some e' \<longrightarrow> (\<exists>e. cf_l1 s k = Some e \<and> le_data e = le_data e'))"

lemma shrunk_refl [simp]: "shrunk s s"
  by (auto simp: shrunk_def)

lemma shrunk_trans: "shrunk s s' \<Longrightarrow> shrunk s' s'' \<Longrightarrow> shrunk s s''"
  unfolding shrunk_def by metis

lemma shrunk_coherent: "shrunk s s' \<Longrightarrow> coherent s \<Longrightarrow> coherent s'"
  unfolding shrunk_def coherent_def by metis

lemma sum_list_entry_cong:
  "(\<And>k. k \<in> set ks \<Longrightarrow> cf_l1 s' k = cf_l1 s k) \<Longrightarrow>
    sum_list (map (entry_size s') ks) = sum_list (map (entry_size s) ks)"
  by (simp add: entry_size_def cong: map_cong)

text \<open>
  One scan: \<open>kept @ todo\<close> is the clock list. Afterwards the L1 is consistent again, and either
  the new entry fits, or the whole list was visited and no remaining entry is marked.
\<close>

definition scan_post :: "nat \<Rightarrow> string list \<Rightarrow> cache_fast \<Rightarrow> cache_fast \<Rightarrow> bool" where
  "scan_post needed todo s s' \<longleftrightarrow> l1_ok s' \<and> shrunk s s' \<and>
     (over needed s' \<longrightarrow> (\<forall>k e. cf_l1 s' k = Some e \<longrightarrow> \<not> le_used e) \<and>
       (\<forall>k\<in>set todo. \<forall>e. cf_l1 s k = Some e \<longrightarrow> \<not> le_used e \<longrightarrow> cf_l1 s' k = None))"

lemma shrunk_none: "shrunk s s' \<Longrightarrow> cf_l1 s k = None \<Longrightarrow> cf_l1 s' k = None"
  unfolding shrunk_def by (metis not_None_eq)

lemma scan_postD:
  assumes "scan_post needed todo s s'"
  shows "l1_ok s'" and "shrunk s s'"
    and "over needed s' \<Longrightarrow> cf_l1 s' k = Some e \<Longrightarrow> \<not> le_used e"
    and "over needed s' \<Longrightarrow> k \<in> set todo \<Longrightarrow> cf_l1 s k = Some e \<Longrightarrow> \<not> le_used e \<Longrightarrow> cf_l1 s' k = None"
  using assms unfolding scan_post_def by blast+

lemma scan_post_mark:
  assumes "scan_post needed todo (s\<lparr>cf_l1 := (cf_l1 s)(k \<mapsto> e\<lparr>le_used := False\<rparr>)\<rparr>) s'"
    and "cf_l1 s k = Some e" and "le_used e" and "k \<notin> set todo"
  shows "scan_post needed (k # todo) s s'"
proof -
  let ?s = "s\<lparr>cf_l1 := (cf_l1 s)(k \<mapsto> e\<lparr>le_used := False\<rparr>)\<rparr>"
  note d = scan_postD [OF assms(1)]
  have "shrunk s ?s" using assms(2) by (auto simp: shrunk_def)
  then have "shrunk s s'" using d(2) by (rule shrunk_trans)
  moreover have "cf_l1 s' x = None"
    if "over needed s'" "x \<in> set (k # todo)" "cf_l1 s x = Some f" "\<not> le_used f" for x f
    using that assms(2,3,4) d(4) [of x f] by (cases "x = k") auto
  ultimately show ?thesis unfolding scan_post_def using d(1,3) by blast
qed

lemma scan_post_evict:
  assumes "scan_post needed todo (s\<lparr>cf_l1 := (cf_l1 s)(k := None), cf_bytes := n, cf_evictions := m\<rparr>) s'"
    and "k \<notin> set todo"
  shows "scan_post needed (k # todo) s s'"
proof -
  let ?s = "s\<lparr>cf_l1 := (cf_l1 s)(k := None), cf_bytes := n, cf_evictions := m\<rparr>"
  note d = scan_postD [OF assms(1)]
  have "shrunk s ?s" by (auto simp: shrunk_def)
  then have "shrunk s s'" using d(2) by (rule shrunk_trans)
  moreover have "cf_l1 s' x = None"
    if "over needed s'" "x \<in> set (k # todo)" "cf_l1 s x = Some f" "\<not> le_used f" for x f
    using that assms(2) d(4) [of x f] shrunk_none [OF d(2), of k] by (cases "x = k") auto
  ultimately show ?thesis unfolding scan_post_def using d(1,3) by blast
qed

lemma evict_scan_ok:
  assumes "distinct (kept @ todo)" and "set (kept @ todo) = dom (cf_l1 s)"
    and "cf_bytes s = sum_list (map (entry_size s) (kept @ todo))"
    and "\<forall>k\<in>set kept. \<forall>e. cf_l1 s k = Some e \<longrightarrow> \<not> le_used e"
  shows "scan_post needed todo s (evict_scan needed kept todo s)"
  using assms
proof (induction todo arbitrary: kept s)
  case Nil
  then show ?case
    by (auto simp: scan_post_def l1_ok_def shrunk_def entry_size_def cong: map_cong)
next
  case (Cons k todo)
  have k: "k \<notin> set kept" "k \<notin> set todo" using Cons.prems(1) by auto
  from Cons.prems(2) obtain e where e: "cf_l1 s k = Some e" by (auto simp: dom_def)
  consider (stop) "\<not> over needed s" | (mark) "over needed s" "le_used e"
    | (evict) "over needed s" "\<not> le_used e" by blast
  then show ?case
  proof cases
    case stop
    have size: "entry_size (s\<lparr>cf_clock := c\<rparr>) = entry_size s" for c
      by (simp add: entry_size_def fun_eq_iff)
    with stop Cons.prems show ?thesis
      by (simp add: scan_post_def l1_ok_def shrunk_def over_def size)
  next
    case mark
    let ?s = "s\<lparr>cf_l1 := (cf_l1 s)(k \<mapsto> e\<lparr>le_used := False\<rparr>)\<rparr>"
    have size: "entry_size ?s = entry_size s" using e by (auto simp: entry_size_def fun_eq_iff)
    have "scan_post needed todo ?s (evict_scan needed (kept @ [k]) todo ?s)"
      using Cons.prems e k size by (intro Cons.IH) (auto simp: dom_def)
    from scan_post_mark [OF this e mark(2) k(2)] mark e show ?thesis by simp
  next
    case evict
    let ?s = "s\<lparr>cf_l1 := (cf_l1 s)(k := None), cf_bytes := cf_bytes s - length (le_data e),
      cf_evictions := cf_evictions s + 1\<rparr>"
    have size: "sum_list (map (entry_size ?s) (kept @ todo)) = sum_list (map (entry_size s) (kept @ todo))"
      using k by (intro sum_list_entry_cong) auto
    have "entry_size s k = length (le_data e)" using e by (simp add: entry_size_def)
    then have bytes: "cf_bytes ?s = sum_list (map (entry_size ?s) (kept @ todo))"
      unfolding size using Cons.prems(3) by simp
    have dom: "set (kept @ todo) = dom (cf_l1 ?s)" using Cons.prems(2) k by auto
    have "scan_post needed todo ?s (evict_scan needed kept todo ?s)"
      using Cons.prems(1,4) k by (intro Cons.IH [OF _ dom bytes]) auto
    from scan_post_evict [OF this k(2)] evict e show ?thesis by simp
  qed
qed

lemma l1_okD:
  assumes "l1_ok s"
  shows "distinct (cf_clock s)" and "set (cf_clock s) = dom (cf_l1 s)"
    and "cf_bytes s = sum_list (map (entry_size s) (cf_clock s))"
  using assms by (simp_all add: l1_ok_def)

lemma evict_pass_ok:
  assumes "l1_ok s"
  shows "scan_post needed (cf_clock s) s (evict_pass needed s)"
proof (cases "over needed s")
  case True
  have "scan_post needed (cf_clock s) s (evict_scan needed [] (cf_clock s) s)"
    by (rule evict_scan_ok) (use l1_okD [OF assms] in auto)
  with True show ?thesis by (simp add: evict_pass_def)
next
  case False
  with assms show ?thesis by (simp add: evict_pass_def scan_post_def)
qed

lemma l1_empty_bytes: "l1_ok s \<Longrightarrow> cf_l1 s = (\<lambda>_. None) \<Longrightarrow> cf_bytes s = 0"
  by (simp add: l1_ok_def entry_size_def)

lemma evict_to_fit_ok:
  assumes "l1_ok s"
  shows "l1_ok (evict_to_fit needed s) \<and> shrunk s (evict_to_fit needed s) \<and>
    (cf_max s = 0 \<or> \<not> over needed (evict_to_fit needed s) \<or>
      cf_l1 (evict_to_fit needed s) = (\<lambda>_. None))"
proof -
  let ?s1 = "evict_pass needed s"
  let ?s2 = "evict_pass needed ?s1"
  note d1 = scan_postD [OF evict_pass_ok [OF assms, of needed]]
  note d2 = scan_postD [OF evict_pass_ok [OF d1(1), of needed]]
  have empty: "cf_l1 ?s2 k = None" if o: "over needed ?s2" for k
  proof (cases "cf_l1 ?s1 k")
    case None
    then show ?thesis by (rule shrunk_none [OF d2(2)])
  next
    case (Some e)
    have "over needed ?s1" using o unfolding evict_pass_def [of needed ?s1] by (auto split: if_splits)
    then have "\<not> le_used e" using d1(3) Some by blast
    moreover have "k \<in> set (cf_clock ?s1)" using d1(1) Some by (auto simp: l1_ok_def)
    ultimately show ?thesis using d2(4) [OF o _ Some] by blast
  qed
  have "shrunk s ?s2" using d1(2) d2(2) by (rule shrunk_trans)
  with assms d2(1) empty show ?thesis
    by (auto simp: evict_to_fit_def over_def fun_eq_iff)
qed

section \<open>Every operation keeps the invariant\<close>

lemma l1_put_locked_ok:
  assumes ok: "l1_ok s" and new: "cf_l1 s key = None"
  shows "l1_ok (l1_put_locked key bin s) \<and> cf_disk (l1_put_locked key bin s) = cf_disk s \<and>
    cf_max (l1_put_locked key bin s) = cf_max s \<and>
    (\<forall>k e'. k \<noteq> key \<longrightarrow> cf_l1 (l1_put_locked key bin s) k = Some e' \<longrightarrow>
      (\<exists>e. cf_l1 s k = Some e \<and> le_data e = le_data e')) \<and>
    cf_l1 (l1_put_locked key bin s) key = Some \<lparr>le_data = bin, le_used = True\<rparr> \<and>
    (cf_max s = 0 \<or> cf_bytes (l1_put_locked key bin s) \<le> cf_max s \<or>
      dom (cf_l1 (l1_put_locked key bin s)) = {key})"
proof -
  let ?s1 = "evict_to_fit (length bin) s"
  let ?s2 = "l1_put_locked key bin s"
  have e: "l1_ok ?s1" "shrunk s ?s1"
      "cf_max s = 0 \<or> \<not> over (length bin) ?s1 \<or> cf_l1 ?s1 = (\<lambda>_. None)"
    using evict_to_fit_ok [OF ok, of "length bin"] by auto
  have n1: "cf_l1 ?s1 key = None" by (rule shrunk_none [OF e(2) new])
  have f: "cf_clock ?s2 = cf_clock ?s1 @ [key]" "cf_bytes ?s2 = cf_bytes ?s1 + length bin"
      "cf_l1 ?s2 = (cf_l1 ?s1)(key \<mapsto> \<lparr>le_data = bin, le_used = True\<rparr>)"
      "cf_disk ?s2 = cf_disk ?s1" "cf_max ?s2 = cf_max ?s1"
    by (simp_all add: l1_put_locked_def Let_def)
  have k: "key \<notin> set (cf_clock ?s1)" using e(1) n1 by (auto simp: l1_ok_def)
  have "sum_list (map (entry_size ?s2) (cf_clock ?s1)) = sum_list (map (entry_size ?s1) (cf_clock ?s1))"
    using k by (intro sum_list_entry_cong) (auto simp: f)
  moreover have "entry_size ?s2 key = length bin" by (simp add: entry_size_def f)
  ultimately have "l1_ok ?s2" using e(1) k by (auto simp: l1_ok_def f)
  then show ?thesis
    using e(2,3) by (auto simp: f shrunk_def over_def)
qed

lemma cf_get_ok:
  assumes "cf_inv s"
  shows "fst (cf_get key s) = cache_get key (cf_disk s) \<and> cf_inv (snd (cf_get key s)) \<and>
    cf_disk (snd (cf_get key s)) = cf_disk s \<and> cf_max (snd (cf_get key s)) = cf_max s"
proof -
  have ok: "l1_ok s" "coherent s" using assms by (simp_all add: cf_inv_def)
  have cong: "cf_inv s' = cf_inv s''"
    if "cf_l1 s' = cf_l1 s''" "cf_clock s' = cf_clock s''" "cf_bytes s' = cf_bytes s''"
      "cf_disk s' = cf_disk s''" for s' s'' :: cache_fast
    using that by (simp add: cf_inv_def l1_ok_def coherent_def entry_size_def cong: map_cong)
  show ?thesis
  proof (cases "cf_l1 s key")
    case (Some e)
    let ?s = "s\<lparr>cf_l1 := (cf_l1 s)(key \<mapsto> e\<lparr>le_used := True\<rparr>), cf_l1_hits := cf_l1_hits s + 1\<rparr>"
    have "entry_size ?s = entry_size s" using Some by (auto simp: entry_size_def fun_eq_iff)
    with ok Some have "cf_inv ?s" by (auto simp: cf_inv_def l1_ok_def coherent_def)
    with Some ok(2) show ?thesis by (simp add: cf_get_def coherent_def)
  next
    case None
    show ?thesis
    proof (cases "cache_get key (cf_disk s)")
      case miss: None
      with None assms cong [of "s\<lparr>cf_misses := cf_misses s + 1\<rparr>" s] show ?thesis
        by (simp add: cf_get_def)
    next
      case (Some bin)
      let ?s = "l1_put_locked key bin s"
      note p = l1_put_locked_ok [OF ok(1) None, of bin]
      have "coherent ?s"
        unfolding coherent_def
      proof (intro allI impI)
        fix k e assume e: "cf_l1 ?s k = Some e"
        show "cache_get k (cf_disk ?s) = Some (le_data e)"
        proof (cases "k = key")
          case True
          with p e Some show ?thesis by auto
        next
          case False
          with p e obtain e0 where "cf_l1 s k = Some e0" "le_data e0 = le_data e" by blast
          with ok(2) p show ?thesis by (auto simp: coherent_def)
        qed
      qed
      then have "cf_inv ?s" using p by (simp add: cf_inv_def)
      with p None Some cong [of "?s\<lparr>cf_l2_hits := cf_l2_hits ?s + 1\<rparr>" ?s] show ?thesis
        by (simp add: cf_get_def Let_def)
    qed
  qed
qed

lemma cf_put_ok:
  assumes "cf_inv s" and "blob_fits bin"
  shows "cf_inv (cf_put key bin s) \<and> cf_disk (cf_put key bin s) = cache_put key bin (cf_disk s) \<and>
    cf_max (cf_put key bin s) = cf_max s"
proof -
  let ?s = "put_disk key bin s" and ?s' = "cf_put key bin s"
  have ok: "l1_ok ?s"
    using assms(1) by (simp add: cf_inv_def l1_ok_def put_disk_def entry_size_def cong: map_cong)
  have d: "cache_get k (cf_disk ?s) = (if k = key then Some bin else cache_get k (cf_disk s))" for k
    using disk.lookup_store [OF assms(2)] by (simp add: put_disk_def)
  have co: "cf_l1 ?s k = Some e \<Longrightarrow> k \<noteq> key \<Longrightarrow> cache_get k (cf_disk ?s) = Some (le_data e)" for k e
    using assms(1) by (simp add: d) (simp add: put_disk_def cf_inv_def coherent_def)
  show ?thesis
  proof (cases "cf_l1 ?s key")
    case None
    note p = l1_put_locked_ok [OF ok None, of bin]
    have s': "?s' = l1_put_locked key bin ?s" using None by (simp add: cf_put_def put_l1_def)
    have "coherent ?s'"
      unfolding coherent_def s'
    proof (intro allI impI)
      fix k e assume e: "cf_l1 (l1_put_locked key bin ?s) k = Some e"
      show "cache_get k (cf_disk (l1_put_locked key bin ?s)) = Some (le_data e)"
      proof (cases "k = key")
        case True
        with p e d show ?thesis by auto
      next
        case False
        with p e obtain e0 where "cf_l1 ?s k = Some e0" "le_data e0 = le_data e" by blast
        with co [of k e0] False p show ?thesis by simp
      qed
    qed
    with p s' show ?thesis by (simp add: cf_inv_def) (simp add: put_disk_def)
  next
    case (Some e)
    have s': "?s' = ?s\<lparr>cf_l1 := (cf_l1 ?s)(key \<mapsto> e\<lparr>le_data := bin, le_used := True\<rparr>),
        cf_bytes := cf_bytes ?s - length (le_data e) + length bin\<rparr>"
      using Some by (simp add: cf_put_def put_l1_def)
    have c: "distinct (cf_clock ?s)" "key \<in> set (cf_clock ?s)"
      using ok Some by (auto simp: l1_ok_def)
    then obtain xs ys where xy: "cf_clock ?s = xs @ key # ys" by (meson split_list)
    have sz: "sum_list (map (entry_size ?s') ks) = sum_list (map (entry_size ?s) ks)" if "key \<notin> set ks" for ks
      using that by (intro sum_list_entry_cong) (auto simp: s')
    have "cf_bytes ?s = sum_list (map (entry_size ?s) (cf_clock ?s))" using ok by (simp add: l1_ok_def)
    then have "cf_bytes ?s' = sum_list (map (entry_size ?s') (cf_clock ?s))"
      using c(1) Some unfolding xy by (simp add: sz) (simp add: s' entry_size_def)
    moreover have "cf_clock ?s' = cf_clock ?s" "dom (cf_l1 ?s') = dom (cf_l1 ?s)"
      using Some by (auto simp: s')
    ultimately have "l1_ok ?s'" using ok by (simp add: l1_ok_def)
    moreover have "coherent ?s'" unfolding coherent_def using co d by (auto simp: s')
    ultimately show ?thesis by (simp add: cf_inv_def) (simp add: s' put_disk_def)
  qed
qed


section \<open>Properties\<close>

text \<open>A client's calls, on the two-tier cache and on the disk store alone.\<close>

datatype store_op = Get string | Put string blob

fun cf_exec :: "store_op \<Rightarrow> cache_fast \<Rightarrow> blob option \<times> cache_fast" where
  "cf_exec (Get k) s = cf_get k s"
| "cf_exec (Put k b) s = (None, cf_put k b s)"

fun disk_exec :: "store_op \<Rightarrow> directory \<Rightarrow> blob option \<times> directory" where
  "disk_exec (Get k) d = (cache_get k d, d)"
| "disk_exec (Put k b) d = (None, cache_put k b d)"

primrec run_ops :: "(store_op \<Rightarrow> 's \<Rightarrow> blob option \<times> 's) \<Rightarrow> store_op list \<Rightarrow> 's \<Rightarrow> blob option list \<times> 's" where
  "run_ops f [] s = ([], s)"
| "run_ops f (x # xs) s = (let (r, s1) = f x s; (rs, s2) = run_ops f xs s1 in (r # rs, s2))"

fun op_fits :: "store_op \<Rightarrow> bool" where
  "op_fits (Get k) = True"
| "op_fits (Put k b) = blob_fits b"

lemma cf_exec_ok:
  assumes "cf_inv s" and "op_fits x"
  shows "cf_inv (snd (cf_exec x s)) \<and> fst (cf_exec x s) = fst (disk_exec x (cf_disk s)) \<and>
    cf_disk (snd (cf_exec x s)) = snd (disk_exec x (cf_disk s)) \<and>
    cf_max (snd (cf_exec x s)) = cf_max s"
  using assms cf_get_ok cf_put_ok by (cases x) auto

lemma cf_run_ok:
  "cf_inv s \<Longrightarrow> \<forall>x\<in>set xs. op_fits x \<Longrightarrow>
    cf_inv (snd (run_ops cf_exec xs s)) \<and> fst (run_ops cf_exec xs s) = fst (run_ops disk_exec xs (cf_disk s)) \<and>
    cf_disk (snd (run_ops cf_exec xs s)) = snd (run_ops disk_exec xs (cf_disk s))"
proof (induction xs arbitrary: s)
  case Nil
  then show ?case by simp
next
  case (Cons x xs)
  with cf_exec_ok [of s x] show ?case by (simp add: split_def Let_def)
qed

lemma cf_ctor_inv: "cf_inv (cf_ctor d n)"
  by (simp add: cf_ctor_def cf_inv_def l1_ok_def coherent_def)

text \<open>
  C24: the two-tier cache refines the disk store. Whatever the size of the L1, any sequence of
  calls returns the same answers on a fresh \<open>CacheStoreFast\<close> as on the bare \<open>CacheStore\<close> over the
  same directory, and leaves the same files: promotion and eviction are invisible.
\<close>

theorem cache_fast_refines_disk:
  assumes "\<forall>x\<in>set ops. op_fits x"
  shows "fst (run_ops cf_exec ops (cf_ctor d max_l1)) = fst (run_ops disk_exec ops d) \<and>
    cf_disk (snd (run_ops cf_exec ops (cf_ctor d max_l1))) = snd (run_ops disk_exec ops d)"
  using cf_run_ok [OF cf_ctor_inv assms, of d max_l1] by (simp add: cf_ctor_def)

theorem cache_fast_refines_disk_witness:
  "fst (run_ops cf_exec [Put ''k'' [1, 2, 3], Put ''j'' [4, 5], Get ''k''] (cf_ctor [] 4)) =
    fst (run_ops disk_exec [Put ''k'' [1, 2, 3], Put ''j'' [4, 5], Get ''k''] [])"
  using cache_fast_refines_disk [of "[Put ''k'' [1, 2, 3], Put ''j'' [4, 5], Get ''k'']" "[]" 4]
  by (simp add: blob_fits_def)

text \<open>
  C25: after a new key was brought into a bounded L1, by \<open>get\<close> or by \<open>put\<close>, either the limit
  \<open>max_l1_bytes\<close> is kept or the new entry, larger than the limit, is the only one left: two
  passes of the clock are enough to evict everything that has to go.
\<close>

theorem l1_put_bounded:
  assumes "cf_inv s" and "cf_l1 s key = None" and "cf_max s \<noteq> 0"
  shows "(cf_bytes (l1_put_locked key bin s) \<le> cf_max s \<or>
      dom (cf_l1 (l1_put_locked key bin s)) = {key} \<and> cf_bytes (l1_put_locked key bin s) = length bin) \<and>
    cf_bytes (l1_put_locked key bin s) =
      sum_list (map (entry_size (l1_put_locked key bin s)) (cf_clock (l1_put_locked key bin s)))"
proof -
  let ?s = "l1_put_locked key bin s"
  have "l1_ok s" using assms(1) by (simp add: cf_inv_def)
  note p = l1_put_locked_ok [OF this assms(2), of bin]
  then have ok: "l1_ok ?s" by simp
  have "cf_bytes ?s = length bin" if "dom (cf_l1 ?s) = {key}"
  proof -
    have "set (cf_clock ?s) = {key}" "distinct (cf_clock ?s)"
      using that l1_okD(1,2) [OF ok] by simp_all
    then have "length (cf_clock ?s) = 1" using distinct_card [of "cf_clock ?s"] by simp
    then obtain x where "cf_clock ?s = [x]" by (cases "cf_clock ?s") simp_all
    with \<open>set (cf_clock ?s) = {key}\<close> have "cf_clock ?s = [key]" by simp
    moreover have "entry_size ?s key = length bin" using p by (simp add: entry_size_def)
    ultimately show ?thesis unfolding l1_okD(3) [OF ok] by simp
  qed
  with p assms(3) have "cf_bytes ?s \<le> cf_max s \<or> dom (cf_l1 ?s) = {key} \<and> cf_bytes ?s = length bin"
    by blast
  then show ?thesis using l1_okD(3) [OF ok] by (rule conjI)
qed

theorem l1_put_bounded_witness:
  "cf_bytes (l1_put_locked ''k'' [1, 2, 3, 4, 5] (cf_ctor [] 4)) = 5 \<and>
    dom (cf_l1 (l1_put_locked ''k'' [1, 2, 3, 4, 5] (cf_ctor [] 4))) = {''k''}"
  using l1_put_bounded [OF cf_ctor_inv, of "[]" 4 "''k''" "[1, 2, 3, 4, 5]"]
  by (simp add: cf_ctor_def l1_put_locked_def evict_to_fit_def evict_pass_def over_def)

text \<open>
  Overwriting a key that is in the L1 does not evict. A cache limited to four bytes holds ten
  after a key of one byte was overwritten by a larger value, with no eviction attempted.
\<close>

theorem cf_overwrite_exceeds_limit:
  "cf_bytes (cf_put ''k'' (replicate 10 0) (cf_put ''k'' [1] (cf_ctor [] 4))) = 10 \<and>
    cf_evictions (cf_put ''k'' (replicate 10 0) (cf_put ''k'' [1] (cf_ctor [] 4))) = 0"
  by (simp add: cf_put_def put_l1_def put_disk_def cf_ctor_def l1_put_locked_def evict_to_fit_def)

text \<open>
  \<open>put\<close> writes the disk before it takes the lock of the L1, so two concurrent writers of one
  key can update the two tiers in opposite orders. Afterwards \<open>get\<close> returns the value of one
  writer from the L1 while the file holds that of the other, until the entry is evicted.
\<close>

theorem cf_concurrent_put_incoherent:
  "fst (cf_get ''k'' (put_l1 ''k'' [1] (put_l1 ''k'' [2] (put_disk ''k'' [2] (put_disk ''k'' [1] (cf_ctor [] 0)))))) =
      Some [1] \<and>
    cache_get ''k'' (cf_disk (put_l1 ''k'' [1] (put_l1 ''k'' [2]
      (put_disk ''k'' [2] (put_disk ''k'' [1] (cf_ctor [] 0)))))) = Some [2]"
proof -
  have "cache_get ''k'' (cache_put ''k'' [2] (cache_put ''k'' [1] [])) = Some [2]"
    by (simp add: disk.lookup_store blob_fits_def)
  then show ?thesis
    by (simp add: cf_get_def put_l1_def put_disk_def cf_ctor_def l1_put_locked_def evict_to_fit_def)
qed

end
