(* ===== verification/Cache_Async.thy ===== *)
theory Cache_Async
  imports Cache_Store
begin

text \<open>
  The asynchronous cache (include/cache_async.hpp, src/cache_async.cpp) as a system of threads:
  any number of clients, the list \<open>as_clients\<close>, that call \<open>get\<close>, \<open>put\<close>, \<open>flush\<close> and the destructor, and the
  writer thread of \<open>writer_loop\<close>. An event is a critical section of \<open>l1_mtx_\<close> or \<open>qm_\<close>, an
  access to the disk, or a notification of the condition variable; threads interleave between
  events. \<open>notify_one\<close> wakes one sleeper, of any kind, chosen by the schedule.
\<close>

section \<open>State\<close>

datatype writer_pc =
    W_Check                      \<comment> \<open>takes \<open>qm_\<close> and evaluates the wait predicate\<close>
  | W_Parking                    \<comment> \<open>the predicate was false; \<open>qm_\<close> is still held\<close>
  | W_Sleep
  | W_Write "string \<times> blob"      \<comment> \<open>a job was taken, \<open>busy_\<close> is set\<close>
  | W_Signal                     \<comment> \<open>the job is on disk\<close>
  | W_Exit

datatype client_pc =
    C_Idle
  | C_Put_Queue string blob
  | C_Put_Notify
  | C_Flush_Check
  | C_Flush_Sleep
  | C_Get_Disk string
  | C_Promote string blob
  | C_Dtor_Notify
  | C_Dtor_Join
  | C_Gone

record async =
  as_disk :: directory
  as_l1 :: "string \<Rightarrow> blob option"
  as_q :: "(string \<times> blob) list"
  as_busy :: bool
  as_stop :: bool
  as_writer :: writer_pc
  as_clients :: "client_pc list"
  as_l1_hits :: u64
  as_queued :: u64
  as_persisted :: u64

datatype waiter = The_Writer | A_Client nat

datatype async_event =
    Get_Begin nat string | Get_Disk nat | Get_Promote nat
  | Put_Begin nat string blob | Put_Enqueue nat | Put_Notify nat "waiter option"
  | Flush_Begin nat | Flush_Check nat
  | Dtor_Begin nat | Dtor_Notify nat | Dtor_Join nat
  | Writer_Check | Writer_Park | Writer_Write | Writer_Signal
  | Spurious waiter

section \<open>Steps\<close>

definition async_init :: "nat \<Rightarrow> directory \<Rightarrow> async" where
  "async_init n d = \<lparr>as_disk = d, as_l1 = (\<lambda>_. None), as_q = [], as_busy = False, as_stop = False,
     as_writer = W_Check, as_clients = replicate n C_Idle, as_l1_hits = 0, as_queued = 0, as_persisted = 0\<rparr>"

definition client_of :: "async \<Rightarrow> nat \<Rightarrow> client_pc" where
  "client_of s t = (if t < length (as_clients s) then as_clients s ! t else C_Gone)"

definition goto :: "nat \<Rightarrow> client_pc \<Rightarrow> async \<Rightarrow> async" where
  "goto t p s = s\<lparr>as_clients := (as_clients s)[t := p]\<rparr>"

fun asleep :: "async \<Rightarrow> waiter \<Rightarrow> bool" where
  "asleep s The_Writer \<longleftrightarrow> as_writer s = W_Sleep"
| "asleep s (A_Client t) \<longleftrightarrow> client_of s t = C_Flush_Sleep"

fun wake :: "waiter \<Rightarrow> async \<Rightarrow> async" where
  "wake The_Writer s = s\<lparr>as_writer := W_Check\<rparr>"
| "wake (A_Client t) s = goto t C_Flush_Check s"

definition wake_all :: "async \<Rightarrow> async" where
  "wake_all s = s\<lparr>as_writer := (if as_writer s = W_Sleep then W_Check else as_writer s),
     as_clients := map (\<lambda>p. if p = C_Flush_Sleep then C_Flush_Check else p) (as_clients s)\<rparr>"

text \<open>\<open>qm_\<close> is free except while the writer, having found nothing to do, is about to sleep.\<close>

definition qm_free :: "async \<Rightarrow> bool" where
  "qm_free s \<longleftrightarrow> as_writer s \<noteq> W_Parking"

fun client_step :: "async_event \<Rightarrow> async \<Rightarrow> async option" where
  "client_step (Get_Begin t k) s =
     (if client_of s t \<noteq> C_Idle then None
      else (case as_l1 s k of
          Some b \<Rightarrow> Some (s\<lparr>as_l1_hits := as_l1_hits s + 1\<rparr>)
        | None \<Rightarrow> Some (goto t (C_Get_Disk k) s)))"
| "client_step (Get_Disk t) s =
     (case client_of s t of
        C_Get_Disk k \<Rightarrow> (case cache_get k (as_disk s) of
            None \<Rightarrow> Some (goto t C_Idle s)
          | Some b \<Rightarrow> Some (goto t (C_Promote k b) s))
      | _ \<Rightarrow> None)"
| "client_step (Get_Promote t) s =
     (case client_of s t of
        C_Promote k b \<Rightarrow> Some (goto t C_Idle (s\<lparr>as_l1 := (as_l1 s)(k \<mapsto> b)\<rparr>))
      | _ \<Rightarrow> None)"
| "client_step (Put_Begin t k b) s =
     (if client_of s t \<noteq> C_Idle then None
      else Some (goto t (C_Put_Queue k b) (s\<lparr>as_l1 := (as_l1 s)(k \<mapsto> b)\<rparr>)))"
| "client_step (Put_Enqueue t) s =
     (case client_of s t of
        C_Put_Queue k b \<Rightarrow>
          (if qm_free s then Some (goto t C_Put_Notify (s\<lparr>as_q := as_q s @ [(k, b)]\<rparr>)) else None)
      | _ \<Rightarrow> None)"
| "client_step (Put_Notify t w) s =
     (if client_of s t \<noteq> C_Put_Notify then None
      else (let s1 = goto t C_Idle (s\<lparr>as_queued := as_queued s + 1\<rparr>) in
        case w of
          None \<Rightarrow> if as_writer s \<noteq> W_Sleep \<and> C_Flush_Sleep \<notin> set (as_clients s) then Some s1 else None
        | Some x \<Rightarrow> if asleep s x then Some (wake x s1) else None))"
| "client_step (Flush_Begin t) s =
     (if client_of s t \<noteq> C_Idle then None else Some (goto t C_Flush_Check s))"
| "client_step (Flush_Check t) s =
     (if client_of s t \<noteq> C_Flush_Check \<or> \<not> qm_free s then None
      else if as_q s = [] \<and> \<not> as_busy s then Some (goto t C_Idle s)
      else Some (goto t C_Flush_Sleep s))"
| "client_step (Dtor_Begin t) s =
     (if client_of s t \<noteq> C_Idle then None else Some (goto t C_Dtor_Notify (s\<lparr>as_stop := True\<rparr>)))"
| "client_step (Dtor_Notify t) s =
     (if client_of s t \<noteq> C_Dtor_Notify then None else Some (wake_all (goto t C_Dtor_Join s)))"
| "client_step (Dtor_Join t) s =
     (if client_of s t = C_Dtor_Join \<and> as_writer s = W_Exit then Some (goto t C_Gone s) else None)"
| "client_step _ s = None"

text \<open>The writer thread; \<open>Writer_Park\<close> is the atomic release and sleep inside \<open>cv_.wait\<close>.\<close>

definition writer_check :: "async \<Rightarrow> async" where
  "writer_check s = (case as_q s of
     [] \<Rightarrow> s\<lparr>as_writer := (if as_stop s then W_Exit else W_Parking)\<rparr>
   | j # q \<Rightarrow> s\<lparr>as_q := q, as_busy := True, as_writer := W_Write j\<rparr>)"

definition writer_write :: "string \<times> blob \<Rightarrow> async \<Rightarrow> async" where
  "writer_write j s = s\<lparr>as_disk := cache_put (fst j) (snd j) (as_disk s),
     as_persisted := as_persisted s + 1, as_writer := W_Signal\<rparr>"

definition writer_signal :: "async \<Rightarrow> async" where
  "writer_signal s = (let s1 = s\<lparr>as_busy := False, as_writer := W_Check\<rparr> in
     if as_q s1 = [] then wake_all s1 else s1)"

fun async_step :: "async_event \<Rightarrow> async \<Rightarrow> async option" where
  "async_step Writer_Check s = (if as_writer s = W_Check then Some (writer_check s) else None)"
| "async_step Writer_Park s =
     (if as_writer s = W_Parking then Some (s\<lparr>as_writer := W_Sleep\<rparr>) else None)"
| "async_step Writer_Write s =
     (case as_writer s of W_Write j \<Rightarrow> Some (writer_write j s) | _ \<Rightarrow> None)"
| "async_step Writer_Signal s = (if as_writer s = W_Signal then Some (writer_signal s) else None)"
| "async_step (Spurious w) s = (if asleep s w then Some (wake w s) else None)"
| "async_step e s = client_step e s"

primrec async_run :: "async_event list \<Rightarrow> async \<Rightarrow> async option" where
  "async_run [] s = Some s"
| "async_run (e # es) s = Option.bind (async_step e s) (async_run es)"

section \<open>Reachable states\<close>

text \<open>\<open>ws\<close> are the writes queued so far, in order.\<close>

fun queued_by :: "async_event \<Rightarrow> async \<Rightarrow> (string \<times> blob) list" where
  "queued_by (Put_Enqueue t) s =
     (case client_of s t of C_Put_Queue k b \<Rightarrow> if qm_free s then [(k, b)] else [] | _ \<Rightarrow> [])"
| "queued_by _ s = []"

inductive async_reach :: "directory \<Rightarrow> async \<Rightarrow> (string \<times> blob) list \<Rightarrow> bool" for d0 :: directory where
  reach_init: "async_reach d0 (async_init n d0) []"
| reach_step: "async_reach d0 s ws \<Longrightarrow> async_step e s = Some s' \<Longrightarrow>
    async_reach d0 s' (ws @ queued_by e s)"

fun inflight :: "writer_pc \<Rightarrow> (string \<times> blob) list" where
  "inflight (W_Write j) = [j]"
| "inflight _ = []"

definition async_inv :: "directory \<Rightarrow> (string \<times> blob) list \<Rightarrow> async \<Rightarrow> bool" where
  "async_inv d0 ws s \<longleftrightarrow>
     disk.write_all (inflight (as_writer s) @ as_q s) (as_disk s) = disk.write_all ws d0 \<and>
     (as_busy s \<longleftrightarrow> (\<exists>j. as_writer s = W_Write j) \<or> as_writer s = W_Signal)"

lemma inv_cong:
  "as_disk s' = as_disk s \<Longrightarrow> as_q s' = as_q s \<Longrightarrow> as_busy s' = as_busy s \<Longrightarrow>
    inflight (as_writer s') = inflight (as_writer s) \<Longrightarrow>
    (as_writer s' = W_Signal \<longleftrightarrow> as_writer s = W_Signal) \<Longrightarrow>
    ((\<exists>j. as_writer s' = W_Write j) \<longleftrightarrow> (\<exists>j. as_writer s = W_Write j)) \<Longrightarrow>
    async_inv d0 ws s' = async_inv d0 ws s"
  by (simp add: async_inv_def)

lemma goto_simps [simp]:
  "as_disk (goto t p s) = as_disk s" "as_q (goto t p s) = as_q s" "as_busy (goto t p s) = as_busy s"
  "as_writer (goto t p s) = as_writer s" "as_l1 (goto t p s) = as_l1 s" "as_stop (goto t p s) = as_stop s"
  "as_clients (goto t p s) = (as_clients s)[t := p]"
  by (simp_all add: goto_def)

lemma goto_inv [simp]: "async_inv d0 ws (goto t p s) = async_inv d0 ws s"
  by (rule inv_cong) simp_all

lemma wake_inv: "asleep s w \<Longrightarrow> async_inv d0 ws s \<Longrightarrow> async_inv d0 ws (wake w s)"
  by (cases w) (simp_all add: async_inv_def)

lemma wake_all_inv [simp]: "async_inv d0 ws (wake_all s) = async_inv d0 ws s"
  by (rule inv_cong) (auto simp: wake_all_def)

lemma client_step_inv:
  assumes "async_inv d0 ws s" and "client_step e s = Some s'"
  shows "async_inv d0 (ws @ queued_by e s) s'"
proof -
  have l1: "async_inv d0 ws (s\<lparr>as_l1 := m\<rparr>) = async_inv d0 ws s" for m
    by (rule inv_cong) simp_all
  have hits: "async_inv d0 ws (s\<lparr>as_l1_hits := n\<rparr>) = async_inv d0 ws s" for n
    by (rule inv_cong) simp_all
  have stop: "async_inv d0 ws (s\<lparr>as_stop := True\<rparr>) = async_inv d0 ws s"
    by (rule inv_cong) simp_all
  have push: "async_inv d0 (ws @ [j]) (s\<lparr>as_q := as_q s @ [j]\<rparr>)" for j
  proof -
    have "disk.write_all (inflight (as_writer s) @ as_q s @ [j]) (as_disk s) = disk.write_all (ws @ [j]) d0"
      using assms(1) unfolding append_assoc [symmetric] by (simp add: async_inv_def disk.write_all_append)
    with assms(1) show ?thesis by (simp add: async_inv_def)
  qed
  have queued: "async_inv d0 ws (s\<lparr>as_queued := n\<rparr>) = async_inv d0 ws s" for n
    by (rule inv_cong) simp_all
  have aw: "asleep (goto t C_Idle (s\<lparr>as_queued := n\<rparr>)) x"
    if "asleep s x" "client_of s t = C_Put_Notify" for t x n
    using that by (cases x) (auto simp: client_of_def nth_list_update split: if_splits)
  show ?thesis
  proof (cases e)
    case (Put_Notify t w)
    with assms aw wake_inv show ?thesis by (auto simp: queued Let_def split: if_splits option.splits)
  qed (use assms in \<open>auto simp: l1 hits stop push split: if_splits option.splits client_pc.splits\<close>)
qed

lemma async_step_inv:
  assumes "async_inv d0 ws s" and "async_step e s = Some s'"
  shows "async_inv d0 (ws @ queued_by e s) s'"
proof (cases e)
  case Writer_Check
  with assms show ?thesis
    by (auto simp: async_inv_def writer_check_def split: if_splits list.splits)
next
  case Writer_Write
  with assms show ?thesis
    by (auto simp: async_inv_def writer_write_def split: writer_pc.splits)
next
  case Writer_Signal
  with assms have "as_writer s = W_Signal" "s' = writer_signal s" by (auto split: if_splits)
  moreover from this assms(1) have "async_inv d0 ws (s\<lparr>as_busy := False, as_writer := W_Check\<rparr>)"
    by (simp add: async_inv_def)
  ultimately show ?thesis using Writer_Signal by (simp add: writer_signal_def Let_def)
next
  case (Spurious w)
  with assms wake_inv show ?thesis by (auto split: if_splits)
qed (use assms client_step_inv [OF assms(1), of e s'] in
    \<open>auto simp: async_inv_def split: if_splits\<close>)

lemma async_reach_inv: "async_reach d0 s ws \<Longrightarrow> async_inv d0 ws s"
proof (induction rule: async_reach.induct)
  case reach_init
  show ?case by (simp add: async_inv_def async_init_def)
next
  case (reach_step s ws e s')
  then show ?case by (blast intro: async_step_inv)
qed


primrec queued_run :: "async_event list \<Rightarrow> async \<Rightarrow> (string \<times> blob) list" where
  "queued_run [] s = []"
| "queued_run (e # es) s = queued_by e s @
     (case async_step e s of None \<Rightarrow> [] | Some s' \<Rightarrow> queued_run es s')"

lemma async_reach_run:
  "async_reach d0 s ws \<Longrightarrow> async_run es s = Some s' \<Longrightarrow> async_reach d0 s' (ws @ queued_run es s)"
proof (induction es arbitrary: s ws)
  case (Cons e es)
  then obtain s1 where s1: "async_step e s = Some s1" "async_run es s1 = Some s'"
    by (auto split: bind_splits)
  from Cons.IH [OF reach_step [OF Cons.prems(1) s1(1)] s1(2)] s1(1) show ?case by simp
qed simp

text \<open>With nothing queued and nothing in flight, every queued write is on disk.\<close>

lemma quiet_persisted:
  assumes "async_reach d0 s ws" and "as_q s = []" and "\<not> as_busy s" and "\<forall>(k, b)\<in>set ws. blob_fits b"
  shows "cache_get key (as_disk s) =
    (case map_of (rev ws) key of None \<Rightarrow> cache_get key d0 | Some b \<Rightarrow> Some b)"
proof -
  from async_reach_inv [OF assms(1)] assms(2,3) have "as_disk s = disk.write_all ws d0"
    by (cases "as_writer s") (auto simp: async_inv_def)
  with disk.lookup_write_all [OF assms(4)] show ?thesis by simp
qed

lemma idle_not_busy:
  assumes "async_reach d0 s ws" and "as_writer s = W_Check"
  shows "\<not> as_busy s"
  using async_reach_inv [OF assms(1)] assms(2) by (simp add: async_inv_def)

lemma client_of_goto: "t < length (as_clients s) \<Longrightarrow> client_of (goto t p s) t = p"
  by (simp add: client_of_def)

section \<open>Properties\<close>

text \<open>
  C26: whatever the interleaving of clients and writer, when \<open>flush\<close> returns (its predicate held
  and the caller goes on), and when the writer thread leaves its loop after the destructor set
  \<open>stop_\<close>, every write queued before is on disk in the order it was queued: a key holds the last
  value queued for it, and a key never written holds what the disk had at the start.
\<close>

theorem async_flush_persists:
  assumes "async_reach d0 s ws" and "\<forall>(k, b)\<in>set ws. length b < 2 ^ 32"
    and "async_step e s = Some s'"
    and "e = Flush_Check t \<and> client_of s' t = C_Idle \<or> e = Writer_Check \<and> as_writer s' = W_Exit"
  shows "as_q s' = [] \<and> cache_get key (as_disk s') =
    (case map_of (rev ws) key of None \<Rightarrow> cache_get key d0 | Some b \<Rightarrow> Some b)"
proof -
  have quiet: "as_q s = [] \<and> \<not> as_busy s \<and> as_q s' = as_q s \<and> as_disk s' = as_disk s"
    using assms(4)
  proof
    assume e: "e = Flush_Check t \<and> client_of s' t = C_Idle"
    with assms(3) have "client_of s t = C_Flush_Check" by (auto split: if_splits)
    then have "t < length (as_clients s)" by (auto simp: client_of_def split: if_splits)
    with e assms(3) show ?thesis by (auto simp: client_of_goto split: if_splits)
  next
    assume e: "e = Writer_Check \<and> as_writer s' = W_Exit"
    with assms(3) idle_not_busy [OF assms(1)] show ?thesis
      by (auto simp: writer_check_def split: if_splits list.splits)
  qed
  from assms(2) have "\<forall>(k, b)\<in>set ws. blob_fits b" by (simp add: blob_fits_def)
  with quiet quiet_persisted [OF assms(1)] show ?thesis by simp
qed

definition demo_events :: "async_event list" where
  "demo_events = [Put_Begin 0 ''k'' [1], Put_Enqueue 0, Put_Notify 0 None, Put_Begin 0 ''k'' [2],
     Writer_Check, Put_Enqueue 0, Flush_Begin 1, Flush_Check 1, Writer_Write, Writer_Signal,
     Put_Notify 0 (Some (A_Client 1)), Writer_Check, Writer_Write, Writer_Signal]"

lemma replicate_two: "replicate 2 x = [x, x]"
  by (simp add: numeral_2_eq_2)

lemma demo_run:
  "\<exists>s s'. async_run demo_events (async_init 2 []) = Some s \<and>
     queued_run demo_events (async_init 2 []) = [(''k'', [1]), (''k'', [2])] \<and>
     async_step (Flush_Check 1) s = Some s' \<and> client_of s' 1 = C_Idle"
  by (simp add: demo_events_def async_init_def goto_def client_of_def writer_check_def writer_write_def
      writer_signal_def wake_all_def qm_free_def replicate_two)

theorem async_flush_persists_witness:
  "\<exists>s s'. async_run demo_events (async_init 2 []) = Some s \<and> async_step (Flush_Check 1) s = Some s' \<and>
     cache_get ''k'' (as_disk s') = Some [2]"
proof -
  from demo_run obtain s s' where run: "async_run demo_events (async_init 2 []) = Some s"
    "queued_run demo_events (async_init 2 []) = [(''k'', [1]), (''k'', [2])]"
    and flush: "async_step (Flush_Check 1) s = Some s'" "client_of s' 1 = C_Idle" by blast
  from async_reach_run [OF reach_init run(1)] run(2)
  have "async_reach [] s [(''k'', [1]), (''k'', [2])]" by simp
  from async_flush_persists [OF this _ flush(1), of 1 "''k''"] flush(2)
  have "cache_get ''k'' (as_disk s') = Some [2]" by simp
  with run flush show ?thesis by blast
qed

text \<open>An event that a thread already inside a call, or the writer, can take on its own.\<close>

fun internal :: "async_event \<Rightarrow> bool" where
  "internal (Get_Begin t k) = False"
| "internal (Put_Begin t k b) = False"
| "internal (Flush_Begin t) = False"
| "internal (Dtor_Begin t) = False"
| "internal (Spurious w) = False"
| "internal e = True"

definition stuck :: "async \<Rightarrow> bool" where
  "stuck s \<longleftrightarrow> (\<forall>e. internal e \<longrightarrow> async_step e s = None)"

lemma stuckI:
  assumes "as_writer s = W_Sleep" and "\<forall>p\<in>set (as_clients s). p \<in> {C_Idle, C_Flush_Sleep, C_Dtor_Join, C_Gone}"
  shows "stuck s"
proof -
  have pc: "client_of s t \<in> {C_Idle, C_Flush_Sleep, C_Dtor_Join, C_Gone}" for t
    using assms(2) by (auto simp: client_of_def)
  have "async_step e s = None" if "internal e" for e
  proof -
    have pc': "client_of s t \<noteq> C_Put_Notify" "client_of s t \<noteq> C_Flush_Check"
      "client_of s t \<noteq> C_Dtor_Notify" "client_of s t \<noteq> C_Get_Disk k"
      "client_of s t \<noteq> C_Promote k b" "client_of s t \<noteq> C_Put_Queue k b" for t k b
      using pc [of t] by auto
    show ?thesis using that assms(1) pc' by (cases e) (auto split: client_pc.splits)
  qed
  then show ?thesis by (simp add: stuck_def)
qed

text \<open>
  C27: \<open>flush\<close> and the writer wait on the same condition variable and \<open>put\<close> notifies only one
  sleeper. When the one it wakes is a flushing client, that client finds the queue not empty and
  sleeps again, the writer is never told of the job, and \<open>flush\<close> blocks for ever: in the state
  reached, with a job queued, no thread can take a step without a spurious wake-up.
\<close>

theorem flush_lost_wakeup:
  "\<exists>s. async_run [Writer_Check, Writer_Park, Put_Begin 0 ''k'' [1], Put_Enqueue 0, Flush_Begin 1,
      Flush_Check 1, Put_Notify 0 (Some (A_Client 1)), Flush_Check 1] (async_init 2 d) = Some s \<and>
    as_q s = [(''k'', [1])] \<and> as_disk s = d \<and> client_of s 1 = C_Flush_Sleep \<and> stuck s"
  by (simp add: async_init_def goto_def client_of_def writer_check_def qm_free_def replicate_two)
    (rule stuckI, simp_all)

text \<open>
  The destructor sets \<open>stop_\<close> without holding \<open>qm_\<close>. When it does so between the writer's
  evaluation of its predicate and the moment the writer sleeps, the notification finds no
  sleeper and the writer then sleeps for ever, so that \<open>join\<close> never returns.
\<close>

theorem dtor_lost_wakeup:
  "\<exists>s. async_run [Writer_Check, Dtor_Begin 0, Dtor_Notify 0, Writer_Park] (async_init 1 d) = Some s \<and>
    as_stop s \<and> client_of s 0 = C_Dtor_Join \<and> stuck s"
  by (simp add: async_init_def goto_def client_of_def writer_check_def wake_all_def)
    (rule stuckI, simp_all)

text \<open>
  A \<open>get\<close> that read the disk before a \<open>put\<close> of the same key promotes the old value after it: the
  put has returned and later gets see the value it replaced.
\<close>

theorem stale_promote:
  "\<exists>s. async_run [Get_Begin 0 ''k'', Get_Disk 0, Put_Begin 1 ''k'' [2], Put_Enqueue 1, Put_Notify 1 None,
      Get_Promote 0] (async_init 2 (cache_put ''k'' [1] [])) = Some s \<and>
    client_of s 1 = C_Idle \<and> as_q s = [(''k'', [2])] \<and> as_l1 s ''k'' = Some [1]"
  by (simp add: async_init_def goto_def client_of_def qm_free_def get_put blob_fits_def replicate_two)

end
