(* ===== verification/Speculative.thy ===== *)
theory Speculative
  imports Prelude Complex_Main
begin

text \<open>
  Speculative decoding (include/speculative.hpp, src/speculative.cpp): the verification of draft
  tokens by rejection sampling, the greedy verification, and the linear Medusa verification.
  \<open>float\<close> is idealised as \<open>real\<close>: rounding is not modelled, the constants of the code (\<open>1e-9f\<close>,
  \<open>1e-6f\<close>) are. The generator and the two distributions drawn from it are parameters; what the
  theorems need of them is that a draw lies in the range asked for. \<open>assert\<close> is checked.
\<close>

section \<open>Data\<close>

record spec_config =
  sc_num_speculative_tokens :: int
  sc_temperature :: real
  sc_greedy_verify :: bool
  sc_vocab_size :: int
  sc_seed :: u32

record token_dist =
  td_logits :: "real list"
  td_sampled :: int
  td_probs :: "real list"
  td_computed :: bool

record spec_result =
  sr_accepted :: "int list"
  sr_bonus :: int
  sr_n_accepted :: int
  sr_rate :: real

record spec_stats =
  ss_steps :: u64
  ss_draft :: u64
  ss_accepted :: u64
  ss_rejected :: u64

record 'g spec_engine =
  se_cfg :: spec_config
  se_rng :: 'g
  se_stats :: spec_stats

record 'g rng_ops =
  uniform01 :: "'g \<Rightarrow> real \<times> 'g"
  uniform_int :: "int \<Rightarrow> int \<Rightarrow> 'g \<Rightarrow> int \<times> 'g"

definition empty_result :: spec_result where
  "empty_result = \<lparr>sr_accepted = [], sr_bonus = - 1, sr_n_accepted = 0, sr_rate = 0\<rparr>"

definition total_new :: "spec_result \<Rightarrow> int" where
  "total_new r = sr_n_accepted r + (if sr_bonus r \<ge> 0 then 1 else 0)"

definition acceptance_rate :: "spec_stats \<Rightarrow> real" where
  "acceptance_rate st = (if ss_draft st > 0 then real (unat (ss_accepted st)) / real (unat (ss_draft st)) else 0)"

definition speedup_estimate :: "spec_stats \<Rightarrow> real" where
  "speedup_estimate st =
     acceptance_rate st * real (unat (ss_draft st)) / real (unat (max 1 (ss_steps st))) + 1"

definition spec_ctor :: "(u32 \<Rightarrow> 'g) \<Rightarrow> spec_config \<Rightarrow> 'g spec_engine" where
  "spec_ctor seed_rng cfg = \<lparr>se_cfg = cfg, se_rng = seed_rng (sc_seed cfg),
     se_stats = \<lparr>ss_steps = 0, ss_draft = 0, ss_accepted = 0, ss_rejected = 0\<rparr>\<rparr>"

section \<open>Token distributions\<close>

text \<open>\<open>std::max_element\<close>: the index of the first largest element, 0 for an empty range.\<close>

definition max_element :: "real list \<Rightarrow> nat" where
  "max_element xs = fold (\<lambda>i m. if xs ! m < xs ! i then i else m) [1..<length xs] 0"

definition softmax :: "real \<Rightarrow> real list \<Rightarrow> real list" where
  "softmax t xs = (let es = map (\<lambda>l. exp ((l - xs ! max_element xs) / max t (1 / 10 ^ 6))) xs
     in map (\<lambda>e. e / sum_list es) es)"

definition dist_probs :: "real \<Rightarrow> token_dist \<Rightarrow> (real list \<times> token_dist) res" where
  "dist_probs t d =
     (if td_computed d then Inr (td_probs d, d)
      else if td_logits d = [] then Inl Index_UB
      else let ps = softmax t (td_logits d) in Inr (ps, d\<lparr>td_probs := ps, td_computed := True\<rparr>))"

text \<open>\<open>(x < (int)p.size()) ? p[x] : dflt\<close>\<close>

definition prob_of :: "real \<Rightarrow> real list \<Rightarrow> int \<Rightarrow> real res" where
  "prob_of dflt ps x = (if x < int (length ps) then vec_at ps x else Inr dflt)"

definition tiny :: real where
  "tiny = 1 / 10 ^ 9"

section \<open>Sampling\<close>

primrec cdf_scan :: "real \<Rightarrow> real list \<Rightarrow> int \<Rightarrow> real \<Rightarrow> int option" where
  "cdf_scan r [] i cum = None"
| "cdf_scan r (p # ps) i cum = (if r \<le> cum + p then Some i else cdf_scan r ps (i + 1) (cum + p))"

definition sample_from :: "'g rng_ops \<Rightarrow> real list \<Rightarrow> 'g \<Rightarrow> int \<times> 'g" where
  "sample_from ops probs g = (case uniform01 ops g of (r, g') \<Rightarrow>
     (case cdf_scan r probs 0 0 of Some i \<Rightarrow> i | None \<Rightarrow> int (length probs) - 1, g'))"

definition adjusted :: "real list \<Rightarrow> real list \<Rightarrow> real list" where
  "adjusted pt pd =
     map (\<lambda>i. max 0 (pt ! i - (if i < length pd then pd ! i else 0))) [0..<length pt]"

definition sample_from_adjusted :: "'g rng_ops \<Rightarrow> real list \<Rightarrow> real list \<Rightarrow> 'g \<Rightarrow> (int \<times> 'g) res" where
  "sample_from_adjusted ops pt pd g =
     (let adj = adjusted pt pd; s = sum_list adj in
      if s < tiny then
        (if pt = [] then Inl Precondition_UB else Inr (uniform_int ops 0 (int (length pt) - 1) g))
      else Inr (sample_from ops (map (\<lambda>a. a / s) adj) g))"

section \<open>Rejection sampling\<close>

definition accept_prob :: "real \<Rightarrow> real \<Rightarrow> real" where
  "accept_prob pt pd = min 1 (pt / (pd + tiny))"

text \<open>
  What \<open>verify\<close> works on: the result under construction, the engine, and the two vectors of
  distributions, whose lazily computed probabilities it fills in.
\<close>

record 'g vstate =
  vs_res :: spec_result
  vs_eng :: "'g spec_engine"
  vs_draft :: "token_dist list"
  vs_target :: "token_dist list"

definition probs_at :: "real \<Rightarrow> int \<Rightarrow> token_dist list \<Rightarrow> (real list \<times> token_dist list) res" where
  "probs_at t i ds = rbind (vec_at ds i) (\<lambda>d. rbind (dist_probs t d)
     (\<lambda>(ps, d'). Inr (ps, ds[nat i := d'])))"

definition accept_token :: "int \<Rightarrow> 'g vstate \<Rightarrow> 'g vstate" where
  "accept_token x s = s\<lparr>
     vs_res := (vs_res s)\<lparr>sr_accepted := sr_accepted (vs_res s) @ [x],
       sr_n_accepted := sr_n_accepted (vs_res s) + 1\<rparr>,
     vs_eng := (vs_eng s)\<lparr>se_stats := (se_stats (vs_eng s))\<lparr>ss_accepted := ss_accepted (se_stats (vs_eng s)) + 1\<rparr>\<rparr>\<rparr>"

definition set_bonus :: "int \<times> 'g \<Rightarrow> 'g vstate \<Rightarrow> 'g vstate" where
  "set_bonus bg s = s\<lparr>vs_res := (vs_res s)\<lparr>sr_bonus := fst bg\<rparr>, vs_eng := (vs_eng s)\<lparr>se_rng := snd bg\<rparr>\<rparr>"

definition count_rejected :: "nat \<Rightarrow> 'g spec_engine \<Rightarrow> 'g spec_engine" where
  "count_rejected n e = e\<lparr>se_stats := (se_stats e)\<lparr>ss_rejected := ss_rejected (se_stats e) + of_nat n\<rparr>\<rparr>"

text \<open>The loop over the draft tokens still to be judged, from position \<open>i\<close>; \<open>k\<close> of them in all.\<close>

primrec verify_loop :: "'g rng_ops \<Rightarrow> nat \<Rightarrow> int list \<Rightarrow> nat \<Rightarrow> 'g vstate \<Rightarrow> 'g vstate res" where
  "verify_loop ops k [] i s =
     rbind (probs_at (sc_temperature (se_cfg (vs_eng s))) (int k) (vs_target s)) (\<lambda>(p, ts).
       Inr (set_bonus (sample_from ops p (se_rng (vs_eng s))) (s\<lparr>vs_target := ts\<rparr>)))"
| "verify_loop ops k (x # xs) i s =
     (let t = sc_temperature (se_cfg (vs_eng s)) in
      rbind (probs_at t (int i) (vs_target s)) (\<lambda>(p_t, ts).
      rbind (probs_at t (int i) (vs_draft s)) (\<lambda>(p_d, ds).
      rbind (prob_of 0 p_t x) (\<lambda>pt.
      rbind (prob_of tiny p_d x) (\<lambda>pd.
        (case uniform01 ops (se_rng (vs_eng s)) of (r, g) \<Rightarrow>
          let s1 = s\<lparr>vs_eng := (vs_eng s)\<lparr>se_rng := g\<rparr>, vs_draft := ds, vs_target := ts\<rparr> in
          if r \<le> accept_prob pt pd then verify_loop ops k xs (i + 1) (accept_token x s1)
          else rbind (sample_from_adjusted ops p_t p_d g) (\<lambda>bg.
            Inr (set_bonus bg (s1\<lparr>vs_eng := count_rejected (k - i) (vs_eng s1)\<rparr>)))))))))"

definition count_step :: "nat \<Rightarrow> 'g spec_engine \<Rightarrow> 'g spec_engine" where
  "count_step k e = e\<lparr>se_stats := (se_stats e)\<lparr>ss_steps := ss_steps (se_stats e) + 1,
     ss_draft := ss_draft (se_stats e) + of_nat k\<rparr>\<rparr>"

definition verify :: "'g rng_ops \<Rightarrow> int list \<Rightarrow> token_dist list \<Rightarrow> token_dist list \<Rightarrow> 'g spec_engine \<Rightarrow>
    'g vstate res" where
  "verify ops toks draft target e =
     (if length toks \<noteq> length draft \<or> length target \<noteq> length toks + 1 then Inl Assert_abort
      else rbind (verify_loop ops (length toks) toks 0
          \<lparr>vs_res = empty_result, vs_eng = count_step (length toks) e, vs_draft = draft, vs_target = target\<rparr>)
        (\<lambda>s. Inr (s\<lparr>vs_res := (vs_res s)\<lparr>sr_rate := acceptance_rate (se_stats (vs_eng s))\<rparr>\<rparr>)))"

section \<open>Greedy verification\<close>

text \<open>The token the target would emit greedily.\<close>

definition greedy_token :: "token_dist \<Rightarrow> int" where
  "greedy_token d = int (max_element (td_logits d))"

primrec greedy_loop :: "nat \<Rightarrow> token_dist list \<Rightarrow> int list \<Rightarrow> nat \<Rightarrow> spec_result \<times> 'g spec_engine \<Rightarrow>
    (spec_result \<times> 'g spec_engine) res" where
  "greedy_loop k target [] i re =
     rbind (vec_at target (int k)) (\<lambda>d. Inr ((fst re)\<lparr>sr_bonus := greedy_token d\<rparr>, snd re))"
| "greedy_loop k target (x # xs) i re =
     rbind (vec_at target (int i)) (\<lambda>d.
       if x = greedy_token d then
         greedy_loop k target xs (i + 1)
           ((fst re)\<lparr>sr_accepted := sr_accepted (fst re) @ [x], sr_n_accepted := sr_n_accepted (fst re) + 1\<rparr>,
            (snd re)\<lparr>se_stats := (se_stats (snd re))\<lparr>ss_accepted := ss_accepted (se_stats (snd re)) + 1\<rparr>\<rparr>)
       else Inr ((fst re)\<lparr>sr_bonus := greedy_token d\<rparr>, count_rejected (k - i) (snd re)))"

definition verify_greedy :: "int list \<Rightarrow> token_dist list \<Rightarrow> 'g spec_engine \<Rightarrow>
    (spec_result \<times> 'g spec_engine) res" where
  "verify_greedy toks target e =
     greedy_loop (length toks) target toks 0 (empty_result, count_step (length toks) e)"

section \<open>Medusa\<close>

record medusa_config =
  mc_num_heads :: int
  mc_num_speculative_tokens :: int
  mc_tree_attention :: bool
  mc_threshold :: real

record medusa_result =
  mr_path :: "int list"
  mr_total :: int

primrec medusa_loop :: "'g rng_ops \<Rightarrow> medusa_config \<Rightarrow> real \<Rightarrow> int list \<Rightarrow> nat \<Rightarrow>
    medusa_result \<times> token_dist list \<times> 'g \<Rightarrow> (medusa_result \<times> token_dist list \<times> 'g) res" where
  "medusa_loop ops cfg t [] i st = Inr st"
| "medusa_loop ops cfg t (c # cs) i st = (case st of (res, ds, g) \<Rightarrow>
     if \<not> int i < mc_num_heads cfg \<or> length ds \<le> i then Inr st
     else rbind (probs_at t (int i) ds) (\<lambda>(p, ds').
       rbind (prob_of 0 p c) (\<lambda>pt.
         let (accept, g') = (if mc_threshold cfg > 0 then (pt \<ge> mc_threshold cfg, g)
           else (case uniform01 ops g of (r, g') \<Rightarrow> (r \<le> pt, g'))) in
         if accept then medusa_loop ops cfg t cs (i + 1)
           (res\<lparr>mr_path := mr_path res @ [c], mr_total := mr_total res + 1\<rparr>, ds', g')
         else Inr (res, ds', g'))))"

definition medusa_verify :: "'g rng_ops \<Rightarrow> medusa_config \<Rightarrow> int list \<Rightarrow> token_dist list \<Rightarrow> real \<Rightarrow> 'g \<Rightarrow>
    (medusa_result \<times> token_dist list \<times> 'g) res" where
  "medusa_verify ops cfg cands ds t g = medusa_loop ops cfg t cands 0 (\<lparr>mr_path = [], mr_total = 0\<rparr>, ds, g)"


section \<open>Facts about the distributions\<close>

lemma max_element_fold:
  assumes "m < n" and "\<forall>i\<in>set is. i < n"
  shows "fold (\<lambda>i m. if xs ! m < xs ! i then i else m) is m < (n :: nat)"
  using assms by (induction "is" arbitrary: m) auto

lemma max_element_less: "xs \<noteq> [] \<Longrightarrow> max_element xs < length xs"
  unfolding max_element_def by (rule max_element_fold) auto

lemma softmax_length [simp]: "length (softmax t xs) = length xs"
  by (simp add: softmax_def Let_def)

lemma softmax_nonneg: "p \<in> set (softmax t xs) \<Longrightarrow> 0 \<le> p"
  by (auto simp: softmax_def Let_def intro!: divide_nonneg_nonneg sum_list_nonneg)

lemma sum_list_divide: "sum_list (map (\<lambda>a. a / s) xs) = sum_list xs / (s :: real)"
  by (induction xs) (simp_all add: add_divide_distrib)

lemma sum_list_pos: "xs \<noteq> [] \<Longrightarrow> \<forall>x\<in>set xs. 0 < x \<Longrightarrow> 0 < sum_list (xs :: real list)"
proof (induction xs)
  case (Cons x xs)
  then show ?case by (cases xs) (auto intro: add_pos_pos)
qed simp

lemma softmax_sum: "xs \<noteq> [] \<Longrightarrow> sum_list (softmax t xs) = 1"
proof -
  assume "xs \<noteq> []"
  let ?es = "map (\<lambda>l. exp ((l - xs ! max_element xs) / max t (1 / 10 ^ 6))) xs"
  have "0 < sum_list ?es" using \<open>xs \<noteq> []\<close> by (intro sum_list_pos) auto
  then have "sum_list (map (\<lambda>e. e / sum_list ?es) ?es) = 1" unfolding sum_list_divide by simp
  then show ?thesis unfolding softmax_def Let_def .
qed

definition dist_ok :: "real \<Rightarrow> token_dist \<Rightarrow> bool" where
  "dist_ok t d \<longleftrightarrow> td_logits d \<noteq> [] \<and> (td_computed d \<longrightarrow> td_probs d = softmax t (td_logits d))"

lemma dist_probs_ok:
  assumes "dist_ok t d"
  shows "\<exists>d'. dist_probs t d = Inr (softmax t (td_logits d), d') \<and> td_logits d' = td_logits d \<and> dist_ok t d'"
  using assms by (auto simp: dist_probs_def dist_ok_def Let_def)

lemma probs_at_ok:
  assumes "\<forall>d\<in>set ds. dist_ok t d" and "i < length ds"
  shows "\<exists>ds'. probs_at t (int i) ds = Inr (softmax t (map td_logits ds ! i), ds') \<and>
    map td_logits ds' = map td_logits ds \<and> (\<forall>d\<in>set ds'. dist_ok t d)"
proof -
  from assms have "dist_ok t (ds ! i)" by simp
  from dist_probs_ok [OF this] obtain d' where
    d': "dist_probs t (ds ! i) = Inr (softmax t (td_logits (ds ! i)), d')"
    "td_logits d' = td_logits (ds ! i)" "dist_ok t d'" by blast
  have "map td_logits (ds[i := d']) = map td_logits ds"
    using d'(2) assms(2) by (simp add: map_update list_update_same_conv)
  moreover have "\<forall>d\<in>set (ds[i := d']). dist_ok t d"
    using assms(1) d'(3) set_update_subset_insert [of ds i d'] by blast
  ultimately show ?thesis using d' assms(2) by (simp add: probs_at_def)
qed

lemma cdf_scan_range: "cdf_scan r ps i cum = Some j \<Longrightarrow> i \<le> j \<and> j < i + int (length ps)"
proof (induction ps arbitrary: i cum)
  case (Cons p ps)
  then show ?case by (fastforce split: if_splits)
qed simp

text \<open>
  Categorical sampling: index \<open>j\<close> is chosen exactly for the draws in an interval whose length is the
  probability of \<open>j\<close>. (A draw of exactly 0 chooses index 0 whatever its probability.)
\<close>

lemma cdf_scan_interval:
  assumes "\<forall>p\<in>set ps. 0 \<le> p" and "cum < r"
  shows "cdf_scan r ps i cum = Some (i + int j) \<longleftrightarrow>
    j < length ps \<and> cum + sum_list (take j ps) < r \<and> r \<le> cum + sum_list (take j ps) + ps ! j"
  using assms
proof (induction ps arbitrary: i cum j)
  case (Cons p ps)
  show ?case
  proof (cases "r \<le> cum + p")
    case True
    have "0 \<le> sum_list (take k ps)" for k
      using Cons.prems(1) set_take_subset [of k ps] by (intro sum_list_nonneg) auto
    with True Cons.prems(2) show ?thesis by (cases j) (auto simp: not_less add_increasing2 add.assoc [symmetric])
  next
    case False
    show ?thesis
    proof (cases j)
      case 0
      with False cdf_scan_range [of r ps "i + 1" "cum + p" i] show ?thesis by auto
    next
      case (Suc k)
      with False Cons.prems Cons.IH [of "cum + p" "i + 1" k] show ?thesis by (simp add: algebra_simps)
    qed
  qed
qed simp

lemma sample_from_range:
  assumes "ps \<noteq> []"
  shows "0 \<le> fst (sample_from ops ps g) \<and> fst (sample_from ops ps g) < int (length ps)"
proof (cases "cdf_scan (fst (uniform01 ops g)) ps 0 0")
  case None
  with assms show ?thesis by (cases ps) (simp_all add: sample_from_def split_def)
next
  case (Some i)
  with cdf_scan_range [OF Some] show ?thesis by (simp add: sample_from_def split_def)
qed

definition int_draws_ok :: "'g rng_ops \<Rightarrow> bool" where
  "int_draws_ok ops \<longleftrightarrow> (\<forall>lo hi g. lo \<le> hi \<longrightarrow>
     lo \<le> fst (uniform_int ops lo hi g) \<and> fst (uniform_int ops lo hi g) \<le> hi)"

lemma sample_from_adjusted_range:
  assumes "int_draws_ok ops" and "pt \<noteq> []"
  shows "\<exists>bg. sample_from_adjusted ops pt pd g = Inr bg \<and> 0 \<le> fst bg \<and> fst bg < int (length pt)"
proof (cases "sum_list (adjusted pt pd) < tiny")
  case True
  have "0 \<le> int (length pt) - 1" using assms(2) by (cases pt) auto
  with assms(1) have "0 \<le> fst (uniform_int ops 0 (int (length pt) - 1) g) \<and>
    fst (uniform_int ops 0 (int (length pt) - 1) g) \<le> int (length pt) - 1"
    unfolding int_draws_ok_def by blast
  with True assms(2) show ?thesis by (auto simp: sample_from_adjusted_def Let_def)
next
  case False
  let ?ps = "map (\<lambda>a. a / sum_list (adjusted pt pd)) (adjusted pt pd)"
  have "length ?ps = length pt" by (simp add: adjusted_def)
  with assms(2) sample_from_range [of ?ps ops g] False show ?thesis
    by (simp add: sample_from_adjusted_def Let_def) (metis length_greater_0_conv)
qed


section \<open>What rejection sampling accepts\<close>

text \<open>The generator after \<open>i\<close> uniform draws, and the draw that judges position \<open>i\<close>.\<close>

definition gen_at :: "'g rng_ops \<Rightarrow> 'g \<Rightarrow> nat \<Rightarrow> 'g" where
  "gen_at ops g i = ((\<lambda>g. snd (uniform01 ops g)) ^^ i) g"

definition draw :: "'g rng_ops \<Rightarrow> 'g \<Rightarrow> nat \<Rightarrow> real" where
  "draw ops g i = fst (uniform01 ops (gen_at ops g i))"

definition prob_or :: "real \<Rightarrow> real list \<Rightarrow> int \<Rightarrow> real" where
  "prob_or dflt ps x = (if x < int (length ps) then ps ! nat x else dflt)"

definition token_passes :: "'g rng_ops \<Rightarrow> real \<Rightarrow> 'g \<Rightarrow> int list \<Rightarrow> token_dist list \<Rightarrow> token_dist list \<Rightarrow> nat \<Rightarrow> bool"
  where "token_passes ops t g toks draft target i \<longleftrightarrow>
    draw ops g i \<le> accept_prob (prob_or 0 (softmax t (map td_logits target ! i)) (toks ! i))
      (prob_or tiny (softmax t (map td_logits draft ! i)) (toks ! i))"

definition accepted_len :: "'g rng_ops \<Rightarrow> real \<Rightarrow> 'g \<Rightarrow> int list \<Rightarrow> token_dist list \<Rightarrow> token_dist list \<Rightarrow> nat" where
  "accepted_len ops t g toks draft target =
     length (takeWhile (token_passes ops t g toks draft target) [0..<length toks])"

lemma prob_of_ok: "0 \<le> x \<Longrightarrow> prob_of dflt ps x = Inr (prob_or dflt ps x)"
  by (auto simp: prob_of_def prob_or_def vec_at_def)

lemma gen_at_Suc: "gen_at ops g (Suc i) = snd (uniform01 ops (gen_at ops g i))"
  by (simp add: gen_at_def)

lemma token_passes_cong:
  "map td_logits d' = map td_logits d \<Longrightarrow> map td_logits t' = map td_logits tg \<Longrightarrow>
    token_passes ops t g toks d' t' = token_passes ops t g toks d tg"
  by (rule ext) (simp add: token_passes_def)

text \<open>What the loop keeps of its state: the distributions are those of the arguments, their caches valid.\<close>

definition vs_ok :: "real \<Rightarrow> token_dist list \<Rightarrow> token_dist list \<Rightarrow> 'g vstate \<Rightarrow> bool" where
  "vs_ok t draft target s \<longleftrightarrow> (\<forall>d\<in>set (vs_draft s) \<union> set (vs_target s). dist_ok t d) \<and>
     map td_logits (vs_draft s) = map td_logits draft \<and> map td_logits (vs_target s) = map td_logits target \<and>
     sc_temperature (se_cfg (vs_eng s)) = t"

lemma probs_at_logits:
  assumes "\<forall>d\<in>set ds. dist_ok t d" and "map td_logits ds = map td_logits ds0" and "i < length ds0"
  obtains ds' where "probs_at t (int i) ds = Inr (softmax t (map td_logits ds0 ! i), ds')"
    "map td_logits ds' = map td_logits ds0" "\<forall>d\<in>set ds'. dist_ok t d" "softmax t (map td_logits ds0 ! i) \<noteq> []"
proof -
  have i: "i < length ds" using assms(2,3) by (metis length_map)
  then have "dist_ok t (ds ! i)" using assms(1) by simp
  then have "map td_logits ds ! i \<noteq> []" using i by (simp add: dist_ok_def)
  then have "softmax t (map td_logits ds0 ! i) \<noteq> []" unfolding assms(2) by (metis length_0_conv softmax_length)
  with probs_at_ok [OF assms(1) i] assms(2) that show thesis by auto
qed

text \<open>One round of the loop, after the draw.\<close>

lemma verify_loop_step:
  assumes "vs_ok t draft target s" and "i < length toks" and "length draft = length toks" "length target = length toks + 1"
    and "se_rng (vs_eng s) = gen_at ops g i" and "0 \<le> toks ! i"
  obtains ds ts s1 where "s1 = s\<lparr>vs_eng := (vs_eng s)\<lparr>se_rng := gen_at ops g (Suc i)\<rparr>, vs_draft := ds, vs_target := ts\<rparr>"
    "vs_ok t draft target s1" "softmax t (map td_logits target ! i) \<noteq> []"
    "verify_loop ops (length toks) (toks ! i # xs) i s =
      (if token_passes ops t g toks draft target i then verify_loop ops (length toks) xs (i + 1) (accept_token (toks ! i) s1)
       else rbind (sample_from_adjusted ops (softmax t (map td_logits target ! i)) (softmax t (map td_logits draft ! i))
           (gen_at ops g (Suc i))) (\<lambda>bg.
         Inr (set_bonus bg (s1\<lparr>vs_eng := count_rejected (length toks - i) (vs_eng s1)\<rparr>))))"
proof -
  have v: "\<forall>d\<in>set (vs_target s). dist_ok t d" "map td_logits (vs_target s) = map td_logits target"
    "\<forall>d\<in>set (vs_draft s). dist_ok t d" "map td_logits (vs_draft s) = map td_logits draft"
    "sc_temperature (se_cfg (vs_eng s)) = t" using assms(1) by (auto simp: vs_ok_def)
  obtain ts where ts: "probs_at t (int i) (vs_target s) = Inr (softmax t (map td_logits target ! i), ts)"
    "map td_logits ts = map td_logits target" "\<forall>d\<in>set ts. dist_ok t d" "softmax t (map td_logits target ! i) \<noteq> []"
    using probs_at_logits [OF v(1,2), of i] assms(2,4) by auto
  obtain ds where ds: "probs_at t (int i) (vs_draft s) = Inr (softmax t (map td_logits draft ! i), ds)"
    "map td_logits ds = map td_logits draft" "\<forall>d\<in>set ds. dist_ok t d"
    using probs_at_logits [OF v(3,4), of i] assms(2,3) by auto
  have u: "uniform01 ops (se_rng (vs_eng s)) = (draw ops g i, gen_at ops g (Suc i))"
    using assms(5) by (simp add: draw_def gen_at_Suc)
  show thesis
    by (rule that [of _ ts ds, OF refl _ ts(4)])
      (use ts ds u v(5) assms(6) in \<open>auto simp: vs_ok_def Let_def prob_of_ok token_passes_def\<close>)
qed

lemma verify_loop_ok:
  fixes n :: nat
  assumes "int_draws_ok ops" and "\<forall>x\<in>set toks. 0 \<le> x" and "length draft = length toks" "length target = length toks + 1"
    and "xs = drop i toks" and "i \<le> length toks" and "vs_ok t draft target s" and "se_rng (vs_eng s) = gen_at ops g i"
    and "n = length (takeWhile (token_passes ops t g toks draft target) [i..<length toks])"
  shows "\<exists>s'. verify_loop ops (length toks) xs i s = Inr s' \<and>
    sr_accepted (vs_res s') = sr_accepted (vs_res s) @ take n xs \<and>
    sr_n_accepted (vs_res s') = sr_n_accepted (vs_res s) + int n \<and>
    0 \<le> sr_bonus (vs_res s') \<and> sr_bonus (vs_res s') < int (length (td_logits (target ! (i + n)))) \<and>
    se_stats (vs_eng s') = (se_stats (vs_eng s))\<lparr>
      ss_accepted := ss_accepted (se_stats (vs_eng s)) + of_nat n,
      ss_rejected := ss_rejected (se_stats (vs_eng s)) + of_nat (length toks - i - n)\<rparr>"
  using assms(5-)
proof (induction xs arbitrary: i s n)
  case Nil
  then have i: "i = length toks" by simp
  obtain ts where ts: "probs_at t (int (length toks)) (vs_target s) = Inr (softmax t (map td_logits target ! length toks), ts)"
    "softmax t (map td_logits target ! length toks) \<noteq> []"
  proof -
    have "\<forall>d\<in>set (vs_target s). dist_ok t d" "map td_logits (vs_target s) = map td_logits target" "length toks < length target"
      using Nil.prems(3) assms(4) by (auto simp: vs_ok_def)
    from probs_at_logits [OF this] that show thesis by metis
  qed
  from sample_from_range [OF ts(2), of ops "se_rng (vs_eng s)"] ts(1) i Nil.prems(3,5) assms(4) show ?case
    by (simp add: set_bonus_def vs_ok_def)
next
  case (Cons x xs)
  from Cons.prems(1,2) have i: "i < length toks" by (cases "i = length toks") auto
  from Cons.prems(1) i have x: "x = toks ! i" "xs = drop (Suc i) toks"
    by (metis Cons_nth_drop_Suc list.inject)+
  have x0: "0 \<le> toks ! i" using assms(2) i by simp
  let ?ok = "token_passes ops t g toks draft target" and ?g = "gen_at ops g (Suc i)"
  obtain ds ts s1 where s1: "s1 = s\<lparr>vs_eng := (vs_eng s)\<lparr>se_rng := ?g\<rparr>, vs_draft := ds, vs_target := ts\<rparr>"
    "vs_ok t draft target s1" "softmax t (map td_logits target ! i) \<noteq> []"
    and loop: "verify_loop ops (length toks) (toks ! i # xs) i s =
      (if ?ok i then verify_loop ops (length toks) xs (i + 1) (accept_token (toks ! i) s1)
       else rbind (sample_from_adjusted ops (softmax t (map td_logits target ! i)) (softmax t (map td_logits draft ! i)) ?g) (\<lambda>bg.
         Inr (set_bonus bg (s1\<lparr>vs_eng := count_rejected (length toks - i) (vs_eng s1)\<rparr>))))"
    using verify_loop_step [OF Cons.prems(3) i assms(3,4) Cons.prems(4) x0, of xs] by blast
  have up: "[i..<length toks] = i # [Suc i..<length toks]" using i by (simp add: upt_conv_Cons)
  show ?case
  proof (cases "?ok i")
    case True
    define m where "m = length (takeWhile ?ok [Suc i..<length toks])"
    have n: "n = Suc m" using Cons.prems(5) True up by (simp add: m_def)
    have prems: "xs = drop (i + 1) toks" "i + 1 \<le> length toks" "vs_ok t draft target (accept_token x s1)"
      "se_rng (vs_eng (accept_token x s1)) = gen_at ops g (i + 1)" "m = length (takeWhile ?ok [i + 1..<length toks])"
      using x i s1(1,2) m_def by (auto simp: accept_token_def vs_ok_def)
    from Cons.IH [OF prems] loop True n x(1) s1(1) show ?thesis
      by (auto simp: accept_token_def algebra_simps)
  next
    case False
    have n: "n = 0" using Cons.prems(5) False up by simp
    from sample_from_adjusted_range [OF assms(1) s1(3)] obtain bg where
      "sample_from_adjusted ops (softmax t (map td_logits target ! i)) (softmax t (map td_logits draft ! i)) ?g = Inr bg"
      "0 \<le> fst bg" "fst bg < int (length (softmax t (map td_logits target ! i)))" by blast
    with loop False n i s1(1) x(1) assms(4) show ?thesis by (simp add: set_bonus_def count_rejected_def)
  qed
qed


section \<open>Properties\<close>

text \<open>
  C28: rejection sampling accepts the right prefix. For distributions that were not evaluated at
  another temperature, \<open>verify\<close> returns (it does not fault), and accepts exactly the longest
  prefix of the draft in which the draw of every position is at most \<open>min 1 (p_t / (p_d + 1e-9))\<close>;
  the bonus token is a token of the target's vocabulary at the first position not accepted, so
  the step produces one token more than it accepts; and the counters grow by one step, by the
  drafted tokens, by the accepted ones and by all the others.
\<close>

theorem verify_accepts_prefix:
  fixes e :: "'g spec_engine"
  assumes "\<forall>lo hi g. lo \<le> hi \<longrightarrow> lo \<le> fst (uniform_int ops lo hi g) \<and> fst (uniform_int ops lo hi g) \<le> hi"
    and "length draft = length toks" and "length target = length toks + 1" and "\<forall>x\<in>set toks. 0 \<le> x"
    and "\<forall>d\<in>set draft \<union> set target. td_logits d \<noteq> [] \<and>
      (td_computed d \<longrightarrow> td_probs d = softmax (sc_temperature (se_cfg e)) (td_logits d))"
    and "n = accepted_len ops (sc_temperature (se_cfg e)) (se_rng e) toks draft target"
  shows "\<exists>s. verify ops toks draft target e = Inr s \<and> n \<le> length toks \<and>
    sr_accepted (vs_res s) = take n toks \<and> sr_n_accepted (vs_res s) = int n \<and>
    0 \<le> sr_bonus (vs_res s) \<and> sr_bonus (vs_res s) < int (length (td_logits (target ! n))) \<and>
    total_new (vs_res s) = int n + 1 \<and> sr_rate (vs_res s) = acceptance_rate (se_stats (vs_eng s)) \<and>
    se_stats (vs_eng s) = \<lparr>ss_steps = ss_steps (se_stats e) + 1,
      ss_draft = ss_draft (se_stats e) + of_nat (length toks),
      ss_accepted = ss_accepted (se_stats e) + of_nat n,
      ss_rejected = ss_rejected (se_stats e) + of_nat (length toks - n)\<rparr>"
proof -
  let ?s = "\<lparr>vs_res = empty_result, vs_eng = count_step (length toks) e, vs_draft = draft, vs_target = target\<rparr>"
  have n: "n \<le> length toks"
    using assms(6) length_takeWhile_le [of _ "[0..<length toks]"] by (simp add: accepted_len_def)
  from verify_loop_ok [of ops toks draft target toks 0 "sc_temperature (se_cfg e)" ?s "se_rng e" n] assms
  obtain s where "verify_loop ops (length toks) toks 0 ?s = Inr s"
    "sr_accepted (vs_res s) = take n toks" "sr_n_accepted (vs_res s) = int n"
    "0 \<le> sr_bonus (vs_res s)" "sr_bonus (vs_res s) < int (length (td_logits (target ! n)))"
    "se_stats (vs_eng s) = (se_stats (count_step (length toks) e))\<lparr>
      ss_accepted := ss_accepted (se_stats e) + of_nat n,
      ss_rejected := ss_rejected (se_stats e) + of_nat (length toks - n)\<rparr>"
    by (auto simp: vs_ok_def int_draws_ok_def dist_ok_def count_step_def gen_at_def empty_result_def accepted_len_def)
  with n assms(2,3) show ?thesis
    by (simp add: verify_def total_new_def count_step_def)
qed


definition half_rng :: "nat rng_ops" where
  "half_rng = \<lparr>uniform01 = (\<lambda>g. (1 / 2, g + 1)), uniform_int = (\<lambda>lo hi g. (lo, g + 1))\<rparr>"

definition flat_dist :: token_dist where
  "flat_dist = \<lparr>td_logits = [3, 3], td_sampled = 0, td_probs = [], td_computed = False\<rparr>"

definition demo_engine :: "nat spec_engine" where
  "demo_engine = spec_ctor (\<lambda>_. 0) \<lparr>sc_num_speculative_tokens = 2, sc_temperature = 1,
     sc_greedy_verify = False, sc_vocab_size = 2, sc_seed = 42\<rparr>"

theorem verify_accepts_prefix_witness:
  "\<exists>s. verify half_rng [1, 5] [flat_dist, flat_dist] [flat_dist, flat_dist, flat_dist] demo_engine = Inr s \<and>
    sr_accepted (vs_res s) = [1] \<and> total_new (vs_res s) = 2"
proof -
  have "accepted_len half_rng 1 0 [1, 5] [flat_dist, flat_dist] [flat_dist, flat_dist, flat_dist] = 1"
    by (simp add: accepted_len_def token_passes_def draw_def half_rng_def flat_dist_def softmax_def
        max_element_def prob_or_def accept_prob_def tiny_def upt_rec Let_def numeral_2_eq_2 field_simps)
  then show ?thesis
    using verify_accepts_prefix [of half_rng "[flat_dist, flat_dist]" "[1, 5]"
        "[flat_dist, flat_dist, flat_dist]" demo_engine 1]
    by (auto simp: half_rng_def flat_dist_def demo_engine_def spec_ctor_def)
qed

text \<open>
  The probability that one position of \<open>verify\<close> emits the token \<open>x\<close>: the draft proposed it (with
  the probability \<open>q\<close> gives it) and it was accepted, or the proposal was rejected and \<open>x\<close> was drawn
  from what is left of the target.
\<close>

definition residual :: "real list \<Rightarrow> real list \<Rightarrow> nat \<Rightarrow> real" where
  "residual p q x = (if sum_list (adjusted p q) < tiny then 1 / real (length p)
     else adjusted p q ! x / sum_list (adjusted p q))"

definition emit_law :: "real list \<Rightarrow> real list \<Rightarrow> nat \<Rightarrow> real" where
  "emit_law p q x = q ! x * accept_prob (p ! x) (q ! x) +
     (1 - (\<Sum>y<length p. q ! y * accept_prob (p ! y) (q ! y))) * residual p q x"

lemma accepted_mass:
  assumes "0 \<le> p" and "0 \<le> q"
  shows "min p q - tiny \<le> q * accept_prob p q \<and> q * accept_prob p q \<le> min p q"
proof -
  have t: "0 < tiny" by (simp add: tiny_def)
  show ?thesis
  proof (cases "q + tiny \<le> p")
    case True
    then have "accept_prob p q = 1" using assms t by (simp add: accept_prob_def field_simps)
    with True t show ?thesis by simp
  next
    case False
    then have a: "accept_prob p q = p / (q + tiny)" using assms t by (simp add: accept_prob_def field_simps)
    have up: "q * (p / (q + tiny)) \<le> q * 1" using False assms t by (intro mult_left_mono) (simp_all add: field_simps)
    have up': "q * (p / (q + tiny)) \<le> p" using assms t by (simp add: field_simps)
    have "p - q * (p / (q + tiny)) = p * tiny / (q + tiny)" using assms t by (simp add: field_simps)
    also have "\<dots> \<le> tiny"
    proof -
      have "p * tiny \<le> (q + tiny) * tiny" using False t by (intro mult_right_mono) simp_all
      then show ?thesis using assms t by (simp add: divide_le_eq mult.commute)
    qed
    finally show ?thesis using a up up' by simp
  qed
qed

lemma adjusted_nth:
  "x < length p \<Longrightarrow> length q = length p \<Longrightarrow> adjusted p q ! x = p ! x - min (p ! x) (q ! x)"
  by (simp add: adjusted_def min_def max_def)

lemma sum_list_nth: "sum_list xs = (\<Sum>i<length xs. xs ! i)"
  by (simp add: sum_list_sum_nth atLeast0LessThan)

text \<open>The mass of the corrected distribution, and the probability of rejecting a draft token.\<close>

lemma adjusted_mass:
  assumes "length q = length p" and "sum_list p = 1"
  shows "sum_list (adjusted p q) = 1 - (\<Sum>y<length p. min (p ! y) (q ! y))"
proof -
  have "sum_list (adjusted p q) = (\<Sum>y<length p. p ! y - min (p ! y) (q ! y))"
    unfolding sum_list_nth [of "adjusted p q"] using assms(1)
    by (intro sum.cong) (auto simp: adjusted_nth adjusted_def)
  also have "\<dots> = sum_list p - (\<Sum>y<length p. min (p ! y) (q ! y))" by (simp add: sum_subtractf sum_list_nth)
  finally show ?thesis using assms(2) by simp
qed

lemma rejected_mass:
  assumes "length q = length p" and "\<forall>x\<in>set p \<union> set q. 0 \<le> x" and "sum_list p = 1"
  defines "b \<equiv> 1 - (\<Sum>y<length p. q ! y * accept_prob (p ! y) (q ! y))"
  shows "sum_list (adjusted p q) \<le> b" and "b \<le> sum_list (adjusted p q) + real (length p) * tiny"
proof -
  let ?m = "\<lambda>y. min (p ! y) (q ! y)" and ?a = "\<lambda>y. q ! y * accept_prob (p ! y) (q ! y)"
  have a: "?m y - tiny \<le> ?a y" "?a y \<le> ?m y" if "y < length p" for y
    using accepted_mass [of "p ! y" "q ! y"] assms(1,2) that by simp_all
  note S = adjusted_mass [OF assms(1,3)]
  have "(\<Sum>y<length p. ?a y) \<le> (\<Sum>y<length p. ?m y)" by (intro sum_mono a(2)) simp
  then show "sum_list (adjusted p q) \<le> b" using S b_def by simp
  have "(\<Sum>y<length p. ?m y - tiny) \<le> (\<Sum>y<length p. ?a y)" by (intro sum_mono a(1)) simp
  then show "b \<le> sum_list (adjusted p q) + real (length p) * tiny" using S b_def by (simp add: sum_subtractf)
qed

lemma emit_law_close:
  assumes "length q = length p" and "\<forall>x\<in>set p \<union> set q. 0 \<le> x" and "sum_list p = 1" and "sum_list q = 1"
    and "x < length p"
  shows "\<bar>emit_law p q x - p ! x\<bar> \<le> (real (length p) + 1) * tiny"
proof -
  let ?n = "length p" and ?S = "sum_list (adjusted p q)"
  let ?m = "\<lambda>y. min (p ! y) (q ! y)" and ?a = "\<lambda>y. q ! y * accept_prob (p ! y) (q ! y)"
  have t: "0 < tiny" by (simp add: tiny_def)
  have a: "?m x - tiny \<le> ?a x" "?a x \<le> ?m x"
    using accepted_mass [of "p ! x" "q ! x"] assms(1,2,5) by simp_all
  define b where "b = 1 - (\<Sum>y<?n. ?a y)"
  note b1 = rejected_mass(1) [OF assms(1-3), folded b_def] and b2 = rejected_mass(2) [OF assms(1-3), folded b_def]
  have adj: "0 \<le> adjusted p q ! y" if "y < ?n" for y using assms(1) that by (simp add: adjusted_nth)
  have S0: "0 \<le> ?S" by (intro sum_list_nonneg) (auto simp: adjusted_def)
  have px: "p ! x = ?m x + adjusted p q ! x" using adjusted_nth [OF assms(5,1)] by simp
  have adjS: "adjusted p q ! x \<le> ?S"
  proof -
    have len: "length (adjusted p q) = ?n" by (simp add: adjusted_def)
    show ?thesis unfolding sum_list_nth len
      using assms(5) adj by (intro member_le_sum) auto
  qed
  have expand: "(real ?n + 1) * tiny = real ?n * tiny + tiny" by (simp add: algebra_simps)
  show ?thesis
  proof (cases "?S < tiny")
    case True
    then have r: "residual p q x = 1 / real ?n" by (simp add: residual_def)
    have n1: "1 \<le> real ?n" using assms(5) by simp
    have b0: "0 \<le> b" using b1 S0 by simp
    have "b * (1 / real ?n) \<le> b * 1" using b0
      by (intro mult_left_mono) (use n1 in \<open>auto simp: divide_le_eq\<close>)
    moreover have "0 \<le> b * (1 / real ?n)" using b0 by simp
    moreover have "1 * tiny \<le> real ?n * tiny" using n1 t by (intro mult_right_mono) simp_all
    ultimately have "b * (1 / real ?n) \<le> b" "0 \<le> b * (1 / real ?n)" "tiny \<le> real ?n * tiny"
      by (simp_all only: mult_1_left)
    then show ?thesis
      using a b2 True px adjS adj [OF assms(5)]
      unfolding emit_law_def b_def [symmetric] r expand abs_le_iff by linarith
  next
    case False
    then have Sp: "0 < ?S" using t by simp
    have r: "residual p q x = adjusted p q ! x / ?S" using False by (simp add: residual_def)
    have r1: "residual p q x \<le> 1" "0 \<le> residual p q x" using r adjS adj [OF assms(5)] Sp by simp_all
    have e: "?S * residual p q x = adjusted p q ! x" using r Sp by simp
    have "?S * residual p q x \<le> b * residual p q x" using b1 r1 by (intro mult_right_mono)
    moreover have "(b - ?S) * residual p q x \<le> (b - ?S) * 1" using b1 r1 by (intro mult_left_mono) auto
    ultimately have "?S * residual p q x \<le> b * residual p q x"
      "b * residual p q x - ?S * residual p q x \<le> b - ?S" by (simp_all add: left_diff_distrib)
    then show ?thesis
      using a b1 b2 px e t
      unfolding emit_law_def b_def [symmetric] expand abs_le_iff by linarith
  qed
qed




lemma max_element_upto:
  fixes xs :: "real list"
  assumes "0 < n" and "n \<le> length xs"
  shows "\<forall>j<n. xs ! j \<le> xs ! fold (\<lambda>i m. if xs ! m < xs ! i then i else m) [1..<n] 0"
  using assms
proof (induction n)
  case (Suc n)
  show ?case
  proof (cases "n = 0")
    case False
    let ?m = "fold (\<lambda>i m. if xs ! m < xs ! i then i else m) [1..<n] 0"
    from Suc False have IH: "\<forall>j<n. xs ! j \<le> xs ! ?m" by simp
    have "fold (\<lambda>i m. if xs ! m < xs ! i then i else m) [1..<Suc n] 0 = (if xs ! ?m < xs ! n then n else ?m)"
      using False by simp
    with IH show ?thesis by (auto simp: less_Suc_eq intro: order_trans)
  qed simp
qed simp

lemma max_element_max: "j < length xs \<Longrightarrow> xs ! j \<le> xs ! max_element xs"
  using max_element_upto [of "length xs" xs] by (cases xs) (auto simp: max_element_def)

lemma greedy_loop_ok:
  assumes "length toks < length target" and "xs = drop i toks" and "i \<le> length toks"
  shows "\<exists>m r e. greedy_loop (length toks) target xs i re = Inr (r, e) \<and> m \<le> length xs \<and>
    sr_accepted r = sr_accepted (fst re) @ take m xs \<and> sr_n_accepted r = sr_n_accepted (fst re) + int m \<and>
    sr_bonus r = greedy_token (target ! (i + m)) \<and> (m < length xs \<longrightarrow> xs ! m \<noteq> greedy_token (target ! (i + m))) \<and>
    take m xs = map greedy_token (take m (drop i target))"
  using assms(2,3)
proof (induction xs arbitrary: i re)
  case Nil
  then have "i = length toks" by simp
  with assms(1) show ?case by simp
next
  case (Cons x xs)
  from Cons.prems have i: "i < length toks" by (cases "i = length toks") auto
  from Cons.prems(1) i have x: "x = toks ! i" "xs = drop (i + 1) toks"
    by (metis Cons_nth_drop_Suc list.inject Suc_eq_plus1)+
  have ti: "i < length target" using i assms(1) by simp
  show ?case
  proof (cases "x = greedy_token (target ! i)")
    case True
    let ?re = "((fst re)\<lparr>sr_accepted := sr_accepted (fst re) @ [x], sr_n_accepted := sr_n_accepted (fst re) + 1\<rparr>,
      (snd re)\<lparr>se_stats := (se_stats (snd re))\<lparr>ss_accepted := ss_accepted (se_stats (snd re)) + 1\<rparr>\<rparr>)"
    have "i + 1 \<le> length toks" using i by simp
    from Cons.IH [OF x(2) this, of ?re] obtain m r e where
      m: "greedy_loop (length toks) target xs (i + 1) ?re = Inr (r, e)" "m \<le> length xs"
      "sr_accepted r = sr_accepted (fst ?re) @ take m xs" "sr_n_accepted r = sr_n_accepted (fst ?re) + int m"
      "sr_bonus r = greedy_token (target ! (i + 1 + m))"
      "m < length xs \<longrightarrow> xs ! m \<noteq> greedy_token (target ! (i + 1 + m))"
      "take m xs = map greedy_token (take m (drop (i + 1) target))" by blast
    have d: "drop i target = target ! i # drop (i + 1) target" using ti by (simp add: Cons_nth_drop_Suc)
    from m True ti show ?thesis
      by (intro exI [of _ "Suc m"] exI [of _ r] exI [of _ e]) (simp add: d)
  next
    case False
    with ti show ?thesis by (intro exI [of _ 0]) simp
  qed
qed

text \<open>
  C30: greedy verification is lossless. When the target has a distribution for every draft
  position and one more, \<open>verify_greedy\<close> returns, and the tokens it emits (the accepted ones and
  the bonus token) are exactly the tokens the target would have chosen greedily, each a token of
  largest logit; the accepted ones are the longest prefix of the draft that agrees with them.
\<close>

theorem greedy_lossless:
  assumes "length toks < length target" and "\<forall>d\<in>set target. td_logits d \<noteq> []"
  shows "\<exists>n r e'. verify_greedy toks target e = Inr (r, e') \<and> n \<le> length toks \<and>
    sr_n_accepted r = int n \<and> sr_accepted r = take n toks \<and>
    sr_accepted r @ [sr_bonus r] = map greedy_token (take (n + 1) target) \<and>
    (n < length toks \<longrightarrow> toks ! n \<noteq> greedy_token (target ! n)) \<and>
    (\<forall>d\<in>set target. 0 \<le> greedy_token d \<and> greedy_token d < int (length (td_logits d)) \<and>
      (\<forall>l\<in>set (td_logits d). l \<le> td_logits d ! nat (greedy_token d)))"
proof -
  have "\<exists>n r e'. greedy_loop (length toks) target toks 0 (empty_result, count_step (length toks) e) = Inr (r, e') \<and>
    n \<le> length toks \<and> sr_accepted r = take n toks \<and> sr_n_accepted r = int n \<and>
    sr_bonus r = greedy_token (target ! n) \<and> (n < length toks \<longrightarrow> toks ! n \<noteq> greedy_token (target ! n)) \<and>
    take n toks = map greedy_token (take n target)"
    using greedy_loop_ok [OF assms(1), of toks 0 "(empty_result, count_step (length toks) e)"]
    by (simp add: empty_result_def)
  then obtain n r e' where n: "greedy_loop (length toks) target toks 0 (empty_result, count_step (length toks) e) = Inr (r, e')"
    "n \<le> length toks" "sr_accepted r = take n toks" "sr_n_accepted r = int n"
    "sr_bonus r = greedy_token (target ! n)" "n < length toks \<longrightarrow> toks ! n \<noteq> greedy_token (target ! n)"
    "take n toks = map greedy_token (take n target)" by blast
  have "map greedy_token (take (n + 1) target) = take n toks @ [greedy_token (target ! n)]"
    using n(2,7) assms(1) by (simp add: take_Suc_conv_app_nth)
  moreover have "\<forall>d\<in>set target. 0 \<le> greedy_token d \<and> greedy_token d < int (length (td_logits d)) \<and>
      (\<forall>l\<in>set (td_logits d). l \<le> td_logits d ! nat (greedy_token d))"
    using assms(2) max_element_less max_element_max by (auto simp: greedy_token_def in_set_conv_nth)
  ultimately show ?thesis using n by (intro exI [of _ n] exI [of _ r] exI [of _ e']) (simp add: verify_greedy_def)
qed

theorem greedy_lossless_witness:
  "\<exists>n r e'. verify_greedy [0, 1] [flat_dist, flat_dist, flat_dist] demo_engine = Inr (r, e') \<and>
    sr_accepted r @ [sr_bonus r] = map greedy_token (take (n + 1) [flat_dist, flat_dist, flat_dist])"
  using greedy_lossless [of "[0, 1]" "[flat_dist, flat_dist, flat_dist]" demo_engine]
  by (auto simp: flat_dist_def)

section \<open>Medusa and the lazily computed probabilities\<close>

definition medusa_passes :: "'g rng_ops \<Rightarrow> medusa_config \<Rightarrow> real \<Rightarrow> 'g \<Rightarrow> int list \<Rightarrow> token_dist list \<Rightarrow> nat \<Rightarrow> bool"
  where "medusa_passes ops cfg t g cands ds i \<longleftrightarrow>
    (let pt = prob_or 0 (softmax t (map td_logits ds ! i)) (cands ! i) in
     if mc_threshold cfg > 0 then pt \<ge> mc_threshold cfg else draw ops g i \<le> pt)"

text \<open>
  The Medusa verification accepts the longest prefix of the candidates that passes the threshold
  (or, without one, the draw), within the heads and the distributions given.
\<close>

lemma medusa_loop_ok:
  assumes "\<forall>c\<in>set cands. 0 \<le> c" and "cs = drop i cands" and "i \<le> length cands"
    and "\<forall>d\<in>set ds'. dist_ok t d" and "map td_logits ds' = map td_logits ds"
    and "mc_threshold cfg > 0 \<and> g' = g \<or> mc_threshold cfg \<le> 0 \<and> g' = gen_at ops g i"
    and "n = length (takeWhile (medusa_passes ops cfg t g cands ds)
      [i..<min (nat (mc_num_heads cfg)) (min (length cands) (length ds))])"
  shows "\<exists>res' rest. medusa_loop ops cfg t cs i (res, ds', g') = Inr (res', rest) \<and>
    mr_path res' = mr_path res @ take n cs \<and> mr_total res' = mr_total res + int n"
  using assms(2-)
proof (induction cs arbitrary: i ds' g' res n)
  case Nil
  then show ?case by simp
next
  case (Cons c cs)
  let ?top = "min (nat (mc_num_heads cfg)) (min (length cands) (length ds))"
  let ?ok = "medusa_passes ops cfg t g cands ds"
  from Cons.prems(1,2) have i: "i < length cands" by (cases "i = length cands") auto
  from Cons.prems(1) i have c: "c = cands ! i" "cs = drop (i + 1) cands"
    by (metis Cons_nth_drop_Suc list.inject Suc_eq_plus1)+
  have len: "length ds' = length ds" using Cons.prems(4) by (metis length_map)
  show ?case
  proof (cases "i < ?top")
    case False
    then have "n = 0" "\<not> int i < mc_num_heads cfg \<or> length ds' \<le> i" using Cons.prems(6) i len by auto
    then show ?thesis by auto
  next
    case True
    have c0: "0 \<le> c" using assms(1) c i by simp
    let ?p = "softmax t (map td_logits ds ! i)"
    from probs_at_ok [OF Cons.prems(3), of i] True len Cons.prems(4) obtain ds2 where
      ds2: "probs_at t (int i) ds' = Inr (?p, ds2)" "map td_logits ds2 = map td_logits ds"
      "\<forall>d\<in>set ds2. dist_ok t d" by auto
    define g2 where "g2 = (if mc_threshold cfg > 0 then g' else snd (uniform01 ops g'))"
    let ?res = "res\<lparr>mr_path := mr_path res @ [c], mr_total := mr_total res + 1\<rparr>"
    have loop: "medusa_loop ops cfg t (c # cs) i (res, ds', g') =
      (if ?ok i then medusa_loop ops cfg t cs (i + 1) (?res, ds2, g2) else Inr (res, ds2, g2))"
      using True len ds2(1) c0 c(1) Cons.prems(5)
      by (auto simp: prob_of_ok medusa_passes_def Let_def g2_def draw_def split_def)
    have g2: "mc_threshold cfg > 0 \<and> g2 = g \<or> mc_threshold cfg \<le> 0 \<and> g2 = gen_at ops g (i + 1)"
      using Cons.prems(5) by (auto simp: g2_def gen_at_Suc)
    have up: "[i..<?top] = i # [i + 1..<?top]" using True by (simp add: upt_conv_Cons)
    show ?thesis
    proof (cases "?ok i")
      case True
      define m where "m = length (takeWhile ?ok [i + 1..<?top])"
      have n: "n = Suc m" using Cons.prems(6) True up by (simp add: m_def)
      from Cons.IH [OF c(2) _ ds2(3,2) g2 m_def, of ?res] i loop True n show ?thesis by auto
    next
      case False
      then have "n = 0" using Cons.prems(6) up by simp
      with loop False show ?thesis by auto
    qed
  qed
qed

theorem medusa_accepts_prefix:
  assumes "\<forall>c\<in>set cands. 0 \<le> c" and "\<forall>d\<in>set ds. dist_ok t d"
    and "n = length (takeWhile (medusa_passes ops cfg t g cands ds)
      [0..<min (nat (mc_num_heads cfg)) (min (length cands) (length ds))])"
  shows "\<exists>res rest. medusa_verify ops cfg cands ds t g = Inr (res, rest) \<and>
    mr_path res = take n cands \<and> mr_total res = int n"
  using medusa_loop_ok [OF assms(1) _ _ assms(2) refl _ assms(3), of cands g "\<lparr>mr_path = [], mr_total = 0\<rparr>"]
    linorder_not_less [of 0 "mc_threshold cfg"]
  by (auto simp: medusa_verify_def gen_at_def)

text \<open>
  The cache of a distribution does not record its temperature: a second call with another one
  returns the probabilities of the first.
\<close>

theorem probs_cached_temperature:
  assumes "dist_probs t1 d = Inr (ps, d')"
  shows "dist_probs t2 d' = Inr (ps, d')"
  using assms by (auto simp: dist_probs_def Let_def split: if_splits)

end
