(* ===== verification/Fp8.thy ===== *)
theory Fp8
  imports Prelude Complex_Main "HOL-Library.Log_Nat"
begin

text \<open>
  Host-side conversion between \<open>float\<close> and the two 8-bit formats (include/fp8.hpp). A \<open>float\<close> is a
  NaN, a signed infinity or an exact rational; every operation of these functions on a \<open>float\<close>
  (scaling by a power of two, \<open>frac * 2 - 1\<close>, rounding to an integer) is exact, so nothing is lost.
  The two zeros are one: the code compares with \<open>< 0\<close> and \<open>== 0\<close>, which do not tell them apart.
\<close>

unbundle bit_operations_syntax

section \<open>Floats\<close>

datatype f32 = F_NaN | F_Inf bool | F_Fin rat

text \<open>\<open>std::ldexp\<close>, \<open>std::frexp\<close> on a positive argument, \<open>std::round\<close> on a non-negative one.\<close>

definition ldexp :: "rat \<Rightarrow> int \<Rightarrow> rat" where
  "ldexp x e = (if 0 \<le> e then x * 2 ^ nat e else x / 2 ^ nat (- e))"

definition frexp :: "rat \<Rightarrow> rat \<times> int" where
  "frexp v = (case quotient_of v of (a, b) \<Rightarrow>
     let e0 = bitlen a - bitlen b; e = (if v < ldexp 1 e0 then e0 else e0 + 1) in (ldexp v (- e), e))"

definition round_nat :: "rat \<Rightarrow> nat" where
  "round_nat x = nat \<lfloor>x + 1 / 2\<rfloor>"

fun f_neg :: "f32 \<Rightarrow> f32" where
  "f_neg F_NaN = F_NaN"
| "f_neg (F_Inf s) = F_Inf (\<not> s)"
| "f_neg (F_Fin x) = F_Fin (- x)"

section \<open>E4M3\<close>

definition e4m3_to_f32 :: "byte \<Rightarrow> f32" where
  "e4m3_to_f32 v =
     (let s = drop_bit 7 v AND 1; e = drop_bit 3 v AND 0xF; mant = v AND 7;
          result =
            (if e = 0 \<and> mant = 0 then F_Fin 0
             else if e = 0xF \<and> mant = 7 then F_NaN
             else if e = 0 then F_Fin (ldexp (of_nat (unat mant) / 8) (- 6))
             else F_Fin (ldexp (1 + of_nat (unat mant) / 8) (int (unat e) - 7)))
      in if s \<noteq> 0 then f_neg result else result)"

text \<open>The code of a normal value from its biased exponent and its mantissa rounded to eighths.\<close>

definition e4m3_pack :: "byte \<Rightarrow> int \<Rightarrow> nat \<Rightarrow> byte" where
  "e4m3_pack sb biased r =
     (let e8 = (of_int (if biased > 15 then 15 else biased) :: byte); m = (of_nat r :: byte);
          (m', e') = (if m \<ge> 8 then (0, e8 + 1) else (m, e8)) in
      if e' > 15 \<or> (e' = 15 \<and> m' \<ge> 7) then sb OR 0x7E
      else sb OR push_bit 3 e' OR m')"

text \<open>What follows the clamp: the encoding of a value in \<open>[0, 448]\<close> under a sign bit.\<close>

definition e4m3_encode :: "byte \<Rightarrow> rat \<Rightarrow> byte" where
  "e4m3_encode sb v =
     (if v = 0 then sb
      else case frexp v of (fr, e) \<Rightarrow>
        let biased = e - 1 + 7 in
        if biased \<le> 0 then
          (let mant = (of_nat (round_nat (v * ldexp 8 6)) :: byte);
               mant = (if mant > 7 then 7 else mant) in sb OR mant)
        else e4m3_pack sb biased (round_nat ((fr * 2 - 1) * 8)))"

fun f32_to_e4m3 :: "f32 \<Rightarrow> byte" where
  "f32_to_e4m3 F_NaN = 0x7F"
| "f32_to_e4m3 (F_Inf s) = e4m3_encode (if s then 0x80 else 0) 448"
| "f32_to_e4m3 (F_Fin x) = e4m3_encode (if x < 0 then 0x80 else 0) (if \<bar>x\<bar> > 448 then 448 else \<bar>x\<bar>)"

section \<open>E5M2\<close>

definition e5m2_to_f32 :: "byte \<Rightarrow> f32" where
  "e5m2_to_f32 v =
     (let s = drop_bit 7 v AND 1; e = drop_bit 2 v AND 0x1F; mant = v AND 3;
          result =
            (if e = 0x1F then (if mant = 0 then F_Inf False else F_NaN)
             else if e = 0 \<and> mant = 0 then F_Fin 0
             else if e = 0 then F_Fin (ldexp (of_nat (unat mant) / 4) (- 14))
             else F_Fin (ldexp (1 + of_nat (unat mant) / 4) (int (unat e) - 15)))
      in if s \<noteq> 0 then f_neg result else result)"

definition e5m2_encode :: "byte \<Rightarrow> rat \<Rightarrow> byte" where
  "e5m2_encode sb v =
     (if v = 0 then sb
      else case frexp v of (fr, e) \<Rightarrow>
        let biased = e - 1 + 15 in
        if biased \<le> 0 then
          (let mant = (of_nat (round_nat (v * ldexp 4 14)) :: byte);
               mant = (if mant > 3 then 3 else mant) in sb OR mant)
        else if biased \<ge> 31 then sb OR 0x7C
        else
          (let e8 = (of_int biased :: byte);
               m = (of_nat (round_nat ((fr * 2 - 1) * 4)) :: byte);
               (m', e') = (if m \<ge> 4 then (0, e8 + 1) else (m, e8)) in
           if e' \<ge> 31 then sb OR 0x7C else sb OR push_bit 2 e' OR m'))"

fun f32_to_e5m2 :: "f32 \<Rightarrow> byte" where
  "f32_to_e5m2 F_NaN = 0x7F"
| "f32_to_e5m2 (F_Inf s) = (if s then 0x80 else 0) OR 0x7C"
| "f32_to_e5m2 (F_Fin x) = e5m2_encode (if x < 0 then 0x80 else 0) (if \<bar>x\<bar> > 57344 then 57344 else \<bar>x\<bar>)"

section \<open>Round trips\<close>

text \<open>What a code becomes: minus zero loses its sign, every NaN becomes the canonical one.\<close>

definition e4m3_canon :: "byte \<Rightarrow> byte" where
  "e4m3_canon v = (if v = 0x80 then 0 else if v = 0xFF then 0x7F else v)"

definition e5m2_canon :: "byte \<Rightarrow> byte" where
  "e5m2_canon v = (if v = 0x80 then 0 else if (v AND 0x7F) > 0x7C then 0x7F else v)"

definition e4m3_trips :: "int list \<Rightarrow> bool" where
  "e4m3_trips = list_all (\<lambda>n. f32_to_e4m3 (e4m3_to_f32 (word_of_int n)) = e4m3_canon (word_of_int n))"

definition e5m2_trips :: "int list \<Rightarrow> bool" where
  "e5m2_trips = list_all (\<lambda>n. f32_to_e5m2 (e5m2_to_f32 (word_of_int n)) = e5m2_canon (word_of_int n))"

lemma e4m3_quarter0: "e4m3_trips [0..63]"
  by code_simp

lemma e4m3_quarter1: "e4m3_trips [64..127]"
  by code_simp

lemma e4m3_quarter2: "e4m3_trips [128..191]"
  by code_simp

lemma e4m3_quarter3: "e4m3_trips [192..255]"
  by code_simp

lemma e5m2_quarter0: "e5m2_trips [0..63]"
  by code_simp

lemma e5m2_quarter1: "e5m2_trips [64..127]"
  by code_simp

lemma e5m2_quarter2: "e5m2_trips [128..191]"
  by code_simp

lemma e5m2_quarter3: "e5m2_trips [192..255]"
  by code_simp

lemma byte_quarters:
  fixes v :: byte
  obtains n where "v = word_of_int n" "n \<in> set [0..63] \<or> n \<in> set [64..127] \<or> n \<in> set [128..191] \<or> n \<in> set [192..255]"
proof (rule that)
  have "uint v < 2 ^ LENGTH(8)" by (rule unsigned_less)
  then have bound: "0 \<le> uint v" "uint v < 256" by simp_all
  show "v = word_of_int (uint v)" by simp
  show "uint v \<in> set [0..63] \<or> uint v \<in> set [64..127] \<or> uint v \<in> set [128..191] \<or> uint v \<in> set [192..255]"
    using bound unfolding set_upto atLeastAtMost_iff by linarith
qed


section \<open>Rounding\<close>

lemma ldexp_powi: "ldexp x e = x * 2 powi e"
  by (cases "0 \<le> e") (simp_all add: ldexp_def power_int_def power_divide inverse_eq_divide)

lemma frexp_bounds:
  assumes "0 < v" and "frexp v = (fr, e)"
  shows "fr = v * 2 powi (- e) \<and> 1 / 2 \<le> fr \<and> fr < 1 \<and> 2 powi (e - 1) \<le> v \<and> v < 2 powi e"
proof -
  obtain a b where q: "quotient_of v = (a, b)" by force
  have v: "v = of_int a / of_int b" and b: "0 < b" using q quotient_of_div quotient_of_denom_pos by blast+
  then have a: "0 < a" using assms(1) by (simp add: zero_less_divide_iff)
  let ?e0 = "bitlen a - bitlen b"
  have le: "(2 :: rat) powi (bitlen x - 1) \<le> of_int x \<and> of_int x < (2 :: rat) powi bitlen x" if "0 < x" for x
  proof -
    from bitlen_bounds [OF that] have "2 ^ nat (bitlen x - 1) \<le> x" "x < 2 ^ nat (bitlen x)" by auto
    then have "(of_int (2 ^ nat (bitlen x - 1)) :: rat) \<le> of_int x" "(of_int x :: rat) < of_int (2 ^ nat (bitlen x))"
      by (simp_all only: of_int_le_iff of_int_less_iff)
    moreover have "0 < bitlen x" using that bitlen_nonneg [of x] bitlen_bounds [OF that] by (cases "bitlen x = 0") auto
    ultimately show ?thesis by (simp add: power_int_def)
  qed
  have up: "v < 2 powi (?e0 + 1)"
  proof -
    have "(of_int a :: rat) < 2 powi bitlen a" "(2 :: rat) powi (bitlen b - 1) \<le> of_int b"
      using le [OF a] le [OF b] by blast+
    moreover have "(0 :: rat) < 2 powi (bitlen b - 1)" by simp
    ultimately have "v < 2 powi bitlen a / 2 powi (bitlen b - 1)"
      unfolding v using a by (intro frac_less) simp_all
    also have "\<dots> = 2 powi (bitlen a - (bitlen b - 1))" by (simp add: power_int_diff)
    finally show ?thesis by (simp only: diff_diff_eq2 diff_add_eq)
  qed
  have low: "2 powi (?e0 - 1) \<le> v"
  proof -
    have "(2 :: rat) powi (bitlen a - 1) \<le> of_int a" "(of_int b :: rat) \<le> 2 powi bitlen b"
      using le [OF a] le [OF b] by (blast intro: less_imp_le)+
    then have "2 powi (bitlen a - 1) / 2 powi bitlen b \<le> v"
      unfolding v using a b by (intro frac_le) simp_all
    moreover have "2 powi (bitlen a - 1) / 2 powi bitlen b = (2 :: rat) powi (?e0 - 1)"
      by (simp add: power_int_diff)
    ultimately show ?thesis by (simp only:)
  qed
  have e: "e = (if v < 2 powi ?e0 then ?e0 else ?e0 + 1)" and fr: "fr = v * 2 powi (- e)"
    using assms(2) q by (auto simp: frexp_def Let_def ldexp_powi split: if_splits)
  have be: "2 powi (e - 1) \<le> v" "v < 2 powi e" using e up low by (auto split: if_splits)
  have "v * 2 powi (- e) < 2 powi e * 2 powi (- e)" using be by (intro mult_strict_right_mono) simp_all
  moreover have "2 powi (e - 1) * 2 powi (- e) \<le> v * 2 powi (- e)" using be by (intro mult_right_mono) simp_all
  moreover have "2 powi e * 2 powi (- e) = (1 :: rat)" "2 powi (e - 1) * 2 powi (- e) = (1 / 2 :: rat)"
    by (simp_all add: power_int_diff power_int_minus)
  ultimately show ?thesis using be fr by simp
qed

lemma round_nat_close: "0 \<le> x \<Longrightarrow> \<bar>of_nat (round_nat x) - x\<bar> \<le> 1 / 2"
proof -
  assume "0 \<le> x"
  then have "of_nat (round_nat x) = (of_int \<lfloor>x + 1 / 2\<rfloor> :: rat)" by (simp add: round_nat_def)
  with of_int_floor_le [of "x + 1 / 2"] floor_correct [of "x + 1 / 2"] show ?thesis unfolding abs_le_iff by linarith
qed

definition e4m3_value :: "int \<Rightarrow> int \<Rightarrow> rat" where
  "e4m3_value e m = (if e = 0 then ldexp (of_int m / 8) (- 6) else ldexp (1 + of_int m / 8) (e - 7))"

definition e4m3_fields_ok :: "int list \<Rightarrow> bool" where
  "e4m3_fields_ok es = list_all (\<lambda>e. list_all (\<lambda>m. e = 15 \<and> m = 7 \<or>
     e4m3_to_f32 (0 OR push_bit 3 (word_of_int e) OR word_of_int m) = F_Fin (e4m3_value e m) \<and>
     e4m3_to_f32 (0x80 OR push_bit 3 (word_of_int e) OR word_of_int m) = F_Fin (- e4m3_value e m)) [0..7]) es"

lemma e4m3_fields_all: "e4m3_fields_ok [0..15]"
  by code_simp


lemma e4m3_fields:
  assumes "0 \<le> e" "e \<le> 15" "0 \<le> m" "m \<le> 7" "\<not> (e = 15 \<and> m = 7)" and "sb = 0 \<or> sb = 0x80"
  shows "e4m3_to_f32 (sb OR push_bit 3 (word_of_int e) OR word_of_int m) =
    F_Fin (if sb = 0 then e4m3_value e m else - e4m3_value e m)"
proof -
  have "e \<in> set [0..15]" "m \<in> set [0..7]" using assms unfolding set_upto by simp_all
  with e4m3_fields_all assms(5)
  have "e4m3_to_f32 (0 OR push_bit 3 (word_of_int e) OR word_of_int m) = F_Fin (e4m3_value e m)"
     "e4m3_to_f32 (0x80 OR push_bit 3 (word_of_int e) OR word_of_int m) = F_Fin (- e4m3_value e m)"
    unfolding e4m3_fields_ok_def list_all_iff by blast+
  with assms(6) show ?thesis by auto
qed

lemma small_byte:
  assumes "n < 256"
  shows "8 \<le> (word_of_nat n :: byte) \<longleftrightarrow> 8 \<le> n" "7 \<le> (word_of_nat n :: byte) \<longleftrightarrow> 7 \<le> n"
    "7 < (word_of_nat n :: byte) \<longleftrightarrow> 7 < n" "15 < (word_of_nat n :: byte) \<longleftrightarrow> 15 < n"
    "(word_of_nat n :: byte) = 15 \<longleftrightarrow> n = 15"
  using assms by (simp_all add: word_le_nat_alt word_less_nat_alt word_unat_eq_iff unat_of_nat)

lemma e4m3_pack_eq:
  assumes "1 \<le> b" "b \<le> 15" "m \<le> 8" "\<not> (b = 15 \<and> 7 \<le> m)"
  shows "e4m3_pack sb b m =
   (if m = 8 then sb OR push_bit 3 (word_of_int (b + 1)) OR word_of_int 0
    else sb OR push_bit 3 (word_of_int b) OR word_of_int (int m))"
proof -
  define k where "k = nat b"
  have b: "b = int k" using assms(1) by (simp add: k_def)
  have k: "k < 255" "m < 256" using assms b by simp_all
  show ?thesis
  proof (cases "m = 8")
    case True
    then have k15: "k + 1 \<le> 15" using assms(2,4) b by (cases "k = 15") auto
    then have "\<not> 15 < (word_of_nat k + 1 :: byte)" using small_byte(4) [of "k + 1"] by (simp add: ac_simps)
    with True k15 show ?thesis unfolding b by (simp add: Let_def e4m3_pack_def)
  next
    case False
    with assms k show ?thesis unfolding b by (auto simp: small_byte Let_def e4m3_pack_def)
  qed
qed


lemma round_nat_le: "0 \<le> x \<Longrightarrow> x < of_nat n \<Longrightarrow> round_nat x \<le> n"
  unfolding round_nat_def by linarith

lemma e4m3_normal:
  assumes "1 / 64 \<le> v" "v \<le> 448" "sb = 0 \<or> sb = 0x80"
  shows "\<exists>y. e4m3_to_f32 (e4m3_encode sb v) = F_Fin (if sb = 0 then y else - y) \<and> \<bar>y - v\<bar> \<le> v / 16"
proof -
  obtain fr e where f: "frexp v = (fr, e)" by force
  have "0 < v" using assms(1) by (rule less_le_trans [rotated]) simp
  from frexp_bounds [OF this f] have fr: "fr = v * 2 powi (- e)" "1 / 2 \<le> fr" "fr < 1"
    "2 powi (e - 1) \<le> v" "v < 2 powi e" by simp_all
  have "(2 :: rat) powi (- 6) < 2 powi e" "(2 :: rat) powi (e - 1) < 2 powi 9"
    using assms(1,2) fr(4,5) by (simp_all add: power_int_minus)
  then have e: "- 5 \<le> e" "e \<le> 9"
    using power_int_increasing [of e "- 6" "2 :: rat"] power_int_increasing [of 9 "e - 1" "2 :: rat"] by force+
  define x where "x = (fr * 2 - 1) * 8"
  define m where "m = round_nat x"
  have x: "0 \<le> x" "x < 8" using fr by (simp_all add: x_def)
  then have m: "m \<le> 8" unfolding m_def using round_nat_le [of x 8] by simp
  have top: "\<not> (e + 6 = 15 \<and> 7 \<le> m)"
  proof
    assume a: "e + 6 = 15 \<and> 7 \<le> m"
    then have "fr = v / 512" using fr(1) by (simp add: power_int_minus)
    then have "x \<le> 6" using assms(2) by (simp add: x_def)
    then have "\<lfloor>x + 1 / 2\<rfloor> < 7" by linarith
    then have "round_nat x < 7" unfolding round_nat_def by linarith
    then show False using a by (simp add: m_def)
  qed
  have v: "v = (1 + x / 8) * 2 powi (e - 1)"
    using fr(1) by (simp add: x_def power_int_minus power_int_diff field_simps)
  have "e4m3_encode sb v = e4m3_pack sb (e + 6) m"
    using e \<open>0 < v\<close> f by (simp add: e4m3_encode_def m_def x_def Let_def add.commute)
  also have "\<dots> = (if m = 8 then sb OR push_bit 3 (word_of_int (e + 6 + 1)) OR word_of_int 0
    else sb OR push_bit 3 (word_of_int (e + 6)) OR word_of_int (int m))"
    by (rule e4m3_pack_eq) (use e m top in simp_all)
  finally have enc: "e4m3_encode sb v = (if m = 8
    then sb OR push_bit 3 (word_of_int (e + 6 + 1)) OR word_of_int 0
    else sb OR push_bit 3 (word_of_int (e + 6)) OR word_of_int (int m))" .
  define y where "y = (1 + of_nat m / 8) * (2 :: rat) powi (e - 1)"
  have val: "e4m3_to_f32 (e4m3_encode sb v) = F_Fin (if sb = 0 then y else - y)"
  proof (cases "m = 8")
    case True
    then have "e + 6 + 1 \<le> 15" using top e by auto
    with True e enc e4m3_fields [of "e + 6 + 1" 0 sb] assms(3) show ?thesis
      by (simp add: y_def e4m3_value_def ldexp_powi power_int_diff)
  next
    case False
    with m top e enc e4m3_fields [of "e + 6" "int m" sb] assms(3) show ?thesis
      by (auto simp: y_def e4m3_value_def ldexp_powi)
  qed
  have "\<bar>y - v\<bar> = \<bar>of_nat m - x\<bar> / 8 * 2 powi (e - 1)"
    unfolding y_def v by (simp add: left_diff_distrib [symmetric] diff_divide_distrib [symmetric])
      (simp add: abs_mult)
  also have "\<dots> \<le> (1 / 2) / 8 * 2 powi (e - 1)"
    using round_nat_close [OF x(1)] by (intro mult_right_mono divide_right_mono) (simp_all add: m_def)
  also have "\<dots> \<le> v / 16" using fr(4) by simp
  finally show ?thesis using val by blast
qed


lemma e4m3_subnormal:
  assumes "0 \<le> v" "v < 1 / 64" "sb = 0 \<or> sb = 0x80"
  shows "\<exists>y. e4m3_to_f32 (e4m3_encode sb v) = F_Fin (if sb = 0 then y else - y) \<and> \<bar>y - v\<bar> \<le> 1 / 512"
proof (cases "v = 0")
  case True
  with e4m3_fields [of 0 0 sb] assms(3) show ?thesis
    by (intro exI [of _ 0]) (auto simp: e4m3_encode_def e4m3_value_def ldexp_def)
next
  case False
  with assms(1) have v: "0 < v" by simp
  obtain fr e where f: "frexp v = (fr, e)" by force
  from frexp_bounds [OF v f] assms(2) have "(2 :: rat) powi (e - 1) < 2 powi (- 6)" by (simp add: power_int_minus)
  then have e: "e - 1 + 7 \<le> 0" using power_int_increasing [of "- 6" "e - 1" "2 :: rat"] by force
  define x where "x = v * 512"
  define m where "m = round_nat x"
  have x: "0 \<le> x" "x < 8" using v assms(2) by (simp_all add: x_def)
  then have m: "m \<le> 8" unfolding m_def using round_nat_le [of x 8] by simp
  define c where "c = min m 7"
  have c: "c \<le> 7" by (simp add: c_def)
  have "e4m3_encode sb v = sb OR (if word_of_nat m > (7 :: byte) then 7 else word_of_nat m)"
    using v f e by (simp add: e4m3_encode_def Let_def m_def x_def ldexp_def)
  also have "(if word_of_nat m > (7 :: byte) then 7 else word_of_nat m) = (word_of_int (int c) :: byte)"
    using m by (auto simp: small_byte c_def min_def)
  finally have "e4m3_encode sb v = sb OR push_bit 3 (word_of_int 0) OR word_of_int (int c)" by simp
  with e4m3_fields [of 0 "int c" sb] c assms(3)
  have val: "e4m3_to_f32 (e4m3_encode sb v) = F_Fin (if sb = 0 then of_nat c / 512 else - (of_nat c / 512))"
    by (simp add: e4m3_value_def ldexp_def)
  have "\<bar>of_nat c - x\<bar> \<le> 1"
  proof (cases "m = 8")
    case True
    then show ?thesis using round_nat_close [OF x(1)] x(2) m_def unfolding c_def by (simp add: abs_le_iff)
  next
    case False
    then have "c = m" using m by (simp add: c_def)
    then show ?thesis using round_nat_close [OF x(1)] m_def by simp
  qed
  then have "\<bar>of_nat c / 512 - v\<bar> \<le> 1 / 512" unfolding x_def abs_le_iff by linarith
  with val show ?thesis by blast
qed

section \<open>Properties\<close>

text \<open>
  C31: both formats survive a round trip. Every one of the 256 codes of either format, converted to
  \<open>float\<close> and back, is the same code, except that minus zero becomes zero and that every NaN
  becomes the canonical NaN \<open>0x7F\<close>.
\<close>

theorem fp8_roundtrip:
  "f32_to_e4m3 (e4m3_to_f32 v) = (if v = 0x80 then 0 else if v = 0xFF then 0x7F else v) \<and>
   f32_to_e5m2 (e5m2_to_f32 v) = (if v = 0x80 then 0 else if (v AND 0x7F) > 0x7C then 0x7F else v)"
proof (rule byte_quarters [of v])
  fix n :: int
  assume v: "v = word_of_int n"
    and n: "n \<in> set [0..63] \<or> n \<in> set [64..127] \<or> n \<in> set [128..191] \<or> n \<in> set [192..255]"
  from n e4m3_quarter0 e4m3_quarter1 e4m3_quarter2 e4m3_quarter3 have "f32_to_e4m3 (e4m3_to_f32 v) = e4m3_canon v"
    unfolding e4m3_trips_def list_all_iff v by blast
  moreover from n e5m2_quarter0 e5m2_quarter1 e5m2_quarter2 e5m2_quarter3
  have "f32_to_e5m2 (e5m2_to_f32 v) = e5m2_canon v"
    unfolding e5m2_trips_def list_all_iff v by blast
  ultimately show ?thesis unfolding e4m3_canon_def e5m2_canon_def by (rule conjI)
qed

text \<open>
  C32: encoding to E4M3 loses at most what three mantissa bits must lose. Every finite value is
  encoded as a finite code with the sign of the value; in the range \<open>1/64 \<le> |x| \<le> 448\<close> of the normal
  numbers the relative error is at most 1/16, below it the absolute error is at most 1/512, one
  subnormal step, and beyond it the code is that of \<open>448\<close> or \<open>-448\<close>.
\<close>

theorem e4m3_error_bound:
  "\<exists>y. e4m3_to_f32 (f32_to_e4m3 (F_Fin x)) = F_Fin y \<and>
     \<bar>y - x\<bar> \<le> (if \<bar>x\<bar> < 1 / 64 then 1 / 512 else if \<bar>x\<bar> \<le> 448 then \<bar>x\<bar> / 16 else \<bar>x\<bar> - 448)"
proof -
  define v where "v = (if \<bar>x\<bar> > 448 then 448 else \<bar>x\<bar>)"
  define sb :: byte where "sb = (if x < 0 then 0x80 else 0)"
  have sb: "sb = 0 \<or> sb = 0x80" "sb = 0 \<longleftrightarrow> 0 \<le> x" by (auto simp: sb_def)
  have enc: "f32_to_e4m3 (F_Fin x) = e4m3_encode sb v" by (simp add: sb_def v_def)
  have sign: "\<bar>(if sb = 0 then y else - y) - x\<bar> = \<bar>y - \<bar>x\<bar>\<bar>" for y
    using sb(2) by (auto simp: abs_if)
  consider (sub) "\<bar>x\<bar> < 1 / 64" | (norm) "1 / 64 \<le> \<bar>x\<bar>" "\<bar>x\<bar> \<le> 448" | (big) "448 < \<bar>x\<bar>" by linarith
  then show ?thesis
  proof cases
    case sub
    then have v: "v = \<bar>x\<bar>" by (simp add: v_def)
    with e4m3_subnormal [OF _ _ sb(1), of v] sub obtain y where
      "e4m3_to_f32 (e4m3_encode sb v) = F_Fin (if sb = 0 then y else - y)" "\<bar>y - \<bar>x\<bar>\<bar> \<le> 1 / 512" by auto
    with sub enc sign show ?thesis by (intro exI [of _ "if sb = 0 then y else - y"]) simp
  next
    case norm
    then have v: "v = \<bar>x\<bar>" by (simp add: v_def)
    with e4m3_normal [OF _ _ sb(1), of v] norm obtain y where
      "e4m3_to_f32 (e4m3_encode sb v) = F_Fin (if sb = 0 then y else - y)" "\<bar>y - \<bar>x\<bar>\<bar> \<le> \<bar>x\<bar> / 16" by auto
    with norm enc sign show ?thesis by (intro exI [of _ "if sb = 0 then y else - y"]) simp
  next
    case big
    then have v: "v = 448" by (simp add: v_def)
    have "e4m3_to_f32 (e4m3_encode 0 448) = F_Fin 448" "e4m3_to_f32 (e4m3_encode 0x80 448) = F_Fin (- 448)"
      by code_simp+
    with sb(1) v enc have "e4m3_to_f32 (f32_to_e4m3 (F_Fin x)) = F_Fin (if sb = 0 then 448 else - 448)" by auto
    moreover have "\<bar>448 - \<bar>x\<bar>\<bar> = \<bar>x\<bar> - 448" "\<not> \<bar>x\<bar> < 1 / 64" "\<not> \<bar>x\<bar> \<le> 448" using big by simp_all
    ultimately show ?thesis using sign [of 448] by (intro exI [of _ "if sb = 0 then 448 else - 448"]) simp
  qed
qed

text \<open>
  A value that rounds up to the first normal number is clamped to the largest subnormal: \<open>255/16384\<close>
  becomes \<open>7/512\<close>, although \<open>1/64\<close> is representable and closer.
\<close>

theorem e4m3_subnormal_clamp:
  "e4m3_to_f32 (f32_to_e4m3 (F_Fin (255 / 16384))) = F_Fin (7 / 512) \<and>
   e4m3_to_f32 8 = F_Fin (1 / 64) \<and> \<bar>1 / 64 - 255 / 16384\<bar> < \<bar>7 / 512 - (255 / 16384 :: rat)\<bar>"
  by code_simp

end
