(* ===== verification/Autotune.thy ===== *)
theory Autotune
  imports Prelude Complex_Main
begin

text \<open>
  The autotuner (include/autotune_sh.hpp): successive halving and the grid search it is compared
  with. \<open>measure\<close> runs a benchmark, so it is a parameter that may depend on, and change, the state
  of the world \<open>'w\<close>; \<open>std::sort\<close> leaves the order of equal scores open and is a parameter too.
  \<open>double\<close> is idealised as \<open>real\<close>. The loop need not end, so it is a partial function whose value
  is \<open>None\<close> when it does not.
\<close>

section \<open>Definitions\<close>

record 'c sh_item =
  it_cfg :: 'c
  it_score :: real

record 'c sh_result =
  sh_best :: 'c
  sh_best_score :: real
  sh_total_evals :: int

record ('c, 'w) sh_state =
  st_alive :: "'c sh_item list"
  st_reps :: int
  st_evals :: int
  st_world :: 'w

type_synonym ('c, 'w) bench = "'c \<Rightarrow> int \<Rightarrow> 'w \<Rightarrow> real \<times> 'w"

text \<open>The conversions of a \<open>double\<close> to \<open>int\<close> and to \<open>size_t\<close>, undefined out of range.\<close>

definition double_to_int :: "real \<Rightarrow> int res" where
  "double_to_int x = int_val (if 0 \<le> x then \<lfloor>x\<rfloor> else \<lceil>x\<rceil>)"

definition double_to_size :: "real \<Rightarrow> nat res" where
  "double_to_size x = (if x \<le> - 1 \<or> 2 ^ 64 \<le> x then Inl Overflow_UB else Inr (nat \<lfloor>x\<rfloor>))"

primrec sh_measure :: "('c, 'w) bench \<Rightarrow> int \<Rightarrow> 'c sh_item list \<Rightarrow> int \<Rightarrow> 'w \<Rightarrow>
    ('c sh_item list \<times> int \<times> 'w) res" where
  "sh_measure meas reps [] evals w = Inr ([], evals, w)"
| "sh_measure meas reps (it # its) evals w = (case meas (it_cfg it) reps w of (s, w1) \<Rightarrow>
     rbind (int_val (evals + reps)) (\<lambda>ev1.
       rbind (sh_measure meas reps its ev1 w1) (\<lambda>(its', ev2, w2).
         Inr (it\<lparr>it_score := s\<rparr> # its', ev2, w2))))"

text \<open>The body of the loop; the flag says that it left the loop by \<open>break\<close>.\<close>

definition sh_round :: "('c sh_item list \<Rightarrow> 'c sh_item list) \<Rightarrow> ('c, 'w) bench \<Rightarrow> int \<Rightarrow> real \<Rightarrow>
    ('c, 'w) sh_state \<Rightarrow> (bool \<times> ('c, 'w) sh_state) res" where
  "sh_round sorter meas max_reps eta st =
     rbind (sh_measure meas (st_reps st) (st_alive st) (st_evals st) (st_world st)) (\<lambda>(alive, ev, w).
       rbind (double_to_size eta) (\<lambda>d.
         if d = 0 then Inl Div_zero
         else let sorted = sorter alive; keep = max 1 (length sorted div d); alive' = take keep sorted in
           rbind (double_to_int (real_of_int (st_reps st) * eta)) (\<lambda>r.
             let reps' = min max_reps r in
             Inr (reps' \<ge> max_reps \<and> length alive' = 1,
               \<lparr>st_alive = alive', st_reps = reps', st_evals = ev, st_world = w\<rparr>))))"

partial_function (option) sh_loop :: "('c sh_item list \<Rightarrow> 'c sh_item list) \<Rightarrow> ('c, 'w) bench \<Rightarrow> int \<Rightarrow> real \<Rightarrow>
    ('c, 'w) sh_state \<Rightarrow> ('c, 'w) sh_state res option" where
  "sh_loop sorter meas max_reps eta st =
     (if length (st_alive st) \<le> 1 then Some (Inr st)
      else case sh_round sorter meas max_reps eta st of
          Inl f \<Rightarrow> Some (Inl f)
        | Inr (stop, st') \<Rightarrow> if stop then Some (Inr st') else sh_loop sorter meas max_reps eta st')"

definition sh_finish :: "('c, 'w) bench \<Rightarrow> int \<Rightarrow> ('c, 'w) sh_state \<Rightarrow> ('c sh_result \<times> 'w) res" where
  "sh_finish meas max_reps st = rbind (vec_at (st_alive st) 0) (\<lambda>it.
     case meas (it_cfg it) max_reps (st_world st) of (s, w) \<Rightarrow>
       rbind (int_val (st_evals st + max_reps)) (\<lambda>ev.
         Inr (\<lparr>sh_best = it_cfg it, sh_best_score = s, sh_total_evals = ev\<rparr>, w)))"

definition successive_halving :: "('c sh_item list \<Rightarrow> 'c sh_item list) \<Rightarrow> ('c, 'w) bench \<Rightarrow> int \<Rightarrow> int \<Rightarrow> real \<Rightarrow>
    'c list \<Rightarrow> 'w \<Rightarrow> ('c sh_result \<times> 'w) res option" where
  "successive_halving sorter meas min_reps max_reps eta candidates w =
     (if candidates = [] then Some (Inl (Invalid_argument ''successive_halving: candidates is empty''))
      else map_option (\<lambda>r. rbind r (sh_finish meas max_reps))
        (sh_loop sorter meas max_reps eta
          \<lparr>st_alive = map (\<lambda>c. \<lparr>it_cfg = c, it_score = 0\<rparr>) candidates, st_reps = min_reps,
           st_evals = 0, st_world = w\<rparr>))"

text \<open>Grid search; \<open>dflt\<close> is the value-initialised configuration.\<close>

primrec grid_loop :: "('c, 'w) bench \<Rightarrow> int \<Rightarrow> 'c list \<Rightarrow> 'c sh_result \<Rightarrow> 'w \<Rightarrow> ('c sh_result \<times> 'w) res" where
  "grid_loop meas reps [] r w = Inr (r, w)"
| "grid_loop meas reps (c # cs) r w = (case meas c reps w of (s, w1) \<Rightarrow>
     rbind (int_val (sh_total_evals r + reps)) (\<lambda>ev.
       let r1 = r\<lparr>sh_total_evals := ev\<rparr>;
           r2 = (if s < sh_best_score r1 then r1\<lparr>sh_best := c, sh_best_score := s\<rparr> else r1) in
       grid_loop meas reps cs r2 w1))"

definition grid_search :: "'c \<Rightarrow> ('c, 'w) bench \<Rightarrow> int \<Rightarrow> 'c list \<Rightarrow> 'w \<Rightarrow> ('c sh_result \<times> 'w) res" where
  "grid_search dflt meas reps candidates w =
     grid_loop meas reps candidates \<lparr>sh_best = dflt, sh_best_score = 10 ^ 18, sh_total_evals = 0\<rparr> w"

section \<open>Rounds\<close>

text \<open>What \<open>std::sort\<close> by score promises.\<close>

definition sorts_items :: "('c sh_item list \<Rightarrow> 'c sh_item list) \<Rightarrow> bool" where
  "sorts_items sorter \<longleftrightarrow> (\<forall>xs. mset (sorter xs) = mset xs \<and>
     sorted_wrt (\<lambda>a b. it_score a \<le> it_score b) (sorter xs))"

lemma sh_measure_ok:
  assumes "0 \<le> evals" and "0 \<le> reps" and "evals + int (length its) * reps < 2 ^ 31"
  shows "\<exists>its' w'. sh_measure meas reps its evals w = Inr (its', evals + int (length its) * reps, w') \<and>
    map it_cfg its' = map it_cfg its \<and>
    (\<forall>f. (\<forall>c n w. fst (meas c n w) = f c) \<longrightarrow> (\<forall>it\<in>set its'. it_score it = f (it_cfg it)))"
  using assms(1,3)
proof (induction its arbitrary: evals w)
  case (Cons it its)
  obtain s w1 where m: "meas (it_cfg it) reps w = (s, w1)" by force
  have "0 \<le> int (length its) * reps" using assms(2) by simp
  moreover have "int (length (it # its)) * reps = reps + int (length its) * reps" by (simp add: algebra_simps)
  ultimately have fits: "0 \<le> evals + reps" "evals + reps < 2 ^ 31" "evals + reps + int (length its) * reps < 2 ^ 31"
    using Cons.prems assms(2) by linarith+
  from Cons.IH [OF fits(1,3), of w1] obtain its' w' where
    IH: "sh_measure meas reps its (evals + reps) w1 = Inr (its', evals + reps + int (length its) * reps, w')"
    "map it_cfg its' = map it_cfg its"
    "\<forall>f. (\<forall>c n w. fst (meas c n w) = f c) \<longrightarrow> (\<forall>it\<in>set its'. it_score it = f (it_cfg it))" by blast
  have "s = f (it_cfg it)" if "\<forall>c n w. fst (meas c n w) = f c" for f
    using that m by (metis fst_conv)
  with m IH fits show ?case by (auto simp: algebra_simps)
qed simp

lemma double_to_size_ge2:
  assumes "2 \<le> eta" and "eta < 2 ^ 64"
  shows "\<exists>d. double_to_size eta = Inr d \<and> 2 \<le> d"
  using assms by (simp add: double_to_size_def le_nat_iff le_floor_iff)

lemma reps_grow:
  assumes "2 \<le> eta" and "real_of_int M * eta < 2 ^ 31" and "0 < r" "r \<le> M"
  shows "double_to_int (real_of_int r * eta) = Inr \<lfloor>real_of_int r * eta\<rfloor>" and "1 \<le> \<lfloor>real_of_int r * eta\<rfloor>"
proof -
  have lo: "1 * 1 \<le> real_of_int r * eta" using assms(1,3) by (intro mult_mono) simp_all
  have "real_of_int r * eta \<le> real_of_int M * eta" using assms(1,4) by (intro mult_right_mono) simp_all
  then have "real_of_int r * eta < 2 ^ 31" using assms(2) by simp
  then have "\<lfloor>real_of_int r * eta\<rfloor> < 2 ^ 31" by (simp add: floor_less_iff)
  with lo show "double_to_int (real_of_int r * eta) = Inr \<lfloor>real_of_int r * eta\<rfloor>"
    "1 \<le> \<lfloor>real_of_int r * eta\<rfloor>" by (simp_all add: double_to_int_def)
qed

lemma best_survives:
  assumes "sorted_wrt (\<lambda>a b. it_score a \<le> it_score b) srt" and "srt \<noteq> []" and "1 \<le> keep"
    and "\<forall>it\<in>set srt. it_score it = f (it_cfg it)"
  shows "\<exists>b\<in>set (take keep srt). \<forall>c\<in>it_cfg ` set srt. f (it_cfg b) \<le> f c"
proof -
  obtain b rest where b: "srt = b # rest" using assms(2) by (cases srt) auto
  have "\<forall>it\<in>set srt. it_score b \<le> it_score it" using assms(1) b by auto
  then have "\<forall>c\<in>it_cfg ` set srt. f (it_cfg b) \<le> f c" using assms(4) b by auto
  moreover have "b \<in> set (take keep srt)" using b assms(3) by (cases keep) auto
  ultimately show ?thesis by blast
qed

lemma sh_round_ok:
  fixes st :: "('c, 'w) sh_state"
  assumes "sorts_items sorter" and "2 \<le> eta" and "real_of_int M * eta < 2 ^ 31"
    and "0 < st_reps st" "st_reps st \<le> M" and "0 \<le> st_evals st" "2 \<le> length (st_alive st)"
    and "st_evals st + int (length (st_alive st)) * M < 2 ^ 31"
  shows "\<exists>stop st'. sh_round sorter meas M eta st = Inr (stop, st') \<and> (stop \<longrightarrow> length (st_alive st') = 1) \<and>
    st_alive st' \<noteq> [] \<and> 2 * length (st_alive st') \<le> length (st_alive st) \<and>
    it_cfg ` set (st_alive st') \<subseteq> it_cfg ` set (st_alive st) \<and>
    0 < st_reps st' \<and> st_reps st' \<le> M \<and> st_evals st \<le> st_evals st' \<and>
    st_evals st' \<le> st_evals st + int (length (st_alive st)) * M \<and>
    (\<forall>f. (\<forall>c n w. fst (meas c n w) = f c) \<longrightarrow>
      (\<exists>b\<in>set (st_alive st'). \<forall>it\<in>set (st_alive st). f (it_cfg b) \<le> f (it_cfg it)))"
proof -
  let ?n = "length (st_alive st)"
  have le: "int ?n * st_reps st \<le> int ?n * M" using assms(5) by (intro mult_left_mono) simp_all
  with assms(4,6,8) sh_measure_ok [of "st_evals st" "st_reps st" "st_alive st" meas "st_world st"]
  obtain its w where m: "sh_measure meas (st_reps st) (st_alive st) (st_evals st) (st_world st) =
      Inr (its, st_evals st + int ?n * st_reps st, w)" "map it_cfg its = map it_cfg (st_alive st)"
    "\<forall>f. (\<forall>c n w. fst (meas c n w) = f c) \<longrightarrow> (\<forall>it\<in>set its. it_score it = f (it_cfg it))"
    by (auto simp: less_imp_le)
  have M: "0 < real_of_int M" using assms(4,5) by simp
  have "1 * eta \<le> real_of_int M * eta" using assms(2,4,5) by (intro mult_right_mono) simp_all
  then have "eta < 2 ^ 64" using assms(3) by simp
  with double_to_size_ge2 assms(2) obtain d where d: "double_to_size eta = Inr d" "2 \<le> d" by blast
  define srt where "srt = sorter its"
  have srt: "mset srt = mset its" "sorted_wrt (\<lambda>a b. it_score a \<le> it_score b) srt"
    using assms(1) by (simp_all add: sorts_items_def srt_def)
  have n: "length srt = ?n" "length its = ?n" using srt(1) m(2) by (metis size_mset length_map)+
  define keep where "keep = max 1 (length srt div d)"
  have "length srt div d \<le> ?n div 2" using d(2) n by (simp add: div_le_mono2)
  then have keep: "1 \<le> keep" "2 * keep \<le> ?n" using assms(7) by (auto simp: keep_def)
  note r = reps_grow [OF assms(2-5)]
  let ?reps = "min M \<lfloor>real_of_int (st_reps st) * eta\<rfloor>"
  let ?st = "\<lparr>st_alive = take keep srt, st_reps = ?reps, st_evals = st_evals st + int ?n * st_reps st, st_world = w\<rparr>"
  have round: "sh_round sorter meas M eta st = Inr (?reps \<ge> M \<and> length (take keep srt) = 1, ?st)"
    using m(1) d r(1) by (simp add: sh_round_def Let_def srt_def keep_def)
  have cfgs: "it_cfg ` set srt = it_cfg ` set (st_alive st)"
    using srt(1) m(2) by (metis set_mset_mset set_map)
  have best: "\<exists>b\<in>set (take keep srt). \<forall>it\<in>set (st_alive st). f (it_cfg b) \<le> f (it_cfg it)"
    if f: "\<forall>c n w. fst (meas c n w) = f c" for f
  proof -
    have "\<forall>it\<in>set srt. it_score it = f (it_cfg it)"
      using m(3) f srt(1) by (metis set_mset_mset)
    moreover have "srt \<noteq> []" using n(1) assms(7) by auto
    ultimately show ?thesis using best_survives [OF srt(2) _ keep(1)] cfgs by auto
  qed
  have sub: "it_cfg ` set (take keep srt) \<subseteq> it_cfg ` set (st_alive st)"
    using cfgs set_take_subset [of keep srt] by blast
  show ?thesis
    by (intro exI [of _ "?reps \<ge> M \<and> length (take keep srt) = 1"] exI [of _ ?st] conjI)
      (use round best sub keep n r(2) assms(4,5) le in auto)
qed


section \<open>The whole loop\<close>

text \<open>What a round keeps: the configurations shrink, the evaluations are counted, and when the score of a
  configuration does not vary, one of the best is still alive.  The loop adds that one is left.\<close>

definition sh_less :: "('c, 'w) bench \<Rightarrow> int \<Rightarrow> ('c, 'w) sh_state \<Rightarrow> ('c, 'w) sh_state \<Rightarrow> bool" where
  "sh_less meas M st st' \<longleftrightarrow> it_cfg ` set (st_alive st') \<subseteq> it_cfg ` set (st_alive st) \<and>
    st_evals st \<le> st_evals st' \<and> st_evals st' \<le> st_evals st + int (length (st_alive st)) * M \<and>
    (\<forall>f. (\<forall>c n w. fst (meas c n w) = f c) \<longrightarrow>
      (\<exists>b\<in>set (st_alive st'). \<forall>it\<in>set (st_alive st). f (it_cfg b) \<le> f (it_cfg it)))"

definition sh_found :: "('c, 'w) bench \<Rightarrow> int \<Rightarrow> ('c, 'w) sh_state \<Rightarrow>
    ('c, 'w) sh_state res option \<Rightarrow> bool" where
  "sh_found meas M st r \<longleftrightarrow> (\<exists>st'. r = Some (Inr st') \<and> length (st_alive st') = 1 \<and>
    it_cfg ` set (st_alive st') \<subseteq> it_cfg ` set (st_alive st) \<and>
    0 \<le> st_evals st' \<and> st_evals st' \<le> st_evals st + 2 * (int (length (st_alive st)) * M) \<and>
    (\<forall>f. (\<forall>c n w. fst (meas c n w) = f c) \<longrightarrow>
      (\<forall>b\<in>set (st_alive st'). \<forall>it\<in>set (st_alive st). f (it_cfg b) \<le> f (it_cfg it))))"

lemma sh_found_stop:
  assumes "length (st_alive st1) = 1" and "sh_loop sorter meas M eta st = Some (Inr st1)"
    and "sh_less meas M st st1" and "0 \<le> st_evals st" and "0 \<le> M"
  shows "sh_found meas M st (sh_loop sorter meas M eta st)"
proof -
  obtain b where b: "st_alive st1 = [b]" using assms(1) by (cases "st_alive st1") auto
  have "0 \<le> int (length (st_alive st)) * M" using assms(5) by simp
  then have "st_evals st1 \<le> st_evals st + 2 * (int (length (st_alive st)) * M)"
    using assms(3) unfolding sh_less_def by linarith
  with assms b show ?thesis by (auto simp: sh_found_def sh_less_def)
qed

lemma sh_found_next:
  assumes "sh_less meas M st st1" and "sh_loop sorter meas M eta st = sh_loop sorter meas M eta st1"
    and "2 * (int (length (st_alive st1)) * M) \<le> int (length (st_alive st)) * M"
    and "sh_found meas M st1 (sh_loop sorter meas M eta st1)"
  shows "sh_found meas M st (sh_loop sorter meas M eta st)"
proof -
  from assms(4) obtain st' where IH: "sh_loop sorter meas M eta st1 = Some (Inr st')"
    "length (st_alive st') = 1" "it_cfg ` set (st_alive st') \<subseteq> it_cfg ` set (st_alive st1)" "0 \<le> st_evals st'"
    "st_evals st' \<le> st_evals st1 + 2 * (int (length (st_alive st1)) * M)"
    "\<forall>f. (\<forall>c n w. fst (meas c n w) = f c) \<longrightarrow>
      (\<forall>b\<in>set (st_alive st'). \<forall>it\<in>set (st_alive st1). f (it_cfg b) \<le> f (it_cfg it))"
    unfolding sh_found_def by blast
  have sub: "it_cfg ` set (st_alive st') \<subseteq> it_cfg ` set (st_alive st)"
    using IH(3) assms(1) unfolding sh_less_def by (meson order_trans)
  have ev: "st_evals st' \<le> st_evals st + 2 * (int (length (st_alive st)) * M)"
    using IH(5) assms(1,3) unfolding sh_less_def by linarith
  have best: "\<forall>b\<in>set (st_alive st'). \<forall>it\<in>set (st_alive st). f (it_cfg b) \<le> f (it_cfg it)"
    if "\<forall>c n w. fst (meas c n w) = f c" for f
    using assms(1) IH(6) that unfolding sh_less_def by (meson order_trans)
  show ?thesis
    unfolding sh_found_def
    by (intro exI [of _ st'] conjI) (use assms(2) IH(1,2,4) ev best sub in auto)
qed

lemma sh_loop_found:
  fixes st :: "('c, 'w) sh_state"
  assumes "sorts_items sorter" and "2 \<le> eta" and "real_of_int M * eta < 2 ^ 31"
    and "0 < st_reps st" "st_reps st \<le> M" and "0 \<le> st_evals st" "st_alive st \<noteq> []"
    and "st_evals st + 2 * (int (length (st_alive st)) * M) < 2 ^ 31"
  shows "sh_found meas M st (sh_loop sorter meas M eta st)"
  using assms(4-)
proof (induction "length (st_alive st)" arbitrary: st rule: less_induct)
  case less
  have M: "0 \<le> M" using less.prems(1,2) by simp
  then have nM: "0 \<le> int (length (st_alive st)) * M" by simp
  show ?case
  proof (cases "length (st_alive st) \<le> 1")
    case True
    then have one: "length (st_alive st) = 1" using less.prems(4) by (cases "st_alive st") auto
    then obtain b where "st_alive st = [b]" by (cases "st_alive st") auto
    then have "sh_less meas M st st" using nM by (simp add: sh_less_def)
    then show ?thesis
      using sh_found_stop [OF one, of sorter meas M eta st] True less.prems(3) M by (simp add: sh_loop.simps)
  next
    case False
    have room: "st_evals st + int (length (st_alive st)) * M < 2 ^ 31" using less.prems(5) nM by linarith
    from False sh_round_ok [OF assms(1-3) less.prems(1-3) _ room, of meas] obtain stop st1 where
      r: "sh_round sorter meas M eta st = Inr (stop, st1)" "stop \<longrightarrow> length (st_alive st1) = 1"
      "st_alive st1 \<noteq> []" "2 * length (st_alive st1) \<le> length (st_alive st)" "sh_less meas M st st1"
      "0 < st_reps st1" "st_reps st1 \<le> M" unfolding sh_less_def by auto
    have "int (2 * length (st_alive st1)) * M \<le> int (length (st_alive st)) * M"
      using r(4) M by (intro mult_right_mono) simp_all
    then have half: "2 * (int (length (st_alive st1)) * M) \<le> int (length (st_alive st)) * M" by simp
    have loop: "sh_loop sorter meas M eta st = (if stop then Some (Inr st1) else sh_loop sorter meas M eta st1)"
      using False r(1) by (subst sh_loop.simps) simp
    show ?thesis
    proof (cases stop)
      case True
      then show ?thesis using r(2,5) loop less.prems(3) M by (intro sh_found_stop [of st1]) auto
    next
      case False
      have less1: "length (st_alive st1) < length (st_alive st)" using r(3,4) by (cases "st_alive st1") auto
      have evals: "0 \<le> st_evals st1" "st_evals st1 + 2 * (int (length (st_alive st1)) * M) < 2 ^ 31"
        using r(5) less.prems(3,5) half unfolding sh_less_def by linarith+
      from less.hyps [OF less1 r(6,7) evals(1) r(3) evals(2)] loop False half r(5)
      show ?thesis by (intro sh_found_next [of meas M st st1]) auto
    qed
  qed
qed

lemmas sh_loop_ok = sh_loop_found [unfolded sh_found_def]

lemma grid_loop_ok:
  assumes "\<forall>c n w. fst (meas c n w) = f c" and "0 \<le> reps" and "0 \<le> sh_total_evals r"
    and "sh_total_evals r + int (length cs) * reps < 2 ^ 31"
  shows "\<exists>r' w'. grid_loop meas reps cs r w = Inr (r', w') \<and>
    sh_best_score r' = Min (insert (sh_best_score r) (f ` set cs))"
  using assms(3,4)
proof (induction cs arbitrary: r w)
  case (Cons c cs)
  obtain s w1 where m: "meas c reps w = (s, w1)" by force
  then have s: "s = f c" using assms(1) by (metis fst_conv)
  have "0 \<le> int (length cs) * reps" using assms(2) by simp
  moreover have "int (length (c # cs)) * reps = reps + int (length cs) * reps" by (simp add: algebra_simps)
  ultimately have fits: "0 \<le> sh_total_evals r + reps" "sh_total_evals r + reps < 2 ^ 31"
    "sh_total_evals r + reps + int (length cs) * reps < 2 ^ 31"
    using Cons.prems assms(2) by linarith+
  define r1 where "r1 = r\<lparr>sh_total_evals := sh_total_evals r + reps\<rparr>"
  define r2 where "r2 = (if s < sh_best_score r1 then r1\<lparr>sh_best := c, sh_best_score := s\<rparr> else r1)"
  have r2: "sh_total_evals r2 = sh_total_evals r + reps" "sh_best_score r2 = min s (sh_best_score r)"
    by (auto simp: r1_def r2_def)
  have step: "grid_loop meas reps (c # cs) r w = grid_loop meas reps cs r2 w1"
    using m fits by (simp add: r1_def r2_def Let_def)
  from Cons.IH [of r2 w1] fits r2 step s show ?case
    by (cases "cs = []") (auto simp: insert_commute Min_insert2 min.assoc min.commute)
qed simp


section \<open>Properties\<close>

text \<open>
  C33: with a reduction factor of at least two the autotuner returns, whatever the measurements. It
  returns one of the candidates after at most \<open>(2 n + 1) * max_reps\<close> repetitions; and when the
  measured time of a configuration does not depend on the repetitions, the result has the least
  time of all candidates, the same that grid search reports. (The bounds keep \<open>total_evals\<close> and
  the next repetition count within an \<open>int\<close>.)
\<close>

theorem sh_finds_best:
  fixes meas :: "('c, 'w) bench"
  assumes "\<forall>xs. mset (sorter xs) = mset xs \<and> sorted_wrt (\<lambda>a b. it_score a \<le> it_score b) (sorter xs)"
    and "candidates \<noteq> []" and "1 \<le> min_reps" "min_reps \<le> max_reps" and "2 \<le> eta"
    and "real_of_int max_reps * eta < 2 ^ 31"
    and "(2 * int (length candidates) + 1) * max_reps < 2 ^ 31"
  shows "\<exists>r w'. successive_halving sorter meas min_reps max_reps eta candidates w = Some (Inr (r, w')) \<and>
    sh_best r \<in> set candidates \<and> sh_total_evals r \<le> (2 * int (length candidates) + 1) * max_reps \<and>
    (\<forall>f. (\<forall>c n w. fst (meas c n w) = f c) \<and> (\<forall>c\<in>set candidates. f c < 10 ^ 18) \<longrightarrow>
      sh_best_score r = f (sh_best r) \<and> f (sh_best r) = Min (f ` set candidates) \<and>
      (\<exists>g w''. grid_search dflt meas max_reps candidates w = Inr (g, w'') \<and> sh_best_score g = sh_best_score r))"
proof -
  let ?n = "int (length candidates)"
  let ?st = "\<lparr>st_alive = map (\<lambda>c. \<lparr>it_cfg = c, it_score = 0\<rparr>) candidates, st_reps = min_reps,
    st_evals = 0, st_world = w\<rparr>"
  have M: "1 \<le> max_reps" using assms(3,4) by simp
  have nM: "0 \<le> ?n * max_reps" "(2 * ?n + 1) * max_reps = 2 * (?n * max_reps) + max_reps"
    using M by (simp_all add: algebra_simps)
  have room: "2 * (?n * max_reps) + max_reps < 2 ^ 31" "?n * max_reps < 2 ^ 31"
    using assms(7) nM M by linarith+
  have srt: "sorts_items sorter" using assms(1) by (simp add: sorts_items_def)
  have room': "st_evals ?st + 2 * (int (length (st_alive ?st)) * max_reps) < 2 ^ 31"
    using room(1) M by (simp only: sh_state.simps length_map)
  from sh_loop_ok [OF srt assms(5,6) _ _ _ _ room', of meas] assms(2-4) obtain st where
    l: "sh_loop sorter meas max_reps eta ?st = Some (Inr st)" "length (st_alive st) = 1"
    "it_cfg ` set (st_alive st) \<subseteq> set candidates" "0 \<le> st_evals st" "st_evals st \<le> 2 * (?n * max_reps)"
    "\<forall>f. (\<forall>c n w. fst (meas c n w) = f c) \<longrightarrow>
      (\<forall>b\<in>set (st_alive st). \<forall>c\<in>set candidates. f (it_cfg b) \<le> f c)"
    by (auto simp: image_image)
  obtain b where b: "st_alive st = [b]" using l(2) by (cases "st_alive st") auto
  obtain s w' where m: "meas (it_cfg b) max_reps (st_world st) = (s, w')" by force
  have ev: "0 \<le> st_evals st + max_reps" "st_evals st + max_reps < 2 ^ 31"
    "st_evals st + max_reps \<le> (2 * ?n + 1) * max_reps"
    using l(4,5) room(1) nM(2) M by linarith+
  define r where "r = \<lparr>sh_best = it_cfg b, sh_best_score = s, sh_total_evals = st_evals st + max_reps\<rparr>"
  have res: "successive_halving sorter meas min_reps max_reps eta candidates w = Some (Inr (r, w'))"
    using assms(2) l(1) b m ev by (simp add: successive_halving_def sh_finish_def vec_at_def r_def)
  have best: "sh_best_score r = f (sh_best r) \<and> f (sh_best r) = Min (f ` set candidates) \<and>
      (\<exists>g w''. grid_search dflt meas max_reps candidates w = Inr (g, w'') \<and> sh_best_score g = sh_best_score r)"
    if f: "\<forall>c n w. fst (meas c n w) = f c" and small: "\<forall>c\<in>set candidates. f c < 10 ^ 18" for f
  proof -
    have s: "s = f (it_cfg b)" using f m by (metis fst_conv)
    have min: "f (it_cfg b) = Min (f ` set candidates)"
      using l(3,6) f b by (intro Min_eqI [symmetric]) auto
    from grid_loop_ok [OF f, of max_reps "\<lparr>sh_best = dflt, sh_best_score = 10 ^ 18, sh_total_evals = 0\<rparr>" candidates w]
    obtain g w'' where g: "grid_search dflt meas max_reps candidates w = Inr (g, w'')"
      "sh_best_score g = Min (insert (10 ^ 18) (f ` set candidates))"
      using M room(2) by (auto simp: grid_search_def)
    have "Min (insert (10 ^ 18) (f ` set candidates)) = min (10 ^ 18) (Min (f ` set candidates))"
      using assms(2) by (intro Min_insert) auto
    moreover have "Min (f ` set candidates) < 10 ^ 18" using small assms(2) by (subst Min_less_iff) (auto simp: neq_Nil_conv)
    ultimately show ?thesis using g s min by (simp add: r_def)
  qed
  have "sh_best r \<in> set candidates" "sh_total_evals r \<le> (2 * ?n + 1) * max_reps"
    using l(3) b ev(3) by (simp_all add: r_def)
  with res best show ?thesis by blast
qed

definition score_sort :: "'c sh_item list \<Rightarrow> 'c sh_item list" where
  "score_sort = sort_key it_score"

definition flat_bench :: "(int, nat) bench" where
  "flat_bench c n w = (real_of_int c, w + 1)"

theorem sh_finds_best_witness:
  "\<exists>r w'. successive_halving score_sort flat_bench 1 4 2 [7, 3, 5] 0 = Some (Inr (r, w')) \<and>
    sh_best_score r = 3 \<and> sh_total_evals r \<le> 28"
proof -
  have srt: "\<forall>xs. mset (score_sort xs) = mset xs \<and>
    sorted_wrt (\<lambda>a b. it_score a \<le> it_score b) (score_sort xs :: int sh_item list)"
  proof
    fix xs :: "int sh_item list"
    have "sorted (map it_score (score_sort xs))" by (simp add: score_sort_def)
    then show "mset (score_sort xs) = mset xs \<and> sorted_wrt (\<lambda>a b. it_score a \<le> it_score b) (score_sort xs)"
      by (simp add: score_sort_def sorted_wrt_map)
  qed
  have "\<exists>r w'. successive_halving score_sort flat_bench 1 4 2 [7, 3, 5] 0 = Some (Inr (r, w')) \<and>
    sh_best r \<in> set [7, 3, 5] \<and> sh_total_evals r \<le> (2 * int (length [7, 3, 5 :: int]) + 1) * 4 \<and>
    (\<forall>f. (\<forall>c n w. fst (flat_bench c n w) = f c) \<and> (\<forall>c\<in>set [7, 3, 5]. f c < 10 ^ 18) \<longrightarrow>
      sh_best_score r = f (sh_best r) \<and> f (sh_best r) = Min (f ` set [7, 3, 5]) \<and>
      (\<exists>g w''. grid_search 0 flat_bench 4 [7, 3, 5] 0 = Inr (g, w'') \<and> sh_best_score g = sh_best_score r))"
    by (rule sh_finds_best [OF srt]) simp_all
  then obtain r w' where r: "successive_halving score_sort flat_bench 1 4 2 [7, 3, 5] 0 = Some (Inr (r, w'))"
    "sh_total_evals r \<le> (2 * int (length [7, 3, 5 :: int]) + 1) * 4"
    "(\<forall>c n w. fst (flat_bench c n w) = real_of_int c) \<and> (\<forall>c\<in>set [7, 3, 5]. real_of_int c < 10 ^ 18) \<longrightarrow>
      sh_best_score r = real_of_int (sh_best r) \<and> real_of_int (sh_best r) = Min (real_of_int ` set [7, 3, 5])"
    by blast
  then have "sh_best_score r = 3" by (simp add: flat_bench_def)
  with r show ?thesis by (intro exI [of _ r] exI [of _ w']) simp
qed

lemma sh_measure_length:
  "sh_measure meas reps its ev w = Inr (its', rest) \<Longrightarrow> length its' = length its"
  by (induction its arbitrary: its' ev rest w) (auto split: prod.splits)

lemma sh_round_keeps_all:
  assumes "1 \<le> eta" "eta < 2" and "\<forall>xs. length (sorter xs) = length xs"
    and "sh_round sorter meas M eta st = Inr (stop, st')" and "2 \<le> length (st_alive st)"
  shows "2 \<le> length (st_alive st') \<and> \<not> stop"
proof -
  have "\<lfloor>eta\<rfloor> = 1" using assms(1,2) by (simp add: floor_eq_iff)
  then have "double_to_size eta = Inr 1" using assms(1,2) by (simp add: double_to_size_def)
  with assms(3-5) show ?thesis
    by (auto simp: sh_round_def Let_def dest!: sh_measure_length)
qed

lemma sh_loop_faults:
  assumes "sh_loop sorter meas M eta st = Some y"
  shows "1 \<le> eta \<longrightarrow> eta < 2 \<longrightarrow> (\<forall>xs. length (sorter xs) = length xs) \<longrightarrow> 2 \<le> length (st_alive st) \<longrightarrow> isl y"
proof (rule sh_loop.raw_induct [where P = "\<lambda>sorter meas M eta st y. 1 \<le> eta \<longrightarrow> eta < 2 \<longrightarrow>
    (\<forall>xs. length (sorter xs) = length xs) \<longrightarrow> 2 \<le> length (st_alive st) \<longrightarrow> isl y", OF _ assms], intro impI)
  fix loop sorter meas M eta st y
  assume IH: "\<And>sorter meas M eta st y. loop sorter meas M eta st = Some y \<Longrightarrow> 1 \<le> eta \<longrightarrow> eta < 2 \<longrightarrow>
      (\<forall>xs. length (sorter xs) = length xs) \<longrightarrow> 2 \<le> length (st_alive st) \<longrightarrow> isl y"
    and body: "(if length (st_alive st) \<le> 1 then Some (Inr st)
      else case sh_round sorter meas M eta st of Inl f \<Rightarrow> Some (Inl f)
        | Inr (stop, st') \<Rightarrow> if stop then Some (Inr st') else loop sorter meas M eta st') = Some y"
    and hyps: "1 \<le> eta" "eta < 2" "\<forall>xs. length (sorter xs) = length xs" "2 \<le> length (st_alive st)"
  show "isl y"
  proof (cases "sh_round sorter meas M eta st")
    case (Inl f)
    with body hyps(4) show ?thesis by (auto split: if_splits)
  next
    case (Inr p)
    obtain stop st' where p: "p = (stop, st')" by force
    from sh_round_keeps_all [OF hyps(1-3) _ hyps(4)] Inr p have st': "2 \<le> length (st_alive st')" "\<not> stop" by auto
    with body Inr p hyps(4) have "loop sorter meas M eta st' = Some y" by simp
    with IH hyps(1-3) st'(1) show ?thesis by blast
  qed
qed

text \<open>
  With a factor between one and two nothing is ever dropped (\<open>alive.size() / (size_t)eta\<close> divides
  by one): the search over two or more candidates never returns a result.
\<close>

theorem sh_small_eta_never_returns:
  assumes "1 \<le> eta" "eta < 2" and "2 \<le> length candidates" and "\<forall>xs. length (sorter xs) = length xs"
  shows "successive_halving sorter meas min_reps max_reps eta candidates w \<noteq> Some (Inr rw)"
proof
  assume "successive_halving sorter meas min_reps max_reps eta candidates w = Some (Inr rw)"
  with assms(3) obtain st' where "sh_loop sorter meas max_reps eta
    \<lparr>st_alive = map (\<lambda>c. \<lparr>it_cfg = c, it_score = 0\<rparr>) candidates, st_reps = min_reps, st_evals = 0,
     st_world = w\<rparr> = Some (Inr st')"
    by (auto simp: successive_halving_def split: if_splits)
  from sh_loop_faults [OF this] assms show False by simp
qed

theorem sh_small_eta_never_returns_witness:
  "\<nexists>rw. successive_halving score_sort flat_bench 1 4 (3 / 2) [7, 3] 0 = Some (Inr rw)"
  unfolding not_ex by (rule allI, rule sh_small_eta_never_returns) (simp_all add: score_sort_def)

end
