(* ===== verification/Gpu_Exec.thy ===== *)
theory Gpu_Exec
  imports Prelude
begin

text \<open>
  How a kernel runs: the threads of a block execute a phase between two barriers in any order,
  the blocks of a grid in any order. A phase in which every thread writes its own elements of a
  shared or global array is a sequence of checked writes; \<open>overwrite\<close> says what it leaves, and
  the rules below show that the order of threads and blocks does not matter.
\<close>

section \<open>Arithmetic and memory\<close>

text \<open>
  The arithmetic of a kernel: elements of type \<open>'h\<close> (\<open>float\<close> or a 16-bit format) and accumulators of
  type \<open>'f\<close>. Nothing is assumed of it but what a theorem names.
\<close>

record ('h, 'f) fops =
  h_zero :: 'h
  f_zero :: 'f
  f_add :: "'f \<Rightarrow> 'f \<Rightarrow> 'f"
  f_mul :: "'h \<Rightarrow> 'h \<Rightarrow> 'f"

definition mac :: "('h, 'f) fops \<Rightarrow> 'f \<Rightarrow> 'h \<Rightarrow> 'h \<Rightarrow> 'f" where
  "mac ops x a b = f_add ops x (f_mul ops a b)"

text \<open>Reading and writing a device buffer at an index computed in \<open>int\<close>.\<close>

definition buf_at :: "'f list \<Rightarrow> nat \<Rightarrow> 'f res" where
  "buf_at xs i = rbind (int_val (int i)) (vec_at xs)"

definition buf_set :: "nat \<Rightarrow> 'f \<Rightarrow> 'f list \<Rightarrow> 'f list res" where
  "buf_set i v xs = rbind (int_val (int i)) (\<lambda>j. if j < int (length xs) then Inr (xs[i := v]) else Inl Index_UB)"

lemma buf_at_ok [simp]: "i < length xs \<Longrightarrow> length xs < 2 ^ 31 \<Longrightarrow> buf_at xs i = Inr (xs ! i)"
  by (simp add: buf_at_def vec_at_def)

lemma buf_set_ok [simp]: "i < length xs \<Longrightarrow> length xs < 2 ^ 31 \<Longrightarrow> buf_set i v xs = Inr (xs[i := v])"
  by (simp add: buf_set_def)

section \<open>Strided loops\<close>

text \<open>The values of \<open>i\<close> in \<open>for (i = first; i < n; i += step)\<close>.\<close>

function strided :: "nat \<Rightarrow> nat \<Rightarrow> nat \<Rightarrow> nat list" where
  "strided step n i = (if i < n \<and> 0 < step then i # strided step n (i + step) else [])"
  by pat_completeness auto
termination by (relation "measure (\<lambda>(step, n, i). n - i)") auto

declare strided.simps [simp del]

lemma set_strided: "0 < s \<Longrightarrow> set (strided s n i) = {j. i \<le> j \<and> j < n \<and> s dvd (j - i)}"
proof (induction s n i rule: strided.induct)
  case (1 s n i)
  show ?case
  proof (cases "i < n")
    case True
    have "{j. i \<le> j \<and> j < n \<and> s dvd (j - i)} = insert i {j. i + s \<le> j \<and> j < n \<and> s dvd (j - (i + s))}"
    proof (intro set_eqI iffI)
      fix j assume j: "j \<in> {j. i \<le> j \<and> j < n \<and> s dvd (j - i)}"
      show "j \<in> insert i {j. i + s \<le> j \<and> j < n \<and> s dvd (j - (i + s))}"
      proof (cases "j = i")
        case False
        with j have "0 < j - i" "s dvd (j - i)" by auto
        then have "s \<le> j - i" by (simp add: dvd_imp_le)
        moreover have "s dvd (j - i - s)" by (rule dvd_diff_nat) (use j in auto)
        ultimately show ?thesis using j by (auto simp: diff_diff_left)
      qed simp
    next
      fix j assume "j \<in> insert i {j. i + s \<le> j \<and> j < n \<and> s dvd (j - (i + s))}"
      then consider "j = i" | "i + s \<le> j" "j < n" "s dvd (j - (i + s))" by blast
      then show "j \<in> {j. i \<le> j \<and> j < n \<and> s dvd (j - i)}"
      proof cases
        case 2
        then have "j - i = (j - (i + s)) + s" by simp
        then have "s dvd (j - i)" using 2(3) by simp
        with 2 show ?thesis by simp
      qed (use True in simp)
    qed
    with 1 True show ?thesis by (simp add: strided.simps [of s n i])
  next
    case False
    then show ?thesis by (auto simp: strided.simps [of s n i])
  qed
qed

lemma strided_cover: "0 < T \<Longrightarrow> {0..<T} \<subseteq> set ts \<Longrightarrow> {0..<n} \<subseteq> (\<Union>t\<in>set ts. set (strided T n t))"
proof
  fix j assume "0 < T" "{0..<T} \<subseteq> set ts" "j \<in> {0..<n}"
  then have "j mod T \<in> set ts" "j \<in> set (strided T n (j mod T))"
    by (auto simp: set_strided minus_mod_eq_mult_div)
  then show "j \<in> (\<Union>t\<in>set ts. set (strided T n t))" by blast
qed

section \<open>Phases of independent writes\<close>

text \<open>The array \<open>xs\<close> with the positions in \<open>S\<close> holding the values of \<open>g\<close>.\<close>

definition overwrite :: "(nat \<Rightarrow> 'f) \<Rightarrow> nat set \<Rightarrow> 'f list \<Rightarrow> 'f list" where
  "overwrite g S xs = map (\<lambda>i. if i \<in> S then g i else xs ! i) [0..<length xs]"

lemma overwrite_length [simp]: "length (overwrite g S xs) = length xs"
  by (simp add: overwrite_def)

lemma overwrite_nth: "i < length xs \<Longrightarrow> overwrite g S xs ! i = (if i \<in> S then g i else xs ! i)"
  by (simp add: overwrite_def)

lemma overwrite_empty [simp]: "overwrite g {} xs = xs"
  by (simp add: overwrite_def map_nth)

lemma overwrite_Un: "overwrite g S (overwrite g T xs) = overwrite g (T \<union> S) xs"
  by (rule nth_equalityI) (auto simp: overwrite_nth)

lemma overwrite_single: "i < length xs \<Longrightarrow> xs[i := g i] = overwrite g {i} xs"
  by (rule nth_equalityI) (auto simp: overwrite_nth nth_list_update)

lemma overwrite_all: "{0..<length xs} \<subseteq> S \<Longrightarrow> overwrite g S xs = map g [0..<length xs]"
  by (rule nth_equalityI) (auto simp: overwrite_nth)

lemma rfold_overwrite:
  assumes "\<And>x ys. x \<in> set xs \<Longrightarrow> length ys = L \<Longrightarrow> f x ys = Inr (overwrite g (P x) ys)" and "length ys = L"
  shows "rfold f xs ys = Inr (overwrite g (\<Union>x\<in>set xs. P x) ys)"
  using assms
proof (induction xs arbitrary: ys)
  case (Cons x xs)
  from Cons.prems have "f x ys = Inr (overwrite g (P x) ys)" by simp
  moreover have "rfold f xs (overwrite g (P x) ys) = Inr (overwrite g (\<Union>x\<in>set xs. P x) (overwrite g (P x) ys))"
    using Cons.prems by (intro Cons.IH) simp_all
  ultimately show ?case by (simp add: overwrite_Un)
qed simp

lemma rfold_concat: "rfold (\<lambda>x. rfold f (h x)) xs s = rfold f (concat (map h xs)) s"
  by (induction xs arbitrary: s) (simp_all add: rfold_append rbind_def split: sum.splits)

text \<open>The same when a write may read the element it replaces: then no element is written twice.\<close>

lemma rfold_update_once:
  assumes "\<And>x S. x \<in> set xs \<Longrightarrow> P x \<notin> S \<Longrightarrow> f x (overwrite g S ys) = Inr (overwrite g (insert (P x) S) ys)"
    and "distinct (map P xs)" and "set (map P xs) \<inter> S = {}"
  shows "rfold f xs (overwrite g S ys) = Inr (overwrite g (S \<union> P ` set xs) ys)"
  using assms
proof (induction xs arbitrary: S)
  case (Cons x xs)
  have "f x (overwrite g S ys) = Inr (overwrite g (insert (P x) S) ys)" using Cons.prems by simp
  moreover have "rfold f xs (overwrite g (insert (P x) S) ys) =
    Inr (overwrite g (insert (P x) S \<union> P ` set xs) ys)"
    using Cons.prems by (intro Cons.IH) auto
  ultimately show ?case by simp
qed simp

text \<open>
  A cooperative load: each of the \<open>T\<close> threads fills the elements \<open>tid, tid + T, \<dots>\<close> of a shared tile of
  \<open>n\<close> elements. Whatever the order of the threads, afterwards the whole tile is filled.
\<close>

definition coop_fill :: "(nat \<Rightarrow> 'f res) \<Rightarrow> nat \<Rightarrow> nat \<Rightarrow> nat list \<Rightarrow> 'f list \<Rightarrow> 'f list res" where
  "coop_fill gen T n order tile = rfold (\<lambda>tid. rfold (\<lambda>idx tile.
     rbind (gen idx) (\<lambda>v. buf_set idx v tile)) (strided T n tid)) order tile"

lemma coop_fill_overwrite:
  assumes "\<And>i. i < n \<Longrightarrow> gen i = Inr (g i)" and "length tile = n" and "n < 2 ^ 31" and "0 < T"
  shows "coop_fill gen T n order tile = Inr (overwrite g (\<Union>t\<in>set order. set (strided T n t)) tile)"
proof -
  have one: "rbind (gen i) (\<lambda>v. buf_set i v ys) = Inr (overwrite g {i} ys)" if "i < n" "length ys = n" for i ys
    using assms(1,3) that by (simp add: overwrite_single)
  have thread: "rfold (\<lambda>idx tile. rbind (gen idx) (\<lambda>v. buf_set idx v tile)) (strided T n t) ys =
    Inr (overwrite g (\<Union>i\<in>set (strided T n t). {i}) ys)" if "length ys = n" for t ys
    by (rule rfold_overwrite [where L = n]) (use assms(4) that one in \<open>auto simp: set_strided\<close>)
  have "coop_fill gen T n order tile =
    Inr (overwrite g (\<Union>t\<in>set order. (\<Union>i\<in>set (strided T n t). {i})) tile)"
    unfolding coop_fill_def by (rule rfold_overwrite [where L = n]) (use thread assms(2) in auto)
  then show ?thesis by simp
qed

lemma coop_fill_ok:
  assumes "\<And>i. i < n \<Longrightarrow> gen i = Inr (g i)" and "length tile = n" and "n < 2 ^ 31"
    and "0 < T" and "{0..<T} \<subseteq> set order"
  shows "coop_fill gen T n order tile = Inr (map g [0..<n])"
  using strided_cover [OF assms(4,5), of n] assms(2)
  by (simp add: coop_fill_overwrite [OF assms(1-4)] overwrite_all)

section \<open>Timed launches\<close>

text \<open>What \<open>catch (...)\<close> catches; undefined behaviour is not an exception.\<close>

fun is_exception :: "fault \<Rightarrow> bool" where
  "is_exception (Runtime_error msg) = True"
| "is_exception (Invalid_argument msg) = True"
| "is_exception Length_error = True"
| "is_exception _ = False"

text \<open>The warm-up: whether all \<open>n\<close> launches succeeded, and the buffers after the last that did.\<close>

primrec warm_up :: "('o \<Rightarrow> 'o res) \<Rightarrow> nat \<Rightarrow> 'o \<Rightarrow> (bool \<times> 'o) res" where
  "warm_up run 0 out = Inr (True, out)"
| "warm_up run (Suc n) out = (case run out of
     Inl e \<Rightarrow> if is_exception e then Inr (False, out) else Inl e
   | Inr out' \<Rightarrow> warm_up run n out')"

lemma warm_up_run: "warm_up run (Suc n) out = Inr (True, out') \<Longrightarrow> \<exists>o2. run out = Inr o2"
  by (auto split: sum.splits if_splits)

lemma warm_up_ok:
  assumes "\<And>x. P x \<Longrightarrow> \<exists>y. run x = Inr y \<and> P y" and "P x"
  shows "\<exists>y. warm_up run n x = Inr (True, y) \<and> P y"
  using assms(2)
proof (induction n arbitrary: x)
  case (Suc n)
  from assms(1) [OF Suc.prems] obtain y where "run x = Inr y" "P y" by blast
  with Suc.IH show ?case by simp
qed simp

end
