(* ===== verification/Gemm.thy ===== *)
theory Gemm
  imports Gpu_Exec
begin

text \<open>
  Matrix multiplication: the reference product, the tiled FP32 kernel and its dispatch (kernels/matmul.cuh,
  kernels/matmul.cu). Matrices are row-major lists. A kernel is given the order in which blocks
  and threads run; shared memory starts with any contents of its size.
\<close>

section \<open>Reference\<close>

definition entry :: "('h, 'f) fops \<Rightarrow> 'h list \<Rightarrow> nat \<Rightarrow> nat \<Rightarrow> nat \<Rightarrow> nat \<Rightarrow> 'h" where
  "entry ops X rows cols r c = (if r < rows \<and> c < cols then X ! (r * cols + c) else h_zero ops)"

text \<open>One element of the product, accumulated from the first term to the last.\<close>

definition dot :: "('h, 'f) fops \<Rightarrow> 'h list \<Rightarrow> 'h list \<Rightarrow> nat \<Rightarrow> nat \<Rightarrow> nat \<Rightarrow> nat \<Rightarrow> nat \<Rightarrow> 'f" where
  "dot ops A B M N K i j =
     fold (\<lambda>k x. mac ops x (A ! (i * K + k)) (B ! (k * N + j))) [0..<K] (f_zero ops)"

section \<open>The FP32 kernel\<close>

record tile_cfg =
  tc_BM :: nat
  tc_BN :: nat
  tc_BK :: nat

record ('h, 'f) block =
  bl_sA :: "'h list"
  bl_sB :: "'h list"
  bl_acc :: "'f list"

text \<open>What the load loops put into element \<open>idx\<close> of \<open>sA\<close> and of \<open>sB\<close>.\<close>

definition load_a :: "('h, 'f) fops \<Rightarrow> 'h list \<Rightarrow> nat \<Rightarrow> nat \<Rightarrow> nat \<Rightarrow> nat \<Rightarrow> nat \<Rightarrow> nat \<Rightarrow> nat \<Rightarrow> 'h res" where
  "load_a ops A M K BM BK by kb idx =
     (let r = idx div BK; c = idx mod BK; a_row = by * BM + r; a_col = kb + c in
      if a_row < M \<and> a_col < K then buf_at A (a_row * K + a_col) else Inr (h_zero ops))"

definition load_b :: "('h, 'f) fops \<Rightarrow> 'h list \<Rightarrow> nat \<Rightarrow> nat \<Rightarrow> nat \<Rightarrow> nat \<Rightarrow> nat \<Rightarrow> nat \<Rightarrow> 'h res" where
  "load_b ops B N K BN bx kb idx =
     (let r = idx div BN; c = idx mod BN; b_row = kb + r; b_col = bx * BN + c in
      if b_row < K \<and> b_col < N then buf_at B (b_row * N + b_col) else Inr (h_zero ops))"

definition tile_mac :: "('h, 'f) fops \<Rightarrow> nat \<Rightarrow> nat \<Rightarrow> 'h list \<Rightarrow> 'h list \<Rightarrow> nat \<Rightarrow> nat \<Rightarrow> 'f \<Rightarrow> 'f" where
  "tile_mac ops BK BN sA sB ty tx acc =
     fold (\<lambda>k x. mac ops x (sA ! (ty * BK + k)) (sB ! (k * BN + tx))) [0..<BK] acc"

text \<open>One iteration of the loop over \<open>kb\<close>, for the whole block.\<close>

definition fp32_step :: "('h, 'f) fops \<Rightarrow> tile_cfg \<Rightarrow> 'h list \<Rightarrow> 'h list \<Rightarrow> nat \<Rightarrow> nat \<Rightarrow> nat \<Rightarrow> nat list \<Rightarrow> nat \<Rightarrow> nat \<Rightarrow>
    nat \<Rightarrow> ('h, 'f) block \<Rightarrow> ('h, 'f) block res" where
  "fp32_step ops cfg A B M N K order by bx kb st =
     (let BM = tc_BM cfg; BN = tc_BN cfg; BK = tc_BK cfg; T = BM * BN in
      rbind (coop_fill (load_a ops A M K BM BK by kb) T (BM * BK) order (bl_sA st)) (\<lambda>sA.
      rbind (coop_fill (load_b ops B N K BN bx kb) T (BK * BN) order (bl_sB st)) (\<lambda>sB.
        Inr \<lparr>bl_sA = sA, bl_sB = sB,
          bl_acc = map (\<lambda>tid. tile_mac ops BK BN sA sB (tid div BN) (tid mod BN) (bl_acc st ! tid)) [0..<T]\<rparr>)))"

text \<open>The store of thread \<open>tid\<close>.\<close>

definition store_acc :: "nat \<Rightarrow> nat \<Rightarrow> nat \<Rightarrow> nat \<Rightarrow> nat \<Rightarrow> nat \<Rightarrow> 'f list \<Rightarrow> nat \<Rightarrow> 'f list \<Rightarrow> 'f list res" where
  "store_acc M N BM BN by bx acc tid C =
     (let row = by * BM + tid div BN; col = bx * BN + tid mod BN in
      if row < M \<and> col < N then buf_set (row * N + col) (acc ! tid) C else Inr C)"

definition matmul_fp32_kernel :: "('h, 'f) fops \<Rightarrow> tile_cfg \<Rightarrow> 'h list \<Rightarrow> 'h list \<Rightarrow> nat \<Rightarrow> nat \<Rightarrow> nat \<Rightarrow> ('h, 'f) block \<Rightarrow>
    nat list \<Rightarrow> nat \<times> nat \<Rightarrow> 'f list \<Rightarrow> 'f list res" where
  "matmul_fp32_kernel ops cfg A B M N K shared order blk C = (case blk of (by, bx) \<Rightarrow>
     rbind (rfold (fp32_step ops cfg A B M N K order by bx) (strided (tc_BK cfg) K 0)
         (shared\<lparr>bl_acc := replicate (tc_BM cfg * tc_BN cfg) (f_zero ops)\<rparr>)) (\<lambda>st.
       rfold (store_acc M N (tc_BM cfg) (tc_BN cfg) by bx (bl_acc st)) order C))"

definition ceil_div :: "nat \<Rightarrow> nat \<Rightarrow> nat" where
  "ceil_div n b = (n + b - 1) div b"

definition grid_blocks :: "nat \<Rightarrow> nat \<Rightarrow> (nat \<times> nat) set" where
  "grid_blocks ny nx = {0..<ny} \<times> {0..<nx}"

definition dispatch_cfgs :: "tile_cfg list" where
  "dispatch_cfgs = [\<lparr>tc_BM = 16, tc_BN = 16, tc_BK = 16\<rparr>, \<lparr>tc_BM = 32, tc_BN = 16, tc_BK = 16\<rparr>,
     \<lparr>tc_BM = 32, tc_BN = 32, tc_BK = 16\<rparr>, \<lparr>tc_BM = 32, tc_BN = 32, tc_BK = 32\<rparr>]"

text \<open>\<open>blocks\<close> and \<open>order\<close> are the orders in which the blocks and the threads of a block run.\<close>

definition launch_matmul :: "('h, 'f) fops \<Rightarrow> tile_cfg \<Rightarrow> 'h list \<Rightarrow> 'h list \<Rightarrow> nat \<Rightarrow> nat \<Rightarrow> nat \<Rightarrow> ('h, 'f) block \<Rightarrow>
    nat list \<Rightarrow> (nat \<times> nat) list \<Rightarrow> 'f list \<Rightarrow> 'f list res" where
  "launch_matmul ops cfg A B M N K shared order blocks C =
     (if cfg \<in> set dispatch_cfgs then rfold (matmul_fp32_kernel ops cfg A B M N K shared order) blocks C
      else Inl (Runtime_error ''unknown FP32 tile cfg''))"

section \<open>Tiles\<close>

lemma flat_index_less: "r < R \<Longrightarrow> c < C \<Longrightarrow> r * C + c < R * (C :: nat)"
proof -
  assume "r < R" "c < C"
  then have "r * C + c < (r + 1) * C" by simp
  also have "\<dots> \<le> R * C" using \<open>r < R\<close> by (intro mult_le_mono1) simp
  finally show ?thesis .
qed

lemma load_a_ok:
  assumes "M * K \<le> length A" "length A < 2 ^ 31"
  shows "load_a ops A M K BM BK by kb idx =
    Inr (entry ops A M K (by * BM + idx div BK) (kb + idx mod BK))"
  using assms flat_index_less [of "by * BM + idx div BK" M "kb + idx mod BK" K]
  by (auto simp: load_a_def entry_def Let_def intro!: buf_at_ok elim: less_le_trans)

lemma load_b_ok:
  assumes "K * N \<le> length B" "length B < 2 ^ 31"
  shows "load_b ops B N K BN bx kb idx =
    Inr (entry ops B K N (kb + idx div BN) (bx * BN + idx mod BN))"
  using assms flat_index_less [of "kb + idx div BN" K "bx * BN + idx mod BN" N]
  by (auto simp: load_b_def entry_def Let_def intro!: buf_at_ok elim: less_le_trans)

text \<open>The accumulator over the first \<open>n\<close> columns, the matrices padded with zeros.\<close>

definition partial_dot :: "('h, 'f) fops \<Rightarrow> 'h list \<Rightarrow> 'h list \<Rightarrow> nat \<Rightarrow> nat \<Rightarrow> nat \<Rightarrow> nat \<Rightarrow> nat \<Rightarrow> nat \<Rightarrow> 'f" where
  "partial_dot ops A B M N K i j n =
     fold (\<lambda>k x. mac ops x (entry ops A M K i k) (entry ops B K N k j)) [0..<n] (f_zero ops)"

lemma fold_shift: "fold (\<lambda>k x. h (a + k) x) [0..<n] x = fold h [a..<a + n] x"
  by (induction n) simp_all

lemma partial_dot_tile:
  assumes "sA = map (\<lambda>i. entry ops A M K (r0 + i div BK) (kb + i mod BK)) [0..<BM * BK]"
    and "sB = map (\<lambda>i. entry ops B K N (kb + i div BN) (c0 + i mod BN)) [0..<BK * BN]"
    and "ty < BM" "tx < BN"
  shows "tile_mac ops BK BN sA sB ty tx (partial_dot ops A B M N K (r0 + ty) (c0 + tx) kb) =
    partial_dot ops A B M N K (r0 + ty) (c0 + tx) (kb + BK)"
proof -
  let ?h = "\<lambda>k x. mac ops x (entry ops A M K (r0 + ty) k) (entry ops B K N k (c0 + tx))"
  have elems: "sA ! (ty * BK + k) = entry ops A M K (r0 + ty) (kb + k)"
    "sB ! (k * BN + tx) = entry ops B K N (kb + k) (c0 + tx)" if "k < BK" for k
    using assms that flat_index_less [of ty BM k BK] flat_index_less [of k BK tx BN] by simp_all
  have "tile_mac ops BK BN sA sB ty tx x = fold (\<lambda>k x. ?h (kb + k) x) [0..<BK] x" for x
    unfolding tile_mac_def by (rule fold_cong) (simp_all add: elems)
  then have "tile_mac ops BK BN sA sB ty tx x = fold ?h [kb..<kb + BK] x" for x
    using fold_shift [of ?h kb BK x] by simp
  then show ?thesis unfolding partial_dot_def by (simp add: upt_add_eq_append [of 0 kb BK])
qed

lemma partial_dot_full:
  assumes "i < M" "j < N" "K \<le> n"
    and "\<And>k. mac ops (partial_dot ops A B M N K i j k) (h_zero ops) (h_zero ops) = partial_dot ops A B M N K i j k"
  shows "partial_dot ops A B M N K i j n = dot ops A B M N K i j"
  using assms(3)
proof (induction n rule: dec_induct)
  case base
  show ?case unfolding partial_dot_def dot_def by (rule fold_cong) (use assms(1,2) in \<open>simp_all add: entry_def\<close>)
next
  case (step n)
  then have "partial_dot ops A B M N K i j (Suc n) =
    mac ops (partial_dot ops A B M N K i j n) (h_zero ops) (h_zero ops)"
    by (simp add: partial_dot_def entry_def)
  also have "\<dots> = partial_dot ops A B M N K i j n" by (rule assms(4))
  finally show ?case using step by simp
qed


text \<open>
  The loop over the tiles, for any body whose step extends the accumulators of the block from \<open>kb\<close>
  to \<open>kb + BK\<close> columns.
\<close>

lemma strided_steps:
  assumes "\<And>kb st. I kb st \<Longrightarrow> kb < K \<Longrightarrow> \<exists>st'. f kb st = Inr st' \<and> I (kb + BK) st'" and "0 < BK" and "I kb st"
  shows "\<exists>n st'. rfold f (strided BK K kb) st = Inr st' \<and> K \<le> n \<and> I n st'"
  using assms(3)
proof (induction "K - kb" arbitrary: kb st rule: less_induct)
  case less
  show ?case
  proof (cases "kb < K")
    case True
    with assms(1) less.prems obtain st' where st': "f kb st = Inr st'" "I (kb + BK) st'" by blast
    have "K - (kb + BK) < K - kb" using True assms(2) by simp
    from less.hyps [OF this st'(2)] st'(1) True assms(2) show ?thesis
      by (simp add: strided.simps [of BK K kb])
  next
    case False
    with less.prems show ?thesis by (intro exI [of _ kb]) (simp add: strided.simps [of BK K kb])
  qed
qed

section \<open>A block and the grid\<close>

text \<open>The element of the product that position \<open>p\<close> of \<open>C\<close> holds, and the positions of a block.\<close>

definition dot_at :: "('h, 'f) fops \<Rightarrow> 'h list \<Rightarrow> 'h list \<Rightarrow> nat \<Rightarrow> nat \<Rightarrow> nat \<Rightarrow> nat \<Rightarrow> 'f" where
  "dot_at ops A B M N K p = dot ops A B M N K (p div N) (p mod N)"

definition block_cells :: "nat \<Rightarrow> nat \<Rightarrow> nat \<Rightarrow> nat \<Rightarrow> nat \<times> nat \<Rightarrow> nat set" where
  "block_cells M N BM BN blk =
     {p. p < M * N \<and> p div N div BM = fst blk \<and> p mod N div BN = snd blk}"

definition mac_ok :: "('h, 'f) fops \<Rightarrow> 'h list \<Rightarrow> 'h list \<Rightarrow> nat \<Rightarrow> nat \<Rightarrow> nat \<Rightarrow> bool" where
  "mac_ok ops A B M N K \<longleftrightarrow> (\<forall>i j k. mac ops (partial_dot ops A B M N K i j k) (h_zero ops) (h_zero ops) =
     partial_dot ops A B M N K i j k)"

lemma store_phase:
  assumes "0 < BM" "0 < BN"
    and "\<And>tid. tid < BM * BN \<Longrightarrow> by * BM + tid div BN < M \<Longrightarrow> bx * BN + tid mod BN < N \<Longrightarrow>
      acc ! tid = dot ops A B M N K (by * BM + tid div BN) (bx * BN + tid mod BN)"
    and "set order = {0..<BM * BN}" and "length C = L" "M * N \<le> L" "L < 2 ^ 31"
  shows "rfold (store_acc M N BM BN by bx acc) order C =
    Inr (overwrite (dot_at ops A B M N K) (block_cells M N BM BN (by, bx)) C)"
proof -
  let ?P = "\<lambda>tid. if by * BM + tid div BN < M \<and> bx * BN + tid mod BN < N
    then {(by * BM + tid div BN) * N + (bx * BN + tid mod BN)} else {}"
  have "store_acc M N BM BN by bx acc tid ys = Inr (overwrite (dot_at ops A B M N K) (?P tid) ys)"
    if "tid \<in> set order" "length ys = L" for tid ys
  proof (cases "by * BM + tid div BN < M \<and> bx * BN + tid mod BN < N")
    case True
    let ?p = "(by * BM + tid div BN) * N + (bx * BN + tid mod BN)"
    have p: "?p < M * N" using True flat_index_less by blast
    have "dot_at ops A B M N K ?p = acc ! tid" using True assms(3,4) that(1) by (simp add: dot_at_def)
    then show ?thesis using True p that(2) assms(6,7) overwrite_single [of ?p ys "dot_at ops A B M N K"]
      by (simp add: store_acc_def Let_def)
  qed (auto simp: store_acc_def Let_def)
  then have "rfold (store_acc M N BM BN by bx acc) order C =
    Inr (overwrite (dot_at ops A B M N K) (\<Union>tid\<in>set order. ?P tid) C)"
    by (rule rfold_overwrite) (use assms(5) in auto)
  moreover have "(\<Union>tid\<in>set order. ?P tid) = block_cells M N BM BN (by, bx)"
  proof (intro set_eqI iffI)
    fix p assume "p \<in> (\<Union>tid\<in>set order. ?P tid)"
    then obtain tid where t: "tid < BM * BN" "by * BM + tid div BN < M" "bx * BN + tid mod BN < N"
      "p = (by * BM + tid div BN) * N + (bx * BN + tid mod BN)" using assms(4) by (auto split: if_splits)
    have "tid div BN < BM" using t(1) by (simp add: less_mult_imp_div_less)
    with t flat_index_less [OF t(2,3)] assms(1,2) show "p \<in> block_cells M N BM BN (by, bx)"
      by (simp add: block_cells_def)
  next
    fix p assume p: "p \<in> block_cells M N BM BN (by, bx)"
    then have lt: "p < M * N" "p div N div BM = by" "p mod N div BN = bx" by (simp_all add: block_cells_def)
    define ty tx where "ty = p div N mod BM" and "tx = p mod N mod BN"
    have N: "0 < N" using lt(1) by (cases N) auto
    have rc: "by * BM + ty = p div N" "bx * BN + tx = p mod N"
      using lt(2,3) by (simp_all add: ty_def tx_def flip: lt(2,3))
    have less: "ty < BM" "tx < BN" using assms(1,2) by (simp_all add: ty_def tx_def)
    have tid: "ty * BN + tx < BM * BN" "(ty * BN + tx) div BN = ty" "(ty * BN + tx) mod BN = tx"
      using flat_index_less [OF less] less by simp_all
    have "p \<in> ?P (ty * BN + tx)" using tid rc lt(1) N by (simp add: less_mult_imp_div_less)
    moreover have "ty * BN + tx \<in> set order" using tid(1) assms(4) by simp
    ultimately show "p \<in> (\<Union>tid\<in>set order. ?P tid)" by blast
  qed
  ultimately show ?thesis by simp
qed


text \<open>The accumulators of the block at \<open>(by, bx)\<close> after \<open>n\<close> columns, and its shared arrays' sizes.\<close>

definition acc_inv :: "('h, 'f) fops \<Rightarrow> tile_cfg \<Rightarrow> 'h list \<Rightarrow> 'h list \<Rightarrow> nat \<Rightarrow> nat \<Rightarrow> nat \<Rightarrow> nat \<Rightarrow> nat \<Rightarrow> nat \<Rightarrow> ('h, 'f) block \<Rightarrow> bool" where
  "acc_inv ops cfg A B M N K by bx n st \<longleftrightarrow>
     length (bl_sA st) = tc_BM cfg * tc_BK cfg \<and> length (bl_sB st) = tc_BK cfg * tc_BN cfg \<and>
     (\<forall>tid<tc_BM cfg * tc_BN cfg. bl_acc st ! tid =
       partial_dot ops A B M N K (by * tc_BM cfg + tid div tc_BN cfg) (bx * tc_BN cfg + tid mod tc_BN cfg) n)"

definition cfg_ok :: "tile_cfg \<Rightarrow> bool" where
  "cfg_ok cfg \<longleftrightarrow> 0 < tc_BM cfg \<and> 0 < tc_BN cfg \<and> 0 < tc_BK cfg \<and>
     tc_BM cfg * tc_BK cfg < 2 ^ 31 \<and> tc_BK cfg * tc_BN cfg < 2 ^ 31"

lemma fp32_step_ok:
  assumes "cfg_ok cfg" and "set order = {0..<tc_BM cfg * tc_BN cfg}"
    and "M * K \<le> length A" "length A < 2 ^ 31" "K * N \<le> length B" "length B < 2 ^ 31"
    and "acc_inv ops cfg A B M N K by bx kb st"
  shows "\<exists>st'. fp32_step ops cfg A B M N K order by bx kb st = Inr st' \<and>
    acc_inv ops cfg A B M N K by bx (kb + tc_BK cfg) st'"
proof -
  let ?BM = "tc_BM cfg" and ?BN = "tc_BN cfg" and ?BK = "tc_BK cfg"
  define sA where "sA = map (\<lambda>i. entry ops A M K (by * ?BM + i div ?BK) (kb + i mod ?BK)) [0..<?BM * ?BK]"
  define sB where "sB = map (\<lambda>i. entry ops B K N (kb + i div ?BN) (bx * ?BN + i mod ?BN)) [0..<?BK * ?BN]"
  have pos: "0 < ?BM" "0 < ?BN" "0 < ?BK" using assms(1) by (simp_all add: cfg_ok_def)
  have a: "coop_fill (load_a ops A M K ?BM ?BK by kb) (?BM * ?BN) (?BM * ?BK) order (bl_sA st) = Inr sA"
    unfolding sA_def by (rule coop_fill_ok) (use assms pos in \<open>auto simp: load_a_ok cfg_ok_def acc_inv_def\<close>)
  have b: "coop_fill (load_b ops B N K ?BN bx kb) (?BM * ?BN) (?BK * ?BN) order (bl_sB st) = Inr sB"
    unfolding sB_def by (rule coop_fill_ok) (use assms pos in \<open>auto simp: load_b_ok cfg_ok_def acc_inv_def\<close>)
  let ?st = "\<lparr>bl_sA = sA, bl_sB = sB, bl_acc = map (\<lambda>tid.
    tile_mac ops ?BK ?BN sA sB (tid div ?BN) (tid mod ?BN) (bl_acc st ! tid)) [0..<?BM * ?BN]\<rparr>"
  have "bl_acc ?st ! tid = partial_dot ops A B M N K (by * ?BM + tid div ?BN) (bx * ?BN + tid mod ?BN) (kb + ?BK)"
    if "tid < ?BM * ?BN" for tid
  proof -
    have "tid div ?BN < ?BM" "tid mod ?BN < ?BN" using that pos by (simp_all add: less_mult_imp_div_less)
    from partial_dot_tile [OF sA_def sB_def this] assms(7) that show ?thesis by (simp add: acc_inv_def)
  qed
  then have "acc_inv ops cfg A B M N K by bx (kb + ?BK) ?st" by (simp add: acc_inv_def sA_def sB_def)
  moreover have "fp32_step ops cfg A B M N K order by bx kb st = Inr ?st"
    using a b by (simp add: fp32_step_def Let_def)
  ultimately show ?thesis by blast
qed

lemma fp32_block_ok:
  assumes "cfg_ok cfg" and "set order = {0..<tc_BM cfg * tc_BN cfg}"
    and "M * K \<le> length A" "length A < 2 ^ 31" "K * N \<le> length B" "length B < 2 ^ 31"
    and "length (bl_sA shared) = tc_BM cfg * tc_BK cfg" "length (bl_sB shared) = tc_BK cfg * tc_BN cfg"
    and "mac_ok ops A B M N K" and "length C = L" "M * N \<le> L" "L < 2 ^ 31"
  shows "matmul_fp32_kernel ops cfg A B M N K shared order blk C =
    Inr (overwrite (dot_at ops A B M N K) (block_cells M N (tc_BM cfg) (tc_BN cfg) blk) C)"
proof -
  obtain "by" bx where blk: "blk = (by, bx)" by force
  let ?st = "shared\<lparr>bl_acc := replicate (tc_BM cfg * tc_BN cfg) (f_zero ops)\<rparr>"
  have pos: "0 < tc_BM cfg" "0 < tc_BN cfg" "0 < tc_BK cfg" using assms(1) by (simp_all add: cfg_ok_def)
  have init: "acc_inv ops cfg A B M N K by bx 0 ?st"
    using assms(7,8) by (simp add: acc_inv_def partial_dot_def)
  have "\<exists>n st. rfold (fp32_step ops cfg A B M N K order by bx) (strided (tc_BK cfg) K 0) ?st = Inr st \<and>
    K \<le> n \<and> acc_inv ops cfg A B M N K by bx n st"
  proof (rule strided_steps [where I = "acc_inv ops cfg A B M N K by bx"])
    fix kb st assume "acc_inv ops cfg A B M N K by bx kb st"
    then show "\<exists>st'. fp32_step ops cfg A B M N K order by bx kb st = Inr st' \<and>
      acc_inv ops cfg A B M N K by bx (kb + tc_BK cfg) st'" by (rule fp32_step_ok [OF assms(1-6)])
  qed (fact pos(3), fact init)
  then obtain n st where st: "rfold (fp32_step ops cfg A B M N K order by bx) (strided (tc_BK cfg) K 0) ?st = Inr st"
    "K \<le> n" "acc_inv ops cfg A B M N K by bx n st" by blast
  have "rfold (store_acc M N (tc_BM cfg) (tc_BN cfg) by bx (bl_acc st)) order C =
    Inr (overwrite (dot_at ops A B M N K) (block_cells M N (tc_BM cfg) (tc_BN cfg) (by, bx)) C)"
  proof (rule store_phase [OF pos(1,2) _ assms(2,10-12)])
    fix tid assume t: "tid < tc_BM cfg * tc_BN cfg" "by * tc_BM cfg + tid div tc_BN cfg < M"
      "bx * tc_BN cfg + tid mod tc_BN cfg < N"
    have "partial_dot ops A B M N K (by * tc_BM cfg + tid div tc_BN cfg) (bx * tc_BN cfg + tid mod tc_BN cfg) n =
      dot ops A B M N K (by * tc_BM cfg + tid div tc_BN cfg) (bx * tc_BN cfg + tid mod tc_BN cfg)"
      by (rule partial_dot_full [OF t(2,3) st(2)]) (use assms(9) in \<open>simp add: mac_ok_def\<close>)
    with st(3) t(1)
    show "bl_acc st ! tid = dot ops A B M N K (by * tc_BM cfg + tid div tc_BN cfg) (bx * tc_BN cfg + tid mod tc_BN cfg)"
      by (simp add: acc_inv_def)
  qed
  with st(1) blk show ?thesis by (simp add: matmul_fp32_kernel_def)
qed

lemma ceil_div_cover: "0 < b \<Longrightarrow> i < n \<Longrightarrow> i div b < ceil_div n b"
proof -
  assume b: "0 < b" and i: "i < n"
  have "i div b + 1 = (i + b) div b" using b by (simp add: div_add_self2)
  also have "\<dots> \<le> (n + b - 1) div b" using i by (intro div_le_mono) simp
  finally show ?thesis by (simp add: ceil_div_def)
qed

lemma ceil_div_dvd: "0 < b \<Longrightarrow> b dvd n \<Longrightarrow> ceil_div n b = n div b"
proof (elim dvdE)
  fix k assume "0 < b" "n = b * k"
  then have "(n + b - 1) div b = (k * b + (b - 1)) div b" by (simp add: mult.commute)
  also have "\<dots> = k + (b - 1) div b" using \<open>0 < b\<close> by (intro div_mult_self3) simp
  also have "\<dots> = k" using \<open>0 < b\<close> by simp
  finally show ?thesis using \<open>0 < b\<close> \<open>n = b * k\<close> by (simp add: ceil_div_def)
qed

lemma block_cells_cover:
  assumes "0 < BM" "0 < BN" and "grid_blocks (ceil_div M BM) (ceil_div N BN) \<subseteq> set blocks"
  shows "(\<Union>blk\<in>set blocks. block_cells M N BM BN blk) = {0..<M * N}"
proof
  show "(\<Union>blk\<in>set blocks. block_cells M N BM BN blk) \<subseteq> {0..<M * N}" by (auto simp: block_cells_def)
  show "{0..<M * N} \<subseteq> (\<Union>blk\<in>set blocks. block_cells M N BM BN blk)"
  proof
    fix p assume "p \<in> {0..<M * N}"
    then have p: "p < M * N" by simp
    then have "0 < N" by (cases N) auto
    with p have "p div N < M" "p mod N < N" by (simp_all add: less_mult_imp_div_less)
    with assms ceil_div_cover have "(p div N div BM, p mod N div BN) \<in> set blocks"
      by (auto simp: grid_blocks_def)
    with p show "p \<in> (\<Union>blk\<in>set blocks. block_cells M N BM BN blk)" by (force simp: block_cells_def)
  qed
qed

lemma dispatch_ok: "cfg \<in> set dispatch_cfgs \<Longrightarrow> cfg_ok cfg"
  by (auto simp: dispatch_cfgs_def cfg_ok_def)

lemma dot_at_flat: "i < M \<Longrightarrow> j < N \<Longrightarrow> dot_at ops A B M N K (i * N + j) = dot ops A B M N K i j"
  by (simp add: dot_at_def)

section \<open>Properties\<close>



definition nat_ops :: "(nat, nat) fops" where
  "nat_ops = \<lparr>h_zero = 0, f_zero = 0, f_add = (+), f_mul = (*)\<rparr>"

definition blank :: "nat \<Rightarrow> nat \<Rightarrow> (nat, nat) block" where
  "blank na nb = \<lparr>bl_sA = replicate na 9, bl_sB = replicate nb 9, bl_acc = []\<rparr>"


end
