(* ===== verification/Gemm_Tensor.thy ===== *)
theory Gemm_Tensor
  imports Gemm
begin

text \<open>
  The BF16 kernels: the tensor-core kernel of the CUDA and of the HIP back end
  (kernels/matmul.cu), which differ in the number of lanes of a warp, with the capability checks
  that guard it. \<open>mma\<close> is the matrix instruction
  on a tile; what is assumed of it is that it accumulates the product of the two tiles.
\<close>

section \<open>Devices\<close>

text \<open>A CUDA device by its compute capability, an AMD device by the name of its architecture.\<close>

datatype device = Cuda nat nat | Hip string

fun warp_lanes :: "device \<Rightarrow> nat" where
  "warp_lanes (Cuda major minor) = 32"
| "warp_lanes (Hip arch) = 64"

text \<open>\<open>arch.find(pat) != npos\<close>\<close>

definition str_has :: "string \<Rightarrow> string \<Rightarrow> bool" where
  "str_has pat s \<longleftrightarrow> (\<exists>i\<in>set [0..<length s + 1]. take (length pat) (drop i s) = pat)"

text \<open>\<open>None\<close>: the query of the device failed.\<close>

fun has_tensor_core_bf16 :: "device option \<Rightarrow> bool" where
  "has_tensor_core_bf16 None = False"
| "has_tensor_core_bf16 (Some (Cuda major minor)) = (8 \<le> major)"
| "has_tensor_core_bf16 (Some (Hip arch)) =
     (str_has ''gfx90a'' arch \<or> str_has ''gfx940'' arch \<or> str_has ''gfx941'' arch \<or> str_has ''gfx942'' arch)"

fun has_tensor_core_fp8 :: "device option \<Rightarrow> bool" where
  "has_tensor_core_fp8 None = False"
| "has_tensor_core_fp8 (Some (Cuda major minor)) = (8 < major \<or> major = 8 \<and> 9 \<le> minor)"
| "has_tensor_core_fp8 (Some (Hip arch)) =
     (str_has ''gfx940'' arch \<or> str_has ''gfx941'' arch \<or> str_has ''gfx942'' arch)"

text \<open>The body of the CUDA kernel is compiled for \<open>__CUDA_ARCH__ >= 800\<close> only.\<close>

fun kernel_compiled :: "device \<Rightarrow> bool" where
  "kernel_compiled (Cuda major minor) = (800 \<le> major * 100 + minor * 10)"
| "kernel_compiled (Hip arch) = True"

section \<open>The tensor-core kernel\<close>

definition wmma_step :: "('h, 'f) fops \<Rightarrow> ('f list \<Rightarrow> 'h list \<Rightarrow> 'h list \<Rightarrow> 'f list) \<Rightarrow> nat \<Rightarrow> 'h list \<Rightarrow> 'h list \<Rightarrow>
    nat \<Rightarrow> nat \<Rightarrow> nat \<Rightarrow> nat list \<Rightarrow> nat \<Rightarrow> nat \<Rightarrow> nat \<Rightarrow> ('h, 'f) block \<Rightarrow> ('h, 'f) block res" where
  "wmma_step ops mma lanes A B M N K order wM wN k st =
     rbind (coop_fill (load_a ops A M K 16 16 wM k) lanes 256 order (bl_sA st)) (\<lambda>sA.
     rbind (coop_fill (load_b ops B N K 16 wN k) lanes 256 order (bl_sB st)) (\<lambda>sB.
       Inr \<lparr>bl_sA = sA, bl_sB = sB, bl_acc = mma (bl_acc st) sA sB\<rparr>))"

definition matmul_bf16_wmma :: "('h, 'f) fops \<Rightarrow> ('f list \<Rightarrow> 'h list \<Rightarrow> 'h list \<Rightarrow> 'f list) \<Rightarrow> device \<Rightarrow> 'h list \<Rightarrow> 'h list \<Rightarrow>
    nat \<Rightarrow> nat \<Rightarrow> nat \<Rightarrow> ('h, 'f) block \<Rightarrow> nat list \<Rightarrow> nat \<times> nat \<Rightarrow> 'f list \<Rightarrow> 'f list res" where
  "matmul_bf16_wmma ops mma dev A B M N K shared order blk C =
     (if \<not> kernel_compiled dev then Inr C
      else case blk of (wM, wN) \<Rightarrow>
        rbind (rfold (wmma_step ops mma (warp_lanes dev) A B M N K order wM wN) (strided 16 K 0)
            (shared\<lparr>bl_acc := replicate 256 (f_zero ops)\<rparr>)) (\<lambda>st.
          if wM * 16 < M \<and> wN * 16 < N then
            rfold (\<lambda>lane. rfold (store_acc M N 16 16 wM wN (bl_acc st)) (strided (warp_lanes dev) 256 lane)) order C
          else Inr C))"

definition launch_matmul_bf16 :: "('h, 'f) fops \<Rightarrow> ('f list \<Rightarrow> 'h list \<Rightarrow> 'h list \<Rightarrow> 'f list) \<Rightarrow> device \<Rightarrow> 'h list \<Rightarrow> 'h list \<Rightarrow>
    nat \<Rightarrow> nat \<Rightarrow> nat \<Rightarrow> ('h, 'f) block \<Rightarrow> nat list \<Rightarrow> (nat \<times> nat) list \<Rightarrow> 'f list \<Rightarrow> 'f list res" where
  "launch_matmul_bf16 ops mma dev A B M N K shared order blocks C =
     rfold (matmul_bf16_wmma ops mma dev A B M N K shared order) blocks C"

text \<open>What the matrix instruction promises on tiles of 16 by 16.\<close>

definition mma_ok :: "('h, 'f) fops \<Rightarrow> ('f list \<Rightarrow> 'h list \<Rightarrow> 'h list \<Rightarrow> 'f list) \<Rightarrow> bool" where
  "mma_ok ops mma \<longleftrightarrow> (\<forall>fc sA sB. \<forall>r<16. \<forall>c<16.
     mma fc sA sB ! (r * 16 + c) = tile_mac ops 16 16 sA sB r c (fc ! (r * 16 + c)))"

definition cfg16 :: tile_cfg where
  "cfg16 = \<lparr>tc_BM = 16, tc_BN = 16, tc_BK = 16\<rparr>"

lemma wmma_step_ok:
  assumes "mma_ok ops mma" and "0 < lanes" and "set order = {0..<lanes}"
    and "M * K \<le> length A" "length A < 2 ^ 31" "K * N \<le> length B" "length B < 2 ^ 31"
    and "acc_inv ops cfg16 A B M N K wM wN k st"
  shows "\<exists>st'. wmma_step ops mma lanes A B M N K order wM wN k st = Inr st' \<and>
    acc_inv ops cfg16 A B M N K wM wN (k + 16) st'"
proof -
  define sA where "sA = map (\<lambda>i. entry ops A M K (wM * 16 + i div 16) (k + i mod 16)) [0..<16 * 16]"
  define sB where "sB = map (\<lambda>i. entry ops B K N (k + i div 16) (wN * 16 + i mod 16)) [0..<16 * 16]"
  have a: "coop_fill (load_a ops A M K 16 16 wM k) lanes (16 * 16) order (bl_sA st) = Inr sA"
    unfolding sA_def by (rule coop_fill_ok) (use assms in \<open>auto simp: load_a_ok acc_inv_def cfg16_def\<close>)
  have b: "coop_fill (load_b ops B N K 16 wN k) lanes (16 * 16) order (bl_sB st) = Inr sB"
    unfolding sB_def by (rule coop_fill_ok) (use assms in \<open>auto simp: load_b_ok acc_inv_def cfg16_def\<close>)
  let ?st = "\<lparr>bl_sA = sA, bl_sB = sB, bl_acc = mma (bl_acc st) sA sB\<rparr>"
  have "bl_acc ?st ! i = partial_dot ops A B M N K (wM * 16 + i div 16) (wN * 16 + i mod 16) (k + 16)"
    if "i < 16 * 16" for i
  proof -
    have rc: "i div 16 < 16" "i mod 16 < 16" "i div 16 * 16 + i mod 16 = i"
      using that by (simp_all add: less_mult_imp_div_less)
    have "mma (bl_acc st) sA sB ! i = tile_mac ops 16 16 sA sB (i div 16) (i mod 16) (bl_acc st ! i)"
      using assms(1) rc unfolding mma_ok_def by metis
    with partial_dot_tile [OF sA_def sB_def rc(1,2)] assms(8) that show ?thesis
      by (simp add: acc_inv_def cfg16_def)
  qed
  then have "acc_inv ops cfg16 A B M N K wM wN (k + 16) ?st"
    by (simp add: acc_inv_def cfg16_def sA_def sB_def)
  moreover have "wmma_step ops mma lanes A B M N K order wM wN k st = Inr ?st"
    using a b by (simp add: wmma_step_def)
  ultimately show ?thesis by blast
qed

lemma wmma_block_ok:
  assumes "kernel_compiled dev" and "mma_ok ops mma" and "set order = {0..<warp_lanes dev}"
    and "M * K \<le> length A" "length A < 2 ^ 31" "K * N \<le> length B" "length B < 2 ^ 31"
    and "length (bl_sA shared) = 256" "length (bl_sB shared) = 256"
    and "mac_ok ops A B M N K" and "length C = L" "M * N \<le> L" "L < 2 ^ 31"
  shows "matmul_bf16_wmma ops mma dev A B M N K shared order blk C =
    Inr (overwrite (dot_at ops A B M N K) (block_cells M N 16 16 blk) C)"
proof -
  obtain wM wN where blk: "blk = (wM, wN)" by force
  let ?st = "shared\<lparr>bl_acc := replicate 256 (f_zero ops)\<rparr>" and ?T = "warp_lanes dev"
  have T: "0 < ?T" by (cases dev) simp_all
  have init: "acc_inv ops cfg16 A B M N K wM wN 0 ?st"
    using assms(8,9) by (simp add: acc_inv_def partial_dot_def cfg16_def)
  have "\<exists>n st. rfold (wmma_step ops mma ?T A B M N K order wM wN) (strided 16 K 0) ?st = Inr st \<and>
    K \<le> n \<and> acc_inv ops cfg16 A B M N K wM wN n st"
  proof (rule strided_steps [where I = "acc_inv ops cfg16 A B M N K wM wN"])
    fix k st assume "acc_inv ops cfg16 A B M N K wM wN k st"
    then show "\<exists>st'. wmma_step ops mma ?T A B M N K order wM wN k st = Inr st' \<and>
      acc_inv ops cfg16 A B M N K wM wN (k + 16) st'" by (rule wmma_step_ok [OF assms(2) T assms(3-7)])
  qed (simp, fact init)
  then obtain n st where st: "rfold (wmma_step ops mma ?T A B M N K order wM wN) (strided 16 K 0) ?st = Inr st"
    "K \<le> n" "acc_inv ops cfg16 A B M N K wM wN n st" by blast
  have cover: "set (concat (map (strided ?T (16 * 16)) order)) = {0..<16 * 16}"
    using strided_cover [OF T, of order "16 * 16"] assms(3) by (auto simp: set_strided [OF T])
  have store: "rfold (\<lambda>lane. rfold (store_acc M N 16 16 wM wN (bl_acc st)) (strided ?T 256 lane)) order C =
    Inr (overwrite (dot_at ops A B M N K) (block_cells M N 16 16 (wM, wN)) C)"
    unfolding rfold_concat
  proof (rule store_phase [OF _ _ _ _ assms(11-13)])
    show "set (concat (map (strided ?T 256) order)) = {0..<16 * 16}" using cover by simp
    fix tid assume t: "tid < 16 * 16" "wM * 16 + tid div 16 < M" "wN * 16 + tid mod 16 < N"
    have "partial_dot ops A B M N K (wM * 16 + tid div 16) (wN * 16 + tid mod 16) n =
      dot ops A B M N K (wM * 16 + tid div 16) (wN * 16 + tid mod 16)"
      by (rule partial_dot_full [OF t(2,3) st(2)]) (use assms(10) in \<open>simp add: mac_ok_def\<close>)
    with st(3) t(1) show "bl_acc st ! tid = dot ops A B M N K (wM * 16 + tid div 16) (wN * 16 + tid mod 16)"
      by (simp add: acc_inv_def cfg16_def)
  qed simp_all
  have "block_cells M N 16 16 (wM, wN) = {}" if "\<not> (wM * 16 < M \<and> wN * 16 < N)"
  proof -
    have "wM * 16 < M \<and> wN * 16 < N" if p: "p \<in> block_cells M N 16 16 (wM, wN)" for p
    proof -
      have "p < M * N" "p div N div 16 = wM" "p mod N div 16 = wN" using p by (simp_all add: block_cells_def)
      moreover from this have "0 < N" by (cases N) auto
      ultimately have "p div N < M" "p mod N < N" "wM * 16 \<le> p div N" "wN * 16 \<le> p mod N"
        by (auto simp: less_mult_imp_div_less)
      then show ?thesis by linarith
    qed
    with that show ?thesis by blast
  qed
  with st(1) store blk assms(1) show ?thesis by (auto simp: matmul_bf16_wmma_def)
qed

section \<open>The HIP text\<close>

text \<open>
  With rocWMMA the file has the kernel, its launcher and the capability check a second time: waves of 64
  lanes, and no guard on the architecture in the kernel. They are what the definitions above say of a HIP
  device.
\<close>

definition mfma_step :: "('h, 'f) fops \<Rightarrow> ('f list \<Rightarrow> 'h list \<Rightarrow> 'h list \<Rightarrow> 'f list) \<Rightarrow> 'h list \<Rightarrow> 'h list \<Rightarrow>
    nat \<Rightarrow> nat \<Rightarrow> nat \<Rightarrow> nat list \<Rightarrow> nat \<Rightarrow> nat \<Rightarrow> nat \<Rightarrow> ('h, 'f) block \<Rightarrow> ('h, 'f) block res" where
  "mfma_step ops mma A B M N K order wM wN k st =
     rbind (coop_fill (\<lambda>i. let r = i div 16; c = i mod 16; gR = wM * 16 + r; gC = k + c in
         if gR < M \<and> gC < K then buf_at A (gR * K + gC) else Inr (h_zero ops)) 64 256 order (bl_sA st)) (\<lambda>sA.
     rbind (coop_fill (\<lambda>i. let r = i div 16; c = i mod 16; gR = k + r; gC = wN * 16 + c in
         if gR < K \<and> gC < N then buf_at B (gR * N + gC) else Inr (h_zero ops)) 64 256 order (bl_sB st)) (\<lambda>sB.
       Inr \<lparr>bl_sA = sA, bl_sB = sB, bl_acc = mma (bl_acc st) sA sB\<rparr>))"

definition matmul_bf16_mfma :: "('h, 'f) fops \<Rightarrow> ('f list \<Rightarrow> 'h list \<Rightarrow> 'h list \<Rightarrow> 'f list) \<Rightarrow> 'h list \<Rightarrow> 'h list \<Rightarrow>
    nat \<Rightarrow> nat \<Rightarrow> nat \<Rightarrow> ('h, 'f) block \<Rightarrow> nat list \<Rightarrow> nat \<times> nat \<Rightarrow> 'f list \<Rightarrow> 'f list res" where
  "matmul_bf16_mfma ops mma A B M N K shared order blk C = (case blk of (wM, wN) \<Rightarrow>
     rbind (rfold (mfma_step ops mma A B M N K order wM wN) (strided 16 K 0)
         (shared\<lparr>bl_acc := replicate 256 (f_zero ops)\<rparr>)) (\<lambda>st.
       if wM * 16 < M \<and> wN * 16 < N then
         rfold (\<lambda>lane. rfold (\<lambda>i C. let r = i div 16; c = i mod 16; gR = wM * 16 + r; gC = wN * 16 + c in
           if gR < M \<and> gC < N then buf_set (gR * N + gC) (bl_acc st ! i) C else Inr C) (strided 64 256 lane)) order C
       else Inr C))"

definition launch_matmul_mfma :: "('h, 'f) fops \<Rightarrow> ('f list \<Rightarrow> 'h list \<Rightarrow> 'h list \<Rightarrow> 'f list) \<Rightarrow> 'h list \<Rightarrow> 'h list \<Rightarrow>
    nat \<Rightarrow> nat \<Rightarrow> nat \<Rightarrow> ('h, 'f) block \<Rightarrow> nat list \<Rightarrow> (nat \<times> nat) list \<Rightarrow> 'f list \<Rightarrow> 'f list res" where
  "launch_matmul_mfma ops mma A B M N K shared order blocks C =
     rfold (matmul_bf16_mfma ops mma A B M N K shared order) blocks C"

definition hip_has_tensor_core_bf16 :: "string option \<Rightarrow> bool" where
  "hip_has_tensor_core_bf16 props = (case props of None \<Rightarrow> False
     | Some arch \<Rightarrow> str_has ''gfx90a'' arch \<or> str_has ''gfx940'' arch \<or> str_has ''gfx941'' arch \<or> str_has ''gfx942'' arch)"

lemma hip_text_same:
  "matmul_bf16_mfma ops mma = matmul_bf16_wmma ops mma (Hip arch)"
  "launch_matmul_mfma ops mma = launch_matmul_bf16 ops mma (Hip arch)"
  "hip_has_tensor_core_bf16 (Some arch) = has_tensor_core_bf16 (Some (Hip arch))"
proof -
  have step: "mfma_step ops mma = wmma_step ops mma 64"
    by (simp add: fun_eq_iff mfma_step_def wmma_step_def load_a_def [abs_def] load_b_def [abs_def])
  show same: "matmul_bf16_mfma ops mma = matmul_bf16_wmma ops mma (Hip arch)"
    by (simp add: fun_eq_iff step matmul_bf16_mfma_def matmul_bf16_wmma_def store_acc_def [abs_def] Let_def cong: if_cong)
  show "launch_matmul_mfma ops mma = launch_matmul_bf16 ops mma (Hip arch)"
    by (simp add: fun_eq_iff launch_matmul_mfma_def launch_matmul_bf16_def same)
qed (simp add: hip_has_tensor_core_bf16_def)

section \<open>Properties\<close>


definition nat_mma :: "nat list \<Rightarrow> nat list \<Rightarrow> nat list \<Rightarrow> nat list" where
  "nat_mma fc sA sB = map (\<lambda>i. tile_mac nat_ops 16 16 sA sB (i div 16) (i mod 16) (fc ! i)) [0..<256]"


end
