(* ===== verification/Device.thy ===== *)
theory Device
  imports Gemm_Tensor Cache_Store
begin

text \<open>
  Device detection (src/device.cpp, include/portable.hpp): what the program believes about the
  hardware it runs on, from what the vendor's runtime reports. The reports are the argument
  \<open>probe\<close>, one form per back end; \<open>None\<close> is a failed query or an exception.
\<close>

section \<open>Reports\<close>

record cuda_prop =
  cp_name :: string
  cp_warp_size :: int
  cp_mp_count :: int
  cp_global_mem :: nat
  cp_major :: nat
  cp_minor :: nat
  cp_shared_per_mp :: nat

record hip_prop =
  hp_name :: string
  hp_warp_size :: int
  hp_mp_count :: int
  hp_global_mem :: nat
  hp_arch :: string
  hp_shared_per_block :: nat

record sycl_prop =
  sp_name :: string
  sp_sub_group_sizes :: "int list"
  sp_compute_units :: int
  sp_global_mem :: nat
  sp_matrix :: bool
  sp_local_mem :: nat

datatype probe = P_cuda "cuda_prop option" | P_hip "hip_prop option" | P_sycl "sycl_prop option" | P_cpu nat

section \<open>Detection\<close>

record device_info =
  di_vendor :: string
  di_name :: string
  di_simd_width :: int
  di_compute_units :: int
  di_global_mem :: nat
  di_matrix_unit :: string
  di_sm_major :: nat
  di_sm_minor :: nat

definition cuda_matrix_unit :: "nat \<Rightarrow> nat \<Rightarrow> string" where
  "cuda_matrix_unit major minor =
     (if 8 < major \<or> major = 8 \<and> 9 \<le> minor then ''tensor_core_fp8''
      else if 8 \<le> major then ''tensor_core_bf16''
      else if 7 \<le> major then ''tensor_core''
      else ''none'')"

definition hip_matrix_unit :: "string \<Rightarrow> string" where
  "hip_matrix_unit arch =
     (if str_has ''gfx940'' arch \<or> str_has ''gfx941'' arch \<or> str_has ''gfx942'' arch then ''mfma_fp8''
      else if str_has ''gfx90a'' arch \<or> str_has ''gfx908'' arch then ''mfma_bf16''
      else ''none'')"

fun detect_device :: "probe \<Rightarrow> device_info res" where
  "detect_device (P_cuda None) = Inl (Runtime_error ''AMP error'')"
| "detect_device (P_cuda (Some p)) = Inr \<lparr>di_vendor = ''nvidia'', di_name = cp_name p,
     di_simd_width = cp_warp_size p, di_compute_units = cp_mp_count p, di_global_mem = cp_global_mem p,
     di_matrix_unit = cuda_matrix_unit (cp_major p) (cp_minor p),
     di_sm_major = cp_major p, di_sm_minor = cp_minor p\<rparr>"
| "detect_device (P_hip None) = Inl (Runtime_error ''AMP error'')"
| "detect_device (P_hip (Some p)) = Inr \<lparr>di_vendor = ''amd'', di_name = hp_name p,
     di_simd_width = hp_warp_size p, di_compute_units = hp_mp_count p, di_global_mem = hp_global_mem p,
     di_matrix_unit = hip_matrix_unit (hp_arch p), di_sm_major = 0, di_sm_minor = 0\<rparr>"
| "detect_device (P_sycl None) = Inr \<lparr>di_vendor = ''intel'', di_name = ''unknown'', di_simd_width = 0,
     di_compute_units = 0, di_global_mem = 0, di_matrix_unit = ''none'', di_sm_major = 0, di_sm_minor = 0\<rparr>"
| "detect_device (P_sycl (Some p)) = (if sp_sub_group_sizes p = [] then Inl Index_UB
     else Inr \<lparr>di_vendor = ''intel'', di_name = sp_name p, di_simd_width = last (sp_sub_group_sizes p),
       di_compute_units = sp_compute_units p, di_global_mem = sp_global_mem p,
       di_matrix_unit = (if sp_matrix p then ''xmx'' else ''none''), di_sm_major = 0, di_sm_minor = 0\<rparr>)"
| "detect_device (P_cpu n) = Inr \<lparr>di_vendor = ''cpu'', di_name = ''cpu'', di_simd_width = 1,
     di_compute_units = cast_int n, di_global_mem = 0, di_matrix_unit = ''none'', di_sm_major = 0, di_sm_minor = 0\<rparr>"

record device_caps =
  dc_bf16 :: bool
  dc_fp8 :: bool
  dc_fp16 :: bool
  dc_int8 :: bool
  dc_flash_attn :: bool
  dc_shared_mem_kb :: int
  dc_n_devices :: int

definition no_caps :: device_caps where
  "no_caps = \<lparr>dc_bf16 = False, dc_fp8 = False, dc_fp16 = False, dc_int8 = False, dc_flash_attn = False,
     dc_shared_mem_kb = 0, dc_n_devices = 1\<rparr>"

definition cuda_caps :: "int \<Rightarrow> cuda_prop \<Rightarrow> device_caps" where
  "cuda_caps cnt p = (let bf16 = (8 \<le> cp_major p) in
     \<lparr>dc_bf16 = bf16, dc_fp8 = (8 < cp_major p \<or> cp_major p = 8 \<and> 9 \<le> cp_minor p), dc_fp16 = (6 \<le> cp_major p),
      dc_int8 = (6 \<le> cp_major p \<and> 1 \<le> cp_minor p \<or> 7 \<le> cp_major p),
      dc_flash_attn = (bf16 \<and> 80 * 1024 \<le> cp_shared_per_mp p),
      dc_shared_mem_kb = cast_int (cp_shared_per_mp p div 1024), dc_n_devices = cnt\<rparr>)"

definition hip_caps :: "int \<Rightarrow> hip_prop \<Rightarrow> device_caps" where
  "hip_caps cnt p = (let arch = hp_arch p;
       bf16 = (str_has ''gfx90a'' arch \<or> str_has ''gfx940'' arch \<or> str_has ''gfx941'' arch \<or> str_has ''gfx942'' arch) in
     \<lparr>dc_bf16 = bf16, dc_fp8 = (str_has ''gfx940'' arch \<or> str_has ''gfx941'' arch \<or> str_has ''gfx942'' arch),
      dc_fp16 = True, dc_int8 = bf16, dc_flash_attn = bf16,
      dc_shared_mem_kb = cast_int (hp_shared_per_block p div 1024), dc_n_devices = cnt\<rparr>)"

text \<open>\<open>cnt\<close> is what the runtime's device count leaves in its argument.\<close>

fun detect_caps :: "int \<Rightarrow> probe \<Rightarrow> device_caps" where
  "detect_caps cnt (P_cuda None) = no_caps"
| "detect_caps cnt (P_cuda (Some p)) = cuda_caps cnt p"
| "detect_caps cnt (P_hip None) = no_caps"
| "detect_caps cnt (P_hip (Some p)) = hip_caps cnt p"
| "detect_caps cnt (P_sycl None) = no_caps"
| "detect_caps cnt (P_sycl (Some p)) = \<lparr>dc_bf16 = sp_matrix p, dc_fp8 = False, dc_fp16 = True, dc_int8 = sp_matrix p,
     dc_flash_attn = sp_matrix p, dc_shared_mem_kb = cast_int (sp_local_mem p div 1024), dc_n_devices = 1\<rparr>"
| "detect_caps cnt (P_cpu n) = no_caps"

fun device_count :: "int \<Rightarrow> probe \<Rightarrow> int" where
  "device_count cnt (P_cuda q) = (if cnt > 0 then cnt else 1)"
| "device_count cnt (P_hip q) = (if cnt > 0 then cnt else 1)"
| "device_count cnt _ = 1"

record runtime_info =
  ri_runtime_ver :: string
  ri_driver_ver :: string

text \<open>The versions the runtime reports; \<open>None\<close> is an exception of the SYCL query.\<close>

datatype runtime_probe = R_cuda nat nat | R_hip nat | R_sycl "string option" | R_cpu

definition cuda_version :: "nat \<Rightarrow> string" where
  "cuda_version v = show_nat (v div 1000) @ ''.'' @ show_nat (v mod 1000 div 10)"

definition hip_version :: "nat \<Rightarrow> string" where
  "hip_version v = show_nat (v div 10000000) @ ''.'' @ show_nat (v div 100000 mod 100)"

fun detect_runtime :: "runtime_probe \<Rightarrow> runtime_info" where
  "detect_runtime (R_cuda ver drv) = \<lparr>ri_runtime_ver = cuda_version ver, ri_driver_ver = cuda_version drv\<rparr>"
| "detect_runtime (R_hip ver) = \<lparr>ri_runtime_ver = hip_version ver, ri_driver_ver = hip_version ver\<rparr>"
| "detect_runtime (R_sycl None) = \<lparr>ri_runtime_ver = ''unknown'', ri_driver_ver = ''unknown''\<rparr>"
| "detect_runtime (R_sycl (Some s)) = \<lparr>ri_runtime_ver = s, ri_driver_ver = s\<rparr>"
| "detect_runtime R_cpu = \<lparr>ri_runtime_ver = ''0.0'', ri_driver_ver = ''0.0''\<rparr>"

section \<open>Properties\<close>


text \<open>An MI100 (gfx908) is reported to have a BF16 matrix unit and not to support BF16.\<close>

theorem gfx908_disagrees:
  assumes "hp_arch p = ''gfx908''"
  shows "\<exists>i. detect_device (P_hip (Some p)) = Inr i \<and> di_matrix_unit i = ''mfma_bf16'' \<and>
    \<not> dc_bf16 (detect_caps n (P_hip (Some p)))"
proof -
  have "hip_matrix_unit ''gfx908'' = ''mfma_bf16''" by code_simp
  moreover have "\<not> (str_has ''gfx90a'' ''gfx908'' \<or> str_has ''gfx940'' ''gfx908'' \<or>
    str_has ''gfx941'' ''gfx908'' \<or> str_has ''gfx942'' ''gfx908'')" by code_simp
  ultimately show ?thesis using assms by (simp add: hip_caps_def Let_def)
qed

text \<open>
  Version strings tell versions apart, so that entries of the compile cache made under another
  runtime have another graph string.
\<close>

lemma digit_inject: "a < 10 \<Longrightarrow> b < 10 \<Longrightarrow> (char_of (48 + a) = (char_of (48 + b) :: char)) \<longleftrightarrow> a = (b :: nat)"
proof
  assume ab: "a < 10" "b < 10" and "(char_of (48 + a) :: char) = char_of (48 + b)"
  then have "(of_char (char_of (48 + a) :: char) :: nat) = of_char (char_of (48 + b) :: char)" by simp
  with ab show "a = b" by (simp add: of_char_of)
qed simp

lemma show_nat_nonempty: "show_nat n \<noteq> []"
  by (subst show_nat.simps) simp

lemma show_nat_eqD: "show_nat m = show_nat n \<Longrightarrow> m = n"
proof (induction m arbitrary: n rule: show_nat.induct)
  case (1 m)
  have big: "\<not> k < 10 \<Longrightarrow> show_nat k = show_nat (k div 10) @ [char_of (48 + k mod 10)]" for k
    by (subst show_nat.simps) simp
  have small: "k < 10 \<Longrightarrow> show_nat k = [char_of (48 + k)]" for k
    by (subst show_nat.simps) simp
  consider "m < 10" "n < 10" | "m < 10" "\<not> n < 10" | "\<not> m < 10" "n < 10" | "\<not> m < 10" "\<not> n < 10" by blast
  then show ?case
  proof cases
    case 1
    with 1(1,2) "1.prems" show ?thesis by (simp add: small digit_inject)
  next
    case 2
    with "1.prems" show_nat_nonempty [of "n div 10"] show ?thesis
      by (cases "show_nat (n div 10)") (simp_all add: small big)
  next
    case 3
    with "1.prems" show_nat_nonempty [of "m div 10"] show ?thesis
      by (cases "show_nat (m div 10)") (simp_all add: small big)
  next
    case 4
    with "1.prems" have eq: "show_nat (m div 10) = show_nat (n div 10)"
      "(char_of (48 + m mod 10) :: char) = char_of (48 + n mod 10)" by (simp_all add: big)
    from "1.IH" [OF 4(1) eq(1)] eq(2) have "m div 10 = n div 10" "m mod 10 = n mod 10"
      by (simp_all add: digit_inject)
    then show ?thesis by (metis div_mult_mod_eq)
  qed
qed

lemma show_nat_no_dot: "CHR ''.'' \<notin> set (show_nat n)"
proof (induction n rule: show_nat.induct)
  case (1 n)
  have d: "(char_of (48 + k) :: char) \<noteq> CHR ''.''" if "k < 10" for k :: nat
  proof
    assume "(char_of (48 + k) :: char) = CHR ''.''"
    then have "(of_char (char_of (48 + k) :: char) :: nat) = of_char (CHR ''.'')" by simp
    with that show False by (simp add: of_char_of)
  qed
  show ?case using 1 d [of n] d [of "n mod 10"] by (subst show_nat.simps) auto
qed

lemma version_parts: "k div 1000 = k div 10 div (100 :: nat)" "k mod 1000 div 10 = k div 10 mod (100 :: nat)"
  using mod_mult2_eq [of k 10 100] by (simp_all add: div_mult2_eq [symmetric])

lemma cuda_version_inject: "cuda_version a = cuda_version b \<longleftrightarrow> a div 10 = b div 10"
proof
  assume "cuda_version a = cuda_version b"
  then have "show_nat (a div 1000) @ CHR ''.'' # show_nat (a mod 1000 div 10) =
    show_nat (b div 1000) @ CHR ''.'' # show_nat (b mod 1000 div 10)" by (simp add: cuda_version_def)
  then have "show_nat (a div 1000) = show_nat (b div 1000) \<and> show_nat (a mod 1000 div 10) = show_nat (b mod 1000 div 10)"
    using append_Cons_eq_iff [OF show_nat_no_dot show_nat_no_dot] by metis
  then have "a div 1000 = b div 1000" "a mod 1000 div 10 = b mod 1000 div 10" by (auto dest: show_nat_eqD)
  then show "a div 10 = b div 10" unfolding version_parts by (metis div_mult_mod_eq)
next
  assume "a div 10 = b div 10"
  then show "cuda_version a = cuda_version b" unfolding cuda_version_def version_parts by (simp only:)
qed

theorem upgrade_changes_key_input:
  assumes "a div 10 \<noteq> b div 10"
  shows "graph_string (g\<lparr>cg_runtime_ver := ri_runtime_ver (detect_runtime (R_cuda a x))\<rparr>) \<noteq>
    graph_string (g\<lparr>cg_runtime_ver := ri_runtime_ver (detect_runtime (R_cuda b y))\<rparr>)"
  using assms by (simp add: graph_string_def cuda_version_inject)

end
