(* ===== verification/Gemm_Vendor.thy ===== *)
theory Gemm_Vendor
  imports Gemm Complex_Main
begin

text \<open>
  The vendor back end (include/gemm_vendor.hpp, src/gemm_vendor.cpp): the descriptor, the dispatch, the
  rocBLAS path with its row-major-by-swapping trick, the host fallback and the batched call. The
  vendor routines are parameters. Arithmetic is exact (\<open>real\<close>) here, because the order in which a
  vendor library adds is not documented.
\<close>

section \<open>Descriptor\<close>

datatype data_type = FP32 | BF16 | FP16 | FP8E4M3 | FP8E5M2 | INT8 | INT4 | INT32

datatype gemm_epilogue = Ep_NONE | Ep_RELU | Ep_BIAS | Ep_GELU

text \<open>The device pointers of the descriptor are addresses, \<open>None\<close> is null.\<close>

record gemm_desc =
  gd_M :: nat
  gd_N :: nat
  gd_K :: nat
  gd_dtype_a :: data_type
  gd_dtype_b :: data_type
  gd_dtype_c :: data_type
  gd_alpha :: real
  gd_beta :: real
  gd_transa :: bool
  gd_transb :: bool
  gd_epilogue :: gemm_epilogue
  gd_scale_a :: "nat option"
  gd_scale_b :: "nat option"
  gd_scale_c :: "nat option"
  gd_amax_c :: "nat option"
  gd_bias :: "nat option"

definition default_desc :: gemm_desc where
  "default_desc = \<lparr>gd_M = 0, gd_N = 0, gd_K = 0, gd_dtype_a = BF16, gd_dtype_b = BF16, gd_dtype_c = FP32,
     gd_alpha = 1, gd_beta = 0, gd_transa = False, gd_transb = False, gd_epilogue = Ep_NONE,
     gd_scale_a = None, gd_scale_b = None, gd_scale_c = None, gd_amax_c = None, gd_bias = None\<rparr>"

section \<open>rocBLAS\<close>

datatype rocblas_type = F32_r | Bf16_r | F16_r | I8_r | I32_r

fun to_rocblas_dtype :: "data_type \<Rightarrow> rocblas_type res" where
  "to_rocblas_dtype FP32 = Inr F32_r"
| "to_rocblas_dtype BF16 = Inr Bf16_r"
| "to_rocblas_dtype FP16 = Inr F16_r"
| "to_rocblas_dtype INT8 = Inr I8_r"
| "to_rocblas_dtype INT32 = Inr I32_r"
| "to_rocblas_dtype _ = Inl (Runtime_error ''unsupported dtype for rocBLAS'')"

text \<open>The arguments of \<open>rocblas_gemm_ex\<close>; the flag of an operand asks for its transpose.\<close>

record rocblas_call =
  rc_op1 :: bool
  rc_op2 :: bool
  rc_m :: nat
  rc_n :: nat
  rc_k :: nat
  rc_alpha :: real
  rc_type1 :: rocblas_type
  rc_ld1 :: nat
  rc_type2 :: rocblas_type
  rc_ld2 :: nat
  rc_beta :: real
  rc_typec :: rocblas_type
  rc_ldc :: nat

type_synonym rocblas = "rocblas_call \<Rightarrow> real list \<Rightarrow> real list \<Rightarrow> real list \<Rightarrow> real list res"

definition rocblas_gemm_impl :: "rocblas \<Rightarrow> gemm_desc \<Rightarrow> real list \<Rightarrow> real list \<Rightarrow> real list \<Rightarrow> real list res" where
  "rocblas_gemm_impl gemm_ex d A B C =
     rbind (to_rocblas_dtype (gd_dtype_a d)) (\<lambda>dt_a.
     rbind (to_rocblas_dtype (gd_dtype_b d)) (\<lambda>dt_b.
     rbind (to_rocblas_dtype (gd_dtype_c d)) (\<lambda>dt_c.
       let lda = (if gd_transa d then gd_M d else gd_K d);
           ldb = (if gd_transb d then gd_K d else gd_N d);
           ldc = gd_N d in
       gemm_ex \<lparr>rc_op1 = gd_transb d, rc_op2 = gd_transa d, rc_m = gd_N d, rc_n = gd_M d, rc_k = gd_K d,
         rc_alpha = gd_alpha d, rc_type1 = dt_b, rc_ld1 = ldb, rc_type2 = dt_a, rc_ld2 = lda,
         rc_beta = gd_beta d, rc_typec = dt_c, rc_ldc = ldc\<rparr> B A C)))"

section \<open>Fallback and dispatch\<close>

definition real_ops :: "(real, real) fops" where
  "real_ops = \<lparr>h_zero = 0, f_zero = 0, f_add = (+), f_mul = (*)\<rparr>"

definition fallback_dot :: "real list \<Rightarrow> real list \<Rightarrow> nat \<Rightarrow> nat \<Rightarrow> nat \<Rightarrow> nat \<Rightarrow> real res" where
  "fallback_dot A B N K i j = rfold (\<lambda>k s. rbind (buf_at A (i * K + k)) (\<lambda>a.
     rbind (buf_at B (k * N + j)) (\<lambda>b. Inr (mac real_ops s a b)))) [0..<K] 0"

definition fallback_cell :: "gemm_desc \<Rightarrow> real list \<Rightarrow> real list \<Rightarrow> nat \<times> nat \<Rightarrow> real list \<Rightarrow> real list res" where
  "fallback_cell d A B ij C = (case ij of (i, j) \<Rightarrow>
     rbind (fallback_dot A B (gd_N d) (gd_K d) i j) (\<lambda>s.
       rbind (buf_at C (i * gd_N d + j)) (\<lambda>c.
         buf_set (i * gd_N d + j) (gd_alpha d * s + gd_beta d * c) C)))"

definition fallback_gemm :: "gemm_desc \<Rightarrow> real list \<Rightarrow> real list \<Rightarrow> real list \<Rightarrow> real list res" where
  "fallback_gemm d A B C =
     (if gd_dtype_a d \<noteq> FP32 then Inr C
      else rfold (\<lambda>i. rfold (\<lambda>j. fallback_cell d A B (i, j)) [0..<gd_N d]) [0..<gd_M d] C)"

text \<open>Which vendor library the build has; \<open>vendor_available\<close> is whether its handle was created.\<close>

datatype vendor_build = With_cublas | With_rocblas | No_vendor

record vendor_gemm =
  vg_build :: vendor_build
  vg_available :: bool
  vg_workspace :: "nat option"
  vg_workspace_size :: nat

text \<open>\<open>malloc\<close> is what the allocation of the workspace returns, \<open>None\<close> when it fails.\<close>

definition vendor_ctor :: "vendor_build \<Rightarrow> bool \<Rightarrow> nat option \<Rightarrow> vendor_gemm" where
  "vendor_ctor build create_ok malloc = (case build of
     With_cublas \<Rightarrow> \<lparr>vg_build = build, vg_available = create_ok, vg_workspace = (if create_ok then malloc else None),
       vg_workspace_size = (if create_ok \<and> malloc \<noteq> None then 32 * 1024 * 1024 else 0)\<rparr>
   | With_rocblas \<Rightarrow> \<lparr>vg_build = build, vg_available = create_ok, vg_workspace = None, vg_workspace_size = 0\<rparr>
   | No_vendor \<Rightarrow> \<lparr>vg_build = build, vg_available = False, vg_workspace = None, vg_workspace_size = 0\<rparr>)"

text \<open>The destructor on the device buffers alive. Only the build with cuBLASLt frees the workspace.\<close>

definition vendor_dtor :: "vendor_gemm \<Rightarrow> nat set \<Rightarrow> nat set" where
  "vendor_dtor v bufs = (if vg_build v = With_cublas then bufs - set_option (vg_workspace v) else bufs)"

definition set_workspace :: "nat option \<Rightarrow> nat \<Rightarrow> vendor_gemm \<Rightarrow> vendor_gemm" where
  "set_workspace p bytes v = v\<lparr>vg_workspace := p, vg_workspace_size := bytes\<rparr>"

text \<open>\<open>std::call_once\<close>: the first call constructs, \<open>built\<close> being what the constructor would build at each call.\<close>

definition global_gemm :: "vendor_gemm option \<Rightarrow> vendor_gemm \<Rightarrow> vendor_gemm \<times> vendor_gemm option" where
  "global_gemm inst built = (case inst of None \<Rightarrow> (built, Some built) | Some v \<Rightarrow> (v, Some v))"

definition backend_name :: "vendor_gemm \<Rightarrow> string" where
  "backend_name v = (case vg_build v of
     With_cublas \<Rightarrow> if vg_available v then ''cublasLt'' else ''AMP-fallback''
   | With_rocblas \<Rightarrow> if vg_available v then ''rocBLAS'' else ''AMP-fallback''
   | No_vendor \<Rightarrow> ''AMP-fallback'')"

type_synonym gemm_fun = "gemm_desc \<Rightarrow> real list \<Rightarrow> real list \<Rightarrow> real list \<Rightarrow> real list res"

definition vendor_gemm_run :: "gemm_fun \<Rightarrow> rocblas \<Rightarrow> vendor_gemm \<Rightarrow> gemm_fun" where
  "vendor_gemm_run cublas gemm_ex v d A B C =
     (if vg_available v then (case vg_build v of
         With_cublas \<Rightarrow> cublas d A B C
       | With_rocblas \<Rightarrow> rocblas_gemm_impl gemm_ex d A B C
       | No_vendor \<Rightarrow> fallback_gemm d A B C)
      else fallback_gemm d A B C)"

primrec batch_gemm :: "gemm_fun \<Rightarrow> gemm_desc \<Rightarrow> (real list \<times> real list \<times> real list) list \<Rightarrow> real list list res" where
  "batch_gemm gemm d [] = Inr []"
| "batch_gemm gemm d (x # xs) = (case x of (A, B, C) \<Rightarrow>
     rbind (gemm d A B C) (\<lambda>C'. rbind (batch_gemm gemm d xs) (\<lambda>Cs. Inr (C' # Cs))))"

text \<open>The convenience wrapper creates the global instance when it is first called.\<close>

definition uses_vendor_lib :: "vendor_gemm \<Rightarrow> bool" where
  "uses_vendor_lib v = vg_available v"

definition vendor_gemm_global :: "gemm_fun \<Rightarrow> rocblas \<Rightarrow> vendor_gemm option \<Rightarrow> vendor_gemm \<Rightarrow> gemm_desc \<Rightarrow>
    real list \<Rightarrow> real list \<Rightarrow> real list \<Rightarrow> (real list \<times> vendor_gemm option) res" where
  "vendor_gemm_global cublas gemm_ex inst built d A B C = (case global_gemm inst built of (v, inst') \<Rightarrow>
     rbind (vendor_gemm_run cublas gemm_ex v d A B C) (\<lambda>C'. Inr (C', inst')))"

lemma global_gemm_once: "global_gemm inst built = (v, inst') \<Longrightarrow> global_gemm inst' built' = (v, inst')"
  by (auto simp: global_gemm_def split: option.splits)

text \<open>
  Construction and destruction balance. With a workspace of the caller's in between, the own
  buffer is never freed and the caller's is freed under it.
\<close>

lemma workspace_life:
  "p \<notin> bufs \<Longrightarrow> v = vendor_ctor build ok (Some p) \<Longrightarrow> vendor_dtor v (bufs \<union> set_option (vg_workspace v)) = bufs"
  "p \<noteq> q \<Longrightarrow> v = vendor_ctor With_cublas True (Some p) \<Longrightarrow> bufs' = vendor_dtor (set_workspace (Some q) n v) {p, q} \<Longrightarrow>
    p \<in> bufs' \<and> q \<notin> bufs'"
  by (cases build) (auto simp: vendor_ctor_def vendor_dtor_def set_workspace_def)

section \<open>What they compute\<close>

text \<open>\<open>alpha * op(A) * op(B) + beta * C\<close>, for row-major matrices.\<close>

definition op_a :: "gemm_desc \<Rightarrow> real list \<Rightarrow> nat \<Rightarrow> nat \<Rightarrow> real" where
  "op_a d A i l = (if gd_transa d then A ! (l * gd_M d + i) else A ! (i * gd_K d + l))"

definition op_b :: "gemm_desc \<Rightarrow> real list \<Rightarrow> nat \<Rightarrow> nat \<Rightarrow> real" where
  "op_b d B l j = (if gd_transb d then B ! (j * gd_K d + l) else B ! (l * gd_N d + j))"

definition gemm_value :: "gemm_desc \<Rightarrow> real list \<Rightarrow> real list \<Rightarrow> real list \<Rightarrow> nat \<Rightarrow> nat \<Rightarrow> real" where
  "gemm_value d A B C i j = gd_alpha d * (\<Sum>l<gd_K d. op_a d A i l * op_b d B l j) + gd_beta d * C ! (i * gd_N d + j)"

text \<open>The documented behaviour of the library on column-major operands.\<close>

definition col_elem :: "bool \<Rightarrow> nat \<Rightarrow> real list \<Rightarrow> nat \<Rightarrow> nat \<Rightarrow> real" where
  "col_elem tr ld X r c = (if tr then X ! (r * ld + c) else X ! (c * ld + r))"

definition rocblas_spec :: "rocblas \<Rightarrow> bool" where
  "rocblas_spec gemm_ex \<longleftrightarrow> (\<forall>q X Y Z. rc_m q \<le> rc_ldc q \<and> rc_n q * rc_ldc q \<le> length Z \<longrightarrow> (\<exists>Z'. gemm_ex q X Y Z = Inr Z' \<and> length Z' = length Z \<and>
     (\<forall>r<rc_m q. \<forall>c<rc_n q. Z' ! (c * rc_ldc q + r) =
       rc_alpha q * (\<Sum>l<rc_k q. col_elem (rc_op1 q) (rc_ld1 q) X r l * col_elem (rc_op2 q) (rc_ld2 q) Y l c) +
       rc_beta q * Z ! (c * rc_ldc q + r))))"

lemma fold_mac_sum: "fold (\<lambda>k x. mac real_ops x (f k) (g k)) [0..<n] x = x + (\<Sum>k<n. f k * g k)"
  by (induction n) (simp_all add: mac_def real_ops_def)

lemma fallback_dot_ok:
  assumes "i < M" "j < N" "M * K \<le> length A" "length A < 2 ^ 31" "K * N \<le> length B" "length B < 2 ^ 31"
  shows "fallback_dot A B N K i j = Inr (\<Sum>l<K. A ! (i * K + l) * B ! (l * N + j))"
proof -
  have idx: "i * K + k < length A" "k * N + j < length B" if "k < K" for k
    using flat_index_less [OF assms(1) that] flat_index_less [OF that assms(2)] assms(3,5) by simp_all
  have "rfold (\<lambda>k s. rbind (buf_at A (i * K + k)) (\<lambda>a. rbind (buf_at B (k * N + j)) (\<lambda>b. Inr (mac real_ops s a b)))) ks x =
    Inr (fold (\<lambda>k x. mac real_ops x (A ! (i * K + k)) (B ! (k * N + j))) ks x)" if "set ks \<subseteq> {..<K}" for ks x
    using that assms(4,6) by (induction ks arbitrary: x) (auto simp: idx)
  from this [of "[0..<K]" 0] show ?thesis unfolding fallback_dot_def by (simp add: atLeast0LessThan fold_mac_sum)
qed

lemma rfold_map: "rfold f (map h xs) = rfold (\<lambda>x. f (h x)) xs"
  by (induction xs) (rule ext, simp)+

lemma pairs_flat:
  assumes "0 < n"
  shows "concat (map (\<lambda>i. map (Pair i) [0..<n]) [0..<m]) = map (\<lambda>p. (p div n, p mod n)) [0..<m * n]"
proof (induction m)
  case (Suc m)
  have "[0..<Suc m * n] = [0..<m * n] @ [m * n..<m * n + n]"
    using upt_add_eq_append [of 0 "m * n" n] by (simp add: add.commute)
  moreover have "map (\<lambda>p. (p div n, p mod n)) [m * n..<m * n + n] = map (Pair m) [0..<n]"
    using assms by (intro nth_equalityI) simp_all
  ultimately show ?case using Suc by simp
qed simp

lemma fallback_loops:
  "rfold (\<lambda>i. rfold (\<lambda>j. f (i, j)) [0..<n]) [0..<m] C = rfold (\<lambda>p. f (p div n, p mod n)) [0..<m * n] C"
proof (cases "n = 0")
  case True
  have "rfold (\<lambda>i. rfold (\<lambda>j. f (i, j)) []) xs C = Inr C" for xs :: "nat list" by (induction xs) simp_all
  with True show ?thesis by simp
next
  case False
  have "rfold (\<lambda>i. rfold (\<lambda>j. f (i, j)) [0..<n]) [0..<m] C =
    rfold (\<lambda>i. rfold f (map (Pair i) [0..<n])) [0..<m] C" by (simp add: rfold_map)
  also have "\<dots> = rfold f (map (\<lambda>p. (p div n, p mod n)) [0..<m * n]) C"
    using False by (simp only: rfold_concat pairs_flat neq0_conv)
  finally show ?thesis by (simp add: rfold_map)
qed

lemma fallback_gemm_ok:
  assumes "gd_dtype_a d = FP32" and "\<not> gd_transa d" "\<not> gd_transb d"
    and "gd_M d * gd_K d \<le> length A" "length A < 2 ^ 31" "gd_K d * gd_N d \<le> length B" "length B < 2 ^ 31"
    and "gd_M d * gd_N d \<le> length C" "length C < 2 ^ 31"
  shows "fallback_gemm d A B C =
    Inr (overwrite (\<lambda>p. gemm_value d A B C (p div gd_N d) (p mod gd_N d)) {0..<gd_M d * gd_N d} C)"
proof -
  let ?M = "gd_M d" and ?N = "gd_N d"
  let ?g = "\<lambda>p. gemm_value d A B C (p div ?N) (p mod ?N)"
  let ?f = "\<lambda>p. fallback_cell d A B (p div ?N, p mod ?N)"
  have cell: "?f p (overwrite ?g S C) = Inr (overwrite ?g (insert p S) C)"
    if "p \<in> set [0..<?M * ?N]" "p \<notin> S" for p S
  proof -
    have p: "p < ?M * ?N" "p < length C" using that(1) assms(8) by simp_all
    then have "0 < ?N" by (cases ?N) auto
    with p have ij: "p div ?N < ?M" "p mod ?N < ?N" by (simp_all add: less_mult_imp_div_less)
    have v: "gd_alpha d * (\<Sum>l<gd_K d. A ! (p div ?N * gd_K d + l) * B ! (l * ?N + p mod ?N)) + gd_beta d * C ! p = ?g p"
      using assms(2,3) by (simp add: gemm_value_def op_a_def op_b_def)
    have "?f p (overwrite ?g S C) = Inr ((overwrite ?g S C)[p := ?g p])"
      using fallback_dot_ok [OF ij assms(4-7)] p assms(9) that(2)
      by (simp add: fallback_cell_def overwrite_nth v)
    also have "(overwrite ?g S C)[p := ?g p] = overwrite ?g (insert p S) C"
      using overwrite_single [of p "overwrite ?g S C" ?g] p by (simp add: overwrite_Un)
    finally show ?thesis .
  qed
  have "fallback_gemm d A B C = rfold ?f [0..<?M * ?N] (overwrite ?g {} C)"
    using assms(1) by (simp add: fallback_gemm_def fallback_loops)
  also have "\<dots> = Inr (overwrite ?g ({} \<union> (\<lambda>p. p) ` set [0..<?M * ?N]) C)"
    by (rule rfold_update_once [where P = "\<lambda>p. p"]) (use cell in simp_all)
  finally show ?thesis by simp
qed

lemma rocblas_gemm_ok:
  assumes "rocblas_spec gemm_ex" and "to_rocblas_dtype (gd_dtype_a d) = Inr ta"
    "to_rocblas_dtype (gd_dtype_b d) = Inr tb" "to_rocblas_dtype (gd_dtype_c d) = Inr tc"
    and "gd_M d * gd_N d \<le> length C"
  shows "\<exists>C'. rocblas_gemm_impl gemm_ex d A B C = Inr C' \<and> length C' = length C \<and>
    (\<forall>i<gd_M d. \<forall>j<gd_N d. C' ! (i * gd_N d + j) = gemm_value d A B C i j)"
proof -
  let ?q = "\<lparr>rc_op1 = gd_transb d, rc_op2 = gd_transa d, rc_m = gd_N d, rc_n = gd_M d, rc_k = gd_K d,
    rc_alpha = gd_alpha d, rc_type1 = tb, rc_ld1 = if gd_transb d then gd_K d else gd_N d, rc_type2 = ta,
    rc_ld2 = if gd_transa d then gd_M d else gd_K d, rc_beta = gd_beta d, rc_typec = tc, rc_ldc = gd_N d\<rparr>"
  have "rocblas_gemm_impl gemm_ex d A B C = gemm_ex ?q B A C"
    using assms(2-4) by (simp add: rocblas_gemm_impl_def Let_def)
  moreover have "rc_m ?q \<le> rc_ldc ?q \<and> rc_n ?q * rc_ldc ?q \<le> length C" using assms(5) by simp
  with assms(1) obtain C' where "gemm_ex ?q B A C = Inr C'" "length C' = length C"
    "\<forall>r<rc_m ?q. \<forall>c<rc_n ?q. C' ! (c * rc_ldc ?q + r) =
       rc_alpha ?q * (\<Sum>l<rc_k ?q. col_elem (rc_op1 ?q) (rc_ld1 ?q) B r l * col_elem (rc_op2 ?q) (rc_ld2 ?q) A l c) +
       rc_beta ?q * C ! (c * rc_ldc ?q + r)" unfolding rocblas_spec_def by blast
  moreover have "col_elem (rc_op1 ?q) (rc_ld1 ?q) B j l * col_elem (rc_op2 ?q) (rc_ld2 ?q) A l i =
    op_a d A i l * op_b d B l j" for i j l
    by (simp add: col_elem_def op_a_def op_b_def mult.commute)
  ultimately show ?thesis by (simp add: gemm_value_def)
qed

section \<open>Properties\<close>

text \<open>
  The back ends agree on row-major matrices. Given a library that multiplies column-major
  matrices as documented, the swapped call computes \<open>alpha * op(A) * op(B) + beta * C\<close> at every element, for
  every combination of transposes and for sizes that are not square; the host fallback computes
  the same for FP32 without transposes, in the sizes an \<open>int\<close> can index. So a machine without the
  library gets the values of one that has it.
\<close>

theorem gemm_backends_agree:
  assumes "\<forall>q X Y Z. rc_m q \<le> rc_ldc q \<and> rc_n q * rc_ldc q \<le> length Z \<longrightarrow> (\<exists>Z'. gemm_ex q X Y Z = Inr Z' \<and> length Z' = length Z \<and>
     (\<forall>r<rc_m q. \<forall>c<rc_n q. Z' ! (c * rc_ldc q + r) =
       rc_alpha q * (\<Sum>l<rc_k q. col_elem (rc_op1 q) (rc_ld1 q) X r l * col_elem (rc_op2 q) (rc_ld2 q) Y l c) +
       rc_beta q * Z ! (c * rc_ldc q + r)))"
    and "to_rocblas_dtype (gd_dtype_a d) = Inr ta" "to_rocblas_dtype (gd_dtype_b d) = Inr tb"
      "to_rocblas_dtype (gd_dtype_c d) = Inr tc"
    and "gd_M d * gd_K d \<le> length A" "length A < 2 ^ 31" "gd_K d * gd_N d \<le> length B" "length B < 2 ^ 31"
    and "gd_M d * gd_N d \<le> length C" "length C < 2 ^ 31"
  shows "\<exists>C'. vendor_gemm_run cublas gemm_ex (vendor_ctor With_rocblas True m) d A B C = Inr C' \<and>
    (\<forall>i<gd_M d. \<forall>j<gd_N d. C' ! (i * gd_N d + j) = gemm_value d A B C i j) \<and>
    (gd_dtype_a d = FP32 \<and> \<not> gd_transa d \<and> \<not> gd_transb d \<longrightarrow>
      (\<exists>C''. vendor_gemm_run cublas gemm_ex (vendor_ctor build False m) d A B C = Inr C'' \<and>
        (\<forall>i<gd_M d. \<forall>j<gd_N d. C'' ! (i * gd_N d + j) = C' ! (i * gd_N d + j))))"
proof -
  have "rocblas_spec gemm_ex" using assms(1) unfolding rocblas_spec_def .
  from rocblas_gemm_ok [OF this assms(2-4,9)] obtain C' where
    C': "rocblas_gemm_impl gemm_ex d A B C = Inr C'"
    "\<forall>i<gd_M d. \<forall>j<gd_N d. C' ! (i * gd_N d + j) = gemm_value d A B C i j" by blast
  have run: "vendor_gemm_run cublas gemm_ex (vendor_ctor With_rocblas True m) d A B C = Inr C'"
    using C'(1) by (simp add: vendor_gemm_run_def vendor_ctor_def)
  have fb: "vendor_gemm_run cublas gemm_ex (vendor_ctor build False m) d A B C = fallback_gemm d A B C"
    by (cases build) (simp_all add: vendor_gemm_run_def vendor_ctor_def)
  let ?C = "overwrite (\<lambda>p. gemm_value d A B C (p div gd_N d) (p mod gd_N d)) {0..<gd_M d * gd_N d} C"
  have "?C ! (i * gd_N d + j) = gemm_value d A B C i j" if "i < gd_M d" "j < gd_N d" for i j
    using flat_index_less [OF that] that assms(9) by (simp add: overwrite_nth)
  with run C'(2) fb fallback_gemm_ok [OF _ _ _ assms(5-10)] show ?thesis by auto
qed

definition ref_rocblas :: rocblas where
  "ref_rocblas q X Y Z = Inr (map (\<lambda>p. if p mod rc_ldc q < rc_m q \<and> p div rc_ldc q < rc_n q
     then rc_alpha q * (\<Sum>l<rc_k q. col_elem (rc_op1 q) (rc_ld1 q) X (p mod rc_ldc q) l *
         col_elem (rc_op2 q) (rc_ld2 q) Y l (p div rc_ldc q)) + rc_beta q * Z ! p
     else Z ! p) [0..<length Z])"


definition demo_desc :: gemm_desc where
  "demo_desc = default_desc\<lparr>gd_M := 1, gd_N := 2, gd_K := 2, gd_dtype_a := FP32, gd_dtype_b := FP32, gd_alpha := 2, gd_beta := 1\<rparr>"

lemma ref_rocblas_spec: "rocblas_spec ref_rocblas"
  unfolding rocblas_spec_def
proof (intro allI impI)
  fix q :: rocblas_call and X Y Z :: "real list"
  assume q: "rc_m q \<le> rc_ldc q \<and> rc_n q * rc_ldc q \<le> length Z"
  have idx: "c * rc_ldc q + r < length Z" if "r < rc_m q" "c < rc_n q" for r c
    using flat_index_less [of c "rc_n q" r "rc_ldc q"] that q by simp
  have dm: "(c * rc_ldc q + r) mod rc_ldc q = r" "(c * rc_ldc q + r) div rc_ldc q = c" if "r < rc_m q" for r c
    using that q by simp_all
  show "\<exists>Z'. ref_rocblas q X Y Z = Inr Z' \<and> length Z' = length Z \<and>
    (\<forall>r<rc_m q. \<forall>c<rc_n q. Z' ! (c * rc_ldc q + r) =
      rc_alpha q * (\<Sum>l<rc_k q. col_elem (rc_op1 q) (rc_ld1 q) X r l * col_elem (rc_op2 q) (rc_ld2 q) Y l c) +
      rc_beta q * Z ! (c * rc_ldc q + r))"
    using dm(1) [of _ 0] by (simp add: ref_rocblas_def idx dm)
qed

theorem gemm_backends_agree_witness:
  "\<exists>C'. vendor_gemm_run fallback_gemm ref_rocblas (vendor_ctor With_rocblas True None) demo_desc
      [1, 2] [3, 4, 5, 6] [7, 8] = Inr C' \<and> C' ! 0 = 33 \<and> C' ! 1 = 40"
proof -
  note [simp] = demo_desc_def default_desc_def
  have "\<exists>C'. vendor_gemm_run fallback_gemm ref_rocblas (vendor_ctor With_rocblas True None) demo_desc
      [1, 2] [3, 4, 5, 6] [7, 8] = Inr C' \<and>
    (\<forall>i<gd_M demo_desc. \<forall>j<gd_N demo_desc. C' ! (i * gd_N demo_desc + j) =
      gemm_value demo_desc [1, 2] [3, 4, 5, 6] [7, 8] i j) \<and>
    (gd_dtype_a demo_desc = FP32 \<and> \<not> gd_transa demo_desc \<and> \<not> gd_transb demo_desc \<longrightarrow>
      (\<exists>C''. vendor_gemm_run fallback_gemm ref_rocblas (vendor_ctor No_vendor False None) demo_desc
          [1, 2] [3, 4, 5, 6] [7, 8] = Inr C'' \<and>
        (\<forall>i<gd_M demo_desc. \<forall>j<gd_N demo_desc. C'' ! (i * gd_N demo_desc + j) = C' ! (i * gd_N demo_desc + j))))"
    by (rule gemm_backends_agree [OF ref_rocblas_spec [unfolded rocblas_spec_def]]) simp_all
  then obtain C' where C': "vendor_gemm_run fallback_gemm ref_rocblas (vendor_ctor With_rocblas True None) demo_desc
      [1, 2] [3, 4, 5, 6] [7, 8] = Inr C'"
    "\<forall>i<gd_M demo_desc. \<forall>j<gd_N demo_desc. C' ! (i * gd_N demo_desc + j) =
      gemm_value demo_desc [1, 2] [3, 4, 5, 6] [7, 8] i j" by blast
  from C'(2) have "C' ! 0 = gemm_value demo_desc [1, 2] [3, 4, 5, 6] [7, 8] 0 0"
    "C' ! 1 = gemm_value demo_desc [1, 2] [3, 4, 5, 6] [7, 8] 0 1" by auto
  then show ?thesis using C'(1)
    by (simp add: gemm_value_def op_a_def op_b_def numeral_2_eq_2)
qed

text \<open>
  The fallback reads neither the transpose flags nor, for any element type but FP32, the matrices:
  with the default descriptor (BF16) it leaves the result as it was and reports nothing.
\<close>

theorem fallback_skips_work:
  "gd_dtype_a d \<noteq> FP32 \<Longrightarrow> fallback_gemm d A B C = Inr C"
  "fallback_gemm (d\<lparr>gd_transa := x, gd_transb := y\<rparr>) A B C = fallback_gemm d A B C"
proof -
  have "fallback_cell (d\<lparr>gd_transa := x, gd_transb := y\<rparr>) = fallback_cell d"
    by (simp add: fallback_cell_def fun_eq_iff)
  then show "fallback_gemm (d\<lparr>gd_transa := x, gd_transb := y\<rparr>) A B C = fallback_gemm d A B C"
    by (simp add: fallback_gemm_def)
qed (simp add: fallback_gemm_def)

end
