(* ===== verification/Collective.thy ===== *)
theory Collective
  imports Gemm_Vendor
begin

text \<open>
  Collective communication (include/collective.hpp, src/collective.cpp): the NCCL/RCCL back end, which
  keeps a heap-allocated communicator per group and passes every operation on to the library,
  and the stub that is built without a library. The library is the parameter \<open>nccl\<close>, which says of
  each call whether it succeeds; a call that fails is an exception after which the caller may go on.
\<close>

section \<open>Groups\<close>

record comm_group =
  gr_handle :: "nat option"
  gr_rank :: int
  gr_world :: int
  gr_device :: int
  gr_initialized :: bool

definition fresh_group :: comm_group where
  "fresh_group = \<lparr>gr_handle = None, gr_rank = 0, gr_world = 1, gr_device = 0, gr_initialized = False\<rparr>"

datatype reduce_op = R_SUM | R_MAX | R_MIN | R_PROD
datatype nccl_type = N_float32 | N_bfloat16 | N_float16 | N_int8 | N_int32
datatype nccl_op = N_sum | N_max | N_min | N_prod

fun to_nccl_dtype :: "data_type \<Rightarrow> nccl_type res" where
  "to_nccl_dtype FP32 = Inr N_float32"
| "to_nccl_dtype BF16 = Inr N_bfloat16"
| "to_nccl_dtype FP16 = Inr N_float16"
| "to_nccl_dtype INT8 = Inr N_int8"
| "to_nccl_dtype INT32 = Inr N_int32"
| "to_nccl_dtype _ = Inl (Runtime_error ''unsupported dtype for NCCL'')"

fun to_nccl_op :: "reduce_op \<Rightarrow> nccl_op" where
  "to_nccl_op R_SUM = N_sum"
| "to_nccl_op R_MAX = N_max"
| "to_nccl_op R_MIN = N_min"
| "to_nccl_op R_PROD = N_prod"

text \<open>The RCCL text of the two conversions; its types name the same values.\<close>

definition to_rccl_dtype :: "data_type \<Rightarrow> nccl_type res" where
  "to_rccl_dtype dt = (case dt of
       FP32 \<Rightarrow> Inr N_float32
     | BF16 \<Rightarrow> Inr N_bfloat16
     | FP16 \<Rightarrow> Inr N_float16
     | INT8 \<Rightarrow> Inr N_int8
     | INT32 \<Rightarrow> Inr N_int32
     | _ \<Rightarrow> Inl (Runtime_error ''unsupported dtype for RCCL''))"

definition to_rccl_op :: "reduce_op \<Rightarrow> nccl_op" where
  "to_rccl_op op = (case op of R_SUM \<Rightarrow> N_sum | R_MAX \<Rightarrow> N_max | R_MIN \<Rightarrow> N_min | R_PROD \<Rightarrow> N_prod)"

lemma rccl_as_nccl:
  "to_rccl_dtype dt = Inr t \<longleftrightarrow> to_nccl_dtype dt = Inr t" "to_rccl_op = to_nccl_op"
  by (cases dt; simp add: to_rccl_dtype_def) (auto simp: fun_eq_iff to_rccl_op_def split: reduce_op.splits)

text \<open>What is asked of the library; \<open>nat\<close> arguments are handles of communicators.\<close>

datatype nccl_call =
    Comm_init_rank int int
  | Comm_init_all nat
  | Comm_destroy nat
  | All_reduce nat nat nccl_type nccl_op
  | Bcast nat nat nccl_type int
  | All_gather nat nat nccl_type
  | Reduce_scatter nat nat nccl_type nccl_op
  | Send nat nat nccl_type int
  | Recv nat nat nccl_type int

type_synonym nccl = "nccl_call \<Rightarrow> bool"

definition nccl_check :: "nccl \<Rightarrow> nccl_call \<Rightarrow> unit res" where
  "nccl_check nccl c = (if nccl c then Inr () else Inl (Runtime_error ''NCCL error''))"

section \<open>Operations\<close>

text \<open>The groups of a process and the communicators on its heap.\<close>

record coll =
  co_groups :: "comm_group list"
  co_live :: "nat list"
  co_next :: nat

definition to_comm :: "coll \<Rightarrow> comm_group \<Rightarrow> nat res" where
  "to_comm s g = (case gr_handle g of
     None \<Rightarrow> Inl Null_UB
   | Some h \<Rightarrow> if h \<in> set (co_live s) then Inr h else Inl Use_after_free)"

definition new_comm :: "coll \<Rightarrow> nat \<times> coll" where
  "new_comm s = (co_next s, s\<lparr>co_live := co_next s # co_live s, co_next := co_next s + 1\<rparr>)"

text \<open>
  \<open>comm_init_rank\<close> on group \<open>i\<close>. Every operation returns the exception it ended in, if any, and the state,
  which an exception does not undo: the communicator allocated before a failing call stays.
\<close>

definition comm_init_rank :: "nccl \<Rightarrow> nat \<Rightarrow> int \<Rightarrow> int \<Rightarrow> int \<Rightarrow> coll \<Rightarrow> fault option \<times> coll" where
  "comm_init_rank nccl i rank world dev s = (case new_comm s of (h, s1) \<Rightarrow>
     case nccl_check nccl (Comm_init_rank world rank) of
       Inl f \<Rightarrow> (Some f, s1)
     | Inr _ \<Rightarrow> (None, s1\<lparr>co_groups := (co_groups s1)[i := \<lparr>gr_handle = Some h, gr_rank = rank, gr_world = world,
         gr_device = dev, gr_initialized = True\<rparr>]\<rparr>))"

primrec init_all_loop :: "nat \<Rightarrow> nat list \<Rightarrow> coll \<Rightarrow> coll" where
  "init_all_loop n [] s = s"
| "init_all_loop n (i # is) s = (case new_comm s of (h, s1) \<Rightarrow>
     init_all_loop n is (s1\<lparr>co_groups := (co_groups s1)[i := \<lparr>gr_handle = Some h, gr_rank = int i, gr_world = int n,
       gr_device = int i, gr_initialized = True\<rparr>]\<rparr>))"

definition resize_groups :: "nat \<Rightarrow> coll \<Rightarrow> coll" where
  "resize_groups n s = s\<lparr>co_groups := take n (co_groups s) @ replicate (n - length (co_groups s)) fresh_group\<rparr>"

definition local_device_count :: "int \<Rightarrow> nat" where
  "local_device_count n = (if n > 0 then nat n else 1)"

definition comm_init_all :: "nccl \<Rightarrow> int \<Rightarrow> coll \<Rightarrow> fault option \<times> coll" where
  "comm_init_all nccl devs s = (let n = local_device_count devs; s1 = resize_groups n s in
     case nccl_check nccl (Comm_init_all n) of
       Inl f \<Rightarrow> (Some f, s1)
     | Inr _ \<Rightarrow> (None, init_all_loop n [0..<n] s1))"

definition comm_destroy :: "nccl \<Rightarrow> nat \<Rightarrow> coll \<Rightarrow> fault option \<times> coll" where
  "comm_destroy nccl i s = (let g = co_groups s ! i in
     if \<not> gr_initialized g then (None, s)
     else case to_comm s g of
         Inl f \<Rightarrow> (Some f, s)
       | Inr h \<Rightarrow> (case nccl_check nccl (Comm_destroy h) of
           Inl f \<Rightarrow> (Some f, s)
         | Inr _ \<Rightarrow> (None, s\<lparr>co_live := remove1 h (co_live s),
             co_groups := (co_groups s)[i := g\<lparr>gr_handle := None, gr_initialized := False\<rparr>]\<rparr>)))"

text \<open>The operations of a group on a buffer of \<open>count\<close> elements.\<close>

datatype coll_op =
    Op_allreduce nat data_type reduce_op
  | Op_broadcast nat data_type int
  | Op_allgather nat data_type
  | Op_reduce_scatter nat data_type reduce_op
  | Op_send nat data_type int
  | Op_recv nat data_type int
  | Op_barrier

fun op_call :: "coll_op \<Rightarrow> nat \<Rightarrow> nccl_call res" where
  "op_call (Op_allreduce n dt op) h = rbind (to_nccl_dtype dt) (\<lambda>t. Inr (All_reduce h n t (to_nccl_op op)))"
| "op_call (Op_broadcast n dt rt) h = rbind (to_nccl_dtype dt) (\<lambda>t. Inr (Bcast h n t rt))"
| "op_call (Op_allgather n dt) h = rbind (to_nccl_dtype dt) (\<lambda>t. Inr (All_gather h n t))"
| "op_call (Op_reduce_scatter n dt op) h = rbind (to_nccl_dtype dt) (\<lambda>t. Inr (Reduce_scatter h n t (to_nccl_op op)))"
| "op_call (Op_send n dt peer) h = rbind (to_nccl_dtype dt) (\<lambda>t. Inr (Send h n t peer))"
| "op_call (Op_recv n dt peer) h = rbind (to_nccl_dtype dt) (\<lambda>t. Inr (Recv h n t peer))"
| "op_call Op_barrier h = Inr (All_reduce h 1 N_float32 N_sum)"

definition coll_run_op :: "nccl \<Rightarrow> nat \<Rightarrow> coll_op \<Rightarrow> coll \<Rightarrow> unit res" where
  "coll_run_op nccl i op s =
     rbind (to_comm s (co_groups s ! i)) (\<lambda>h. rbind (op_call op h) (nccl_check nccl))"

text \<open>
  The identifier for the bootstrap: the library's bytes in a buffer of 128, read back by every rank.
  A \<open>static_assert\<close> makes sure that they fit.
\<close>

definition kBytes :: nat where
  "kBytes = 128"

definition comm_get_unique_id :: "byte list \<Rightarrow> byte list" where
  "comm_get_unique_id nid = nid @ replicate (kBytes - length nid) 0"

definition read_unique_id :: "nat \<Rightarrow> byte list \<Rightarrow> byte list" where
  "read_unique_id n uid = take n uid"

lemma unique_id_roundtrip: "length nid \<le> kBytes \<Longrightarrow>
    length (comm_get_unique_id nid) = kBytes \<and> read_unique_id (length nid) (comm_get_unique_id nid) = nid"
  by (simp add: comm_get_unique_id_def read_unique_id_def)

text \<open>
  The barrier is an all-reduce of one element in a device buffer of its own. The result of the
  allocation \<open>p\<close> is not checked: after a failure the code goes on with an indeterminate pointer. \<open>bufs\<close> are the
  device buffers alive.
\<close>

definition coll_barrier :: "nccl \<Rightarrow> nat option \<Rightarrow> nat \<Rightarrow> coll \<Rightarrow> nat set \<Rightarrow> nat set \<times> unit res" where
  "coll_barrier nccl p i s bufs = (case p of
     None \<Rightarrow> (bufs, Inl Precondition_UB)
   | Some q \<Rightarrow> (case coll_run_op nccl i Op_barrier s of
       Inl f \<Rightarrow> (insert q bufs, Inl f)
     | Inr _ \<Rightarrow> (insert q bufs - {q}, Inr ())))"

lemma coll_barrier_buffer: "q \<notin> bufs \<Longrightarrow> coll_barrier nccl (Some q) i s bufs = (bufs', r) \<Longrightarrow> q \<in> bufs' \<longleftrightarrow> r \<noteq> Inr ()"
  by (auto simp: coll_barrier_def split: sum.splits)

section \<open>The stub\<close>

definition stub_init_rank :: "int \<Rightarrow> int \<Rightarrow> int \<Rightarrow> comm_group \<Rightarrow> comm_group" where
  "stub_init_rank rank world dev g = g\<lparr>gr_rank := rank, gr_world := world, gr_device := dev, gr_initialized := True\<rparr>"

definition stub_init_all :: "comm_group list \<Rightarrow> comm_group list" where
  "stub_init_all gs = [stub_init_rank 0 1 0 (hd (gs @ [fresh_group]))]"

definition stub_get_unique_id :: "byte list" where
  "stub_get_unique_id = replicate kBytes 0"

text \<open>\<open>devs\<close>: what the CUDA or HIP run time reports, \<open>None\<close> in a build with neither.\<close>

definition stub_device_count :: "int option \<Rightarrow> int" where
  "stub_device_count devs = (case devs of None \<Rightarrow> 1 | Some n \<Rightarrow> if n > 0 then n else 1)"

definition stub_destroy :: "comm_group \<Rightarrow> comm_group" where
  "stub_destroy g = g\<lparr>gr_initialized := False\<rparr>"

definition check_collective :: "unit res" where
  "check_collective = Inl (Runtime_error ''No collective backend linked. Build with -DAMP_HAVE_NCCL, -DAMP_HAVE_RCCL, or -DAMP_HAVE_ONECCL.'')"

definition stub_run_op :: "coll_op \<Rightarrow> comm_group \<Rightarrow> unit res" where
  "stub_run_op op g = (if op \<noteq> Op_barrier \<and> gr_world g > 1 then check_collective else Inr ())"

section \<open>Reachable states\<close>

inductive coll_reach :: "nccl \<Rightarrow> coll \<Rightarrow> bool" for nccl :: nccl where
  start: "coll_reach nccl \<lparr>co_groups = replicate n fresh_group, co_live = [], co_next = 0\<rparr>"
| init_rank: "coll_reach nccl s \<Longrightarrow> comm_init_rank nccl i rank world dev s = (f, s') \<Longrightarrow> coll_reach nccl s'"
| init_all: "coll_reach nccl s \<Longrightarrow> comm_init_all nccl devs s = (f, s') \<Longrightarrow> coll_reach nccl s'"
| destroy: "coll_reach nccl s \<Longrightarrow> i < length (co_groups s) \<Longrightarrow> comm_destroy nccl i s = (f, s') \<Longrightarrow> coll_reach nccl s'"

text \<open>Every initialised group owns a live communicator of its own.\<close>

definition coll_inv :: "coll \<Rightarrow> bool" where
  "coll_inv s \<longleftrightarrow>
     (\<forall>g\<in>set (co_groups s). gr_initialized g \<longleftrightarrow> gr_handle g \<noteq> None) \<and>
     (\<forall>i<length (co_groups s). \<forall>h. gr_handle (co_groups s ! i) = Some h \<longrightarrow> h \<in> set (co_live s)) \<and>
     (\<forall>i<length (co_groups s). \<forall>j<length (co_groups s). \<forall>h.
       gr_handle (co_groups s ! i) = Some h \<and> gr_handle (co_groups s ! j) = Some h \<longrightarrow> i = j) \<and>
     distinct (co_live s) \<and> (\<forall>h\<in>set (co_live s). h < co_next s)"

lemma update_all: "\<forall>x\<in>set xs. P x \<Longrightarrow> P y \<Longrightarrow> \<forall>x\<in>set (xs[i := y]). P x"
  using set_update_subset_insert [of xs i y] by blast

lemma coll_invD:
  assumes "coll_inv s"
  shows "\<forall>g\<in>set (co_groups s). gr_initialized g \<longleftrightarrow> gr_handle g \<noteq> None"
    and "i < length (co_groups s) \<Longrightarrow> gr_handle (co_groups s ! i) = Some h \<Longrightarrow> h \<in> set (co_live s)"
    and "i < length (co_groups s) \<Longrightarrow> j < length (co_groups s) \<Longrightarrow> gr_handle (co_groups s ! i) = Some h \<Longrightarrow>
      gr_handle (co_groups s ! j) = Some h \<Longrightarrow> i = j"
    and "distinct (co_live s)" and "h \<in> set (co_live s) \<Longrightarrow> h < co_next s"
  using assms unfolding coll_inv_def by blast+

lemma coll_invI:
  assumes "\<forall>g\<in>set (co_groups s). gr_initialized g \<longleftrightarrow> gr_handle g \<noteq> None"
    and "\<And>i h. i < length (co_groups s) \<Longrightarrow> gr_handle (co_groups s ! i) = Some h \<Longrightarrow> h \<in> set (co_live s)"
    and "\<And>i j h. i < length (co_groups s) \<Longrightarrow> j < length (co_groups s) \<Longrightarrow> gr_handle (co_groups s ! i) = Some h \<Longrightarrow>
      gr_handle (co_groups s ! j) = Some h \<Longrightarrow> i = j"
    and "distinct (co_live s)" and "\<And>h. h \<in> set (co_live s) \<Longrightarrow> h < co_next s"
  shows "coll_inv s"
  using assms unfolding coll_inv_def by blast

lemma coll_inv_new:
  assumes "coll_inv s" and "new_comm s = (h, s1)"
  shows "coll_inv s1" and "coll_inv (s1\<lparr>co_groups := (co_groups s1)[i := \<lparr>gr_handle = Some h, gr_rank = r,
    gr_world = w, gr_device = d, gr_initialized = True\<rparr>]\<rparr>)"
proof -
  note inv = coll_invD [OF assms(1)]
  have s1: "s1 = s\<lparr>co_live := h # co_live s, co_next := Suc h\<rparr>" and h: "h = co_next s"
    using assms(2) by (auto simp: new_comm_def)
  have nxt: "h \<notin> set (co_live s)" using inv(5) h by blast
  have fresh: "gr_handle (co_groups s ! j) \<noteq> Some h" if "j < length (co_groups s)" for j
    using inv(2) [OF that] nxt by blast
  have live: "distinct (h # co_live s)" "k \<in> set (h # co_live s) \<Longrightarrow> k < Suc h" for k
    using inv(4) nxt inv(5) [of k] h by auto
  show "coll_inv s1"
  proof (rule coll_invI)
    show "i = j" if "i < length (co_groups s1)" "j < length (co_groups s1)" "gr_handle (co_groups s1 ! i) = Some k"
      "gr_handle (co_groups s1 ! j) = Some k" for i j k using inv(3) that unfolding s1 by simp
  qed (use inv(1,2) live in \<open>auto simp: s1\<close>)
  let ?g = "\<lparr>gr_handle = Some h, gr_rank = r, gr_world = w, gr_device = d, gr_initialized = True\<rparr>"
  let ?s = "s1\<lparr>co_groups := (co_groups s1)[i := ?g]\<rparr>"
  have handle: "k < length (co_groups s) \<and> (k = i \<and> l = h \<or> k \<noteq> i \<and> gr_handle (co_groups s ! k) = Some l \<and> l \<noteq> h)"
    if "k < length (co_groups ?s)" "gr_handle (co_groups ?s ! k) = Some l" for k l
    using that fresh [of k] unfolding s1 by (cases "k = i") auto
  show "coll_inv ?s"
  proof (rule coll_invI)
    show "\<forall>g\<in>set (co_groups ?s). gr_initialized g \<longleftrightarrow> gr_handle g \<noteq> None"
      unfolding s1 using update_all [OF inv(1), of ?g i] by simp
    show "l \<in> set (co_live ?s)" if "k < length (co_groups ?s)" "gr_handle (co_groups ?s ! k) = Some l" for k l
      using handle [OF that] inv(2) [of k l] unfolding s1 by auto
    show "k = m" if "k < length (co_groups ?s)" "m < length (co_groups ?s)" "gr_handle (co_groups ?s ! k) = Some l"
      "gr_handle (co_groups ?s ! m) = Some l" for k m l
      using handle [OF that(1,3)] handle [OF that(2,4)] inv(3) [of k m l] by blast
  qed (use live in \<open>auto simp: s1\<close>)
qed

lemma coll_inv_init_all: "coll_inv s \<Longrightarrow> coll_inv (init_all_loop n is s)"
proof (induction "is" arbitrary: s)
  case (Cons i "is")
  obtain h s1 where "new_comm s = (h, s1)" by force
  with Cons coll_inv_new(2) show ?case by simp
qed simp

lemma coll_inv_resize: "coll_inv s \<Longrightarrow> coll_inv (resize_groups n s)"
  unfolding coll_inv_def resize_groups_def
  by (auto simp: nth_append fresh_group_def dest: in_set_takeD split: if_splits)

lemma coll_inv_destroy:
  assumes "coll_inv s" "i < length (co_groups s)" "comm_destroy nccl i s = (f, s')"
  shows "coll_inv s'"
proof (cases "s' = s")
  case False
  let ?g = "co_groups s ! i"
  from False assms(3) obtain h where h: "to_comm s ?g = Inr h" "s' = s\<lparr>co_live := remove1 h (co_live s),
      co_groups := (co_groups s)[i := ?g\<lparr>gr_handle := None, gr_initialized := False\<rparr>]\<rparr>"
    by (auto simp: comm_destroy_def Let_def split: if_splits sum.splits)
  then have own: "gr_handle ?g = Some h" by (auto simp: to_comm_def split: option.splits if_splits)
  have other: "gr_handle (co_groups s ! j) \<noteq> Some h" if "j < length (co_groups s)" "j \<noteq> i" for j
    using assms(1,2) own that unfolding coll_inv_def by blast
  note inv = coll_invD [OF assms(1)]
  have live: "set (remove1 h (co_live s)) = set (co_live s) - {h}" using inv(4) by (simp add: set_remove1_eq)
  have handle: "k < length (co_groups s) \<and> k \<noteq> i \<and> gr_handle (co_groups s ! k) = Some l"
    if "k < length (co_groups s')" "gr_handle (co_groups s' ! k) = Some l" for k l
    using that unfolding h(2) by (cases "k = i") auto
  show ?thesis
  proof (rule coll_invI)
    show "\<forall>g\<in>set (co_groups s'). gr_initialized g \<longleftrightarrow> gr_handle g \<noteq> None"
      unfolding h(2) using update_all [OF inv(1), of "?g\<lparr>gr_handle := None, gr_initialized := False\<rparr>" i] by simp
    show "l \<in> set (co_live s')" if "k < length (co_groups s')" "gr_handle (co_groups s' ! k) = Some l" for k l
      using handle [OF that] inv(2) [of k l] other [of k] live unfolding h(2) by auto
    show "k = m" if "k < length (co_groups s')" "m < length (co_groups s')" "gr_handle (co_groups s' ! k) = Some l"
      "gr_handle (co_groups s' ! m) = Some l" for k m l
      using handle [OF that(1,3)] handle [OF that(2,4)] inv(3) [of k m l] by blast
  qed (use inv(4,5) live in \<open>auto simp: h(2)\<close>)
qed (use assms in simp)

lemma coll_reach_inv: "coll_reach nccl s \<Longrightarrow> coll_inv s"
proof (induction rule: coll_reach.induct)
  case (start n)
  show ?case by (auto simp: coll_inv_def fresh_group_def)
next
  case (init_rank s i rank world dev f s')
  obtain h s1 where "new_comm s = (h, s1)" by force
  with init_rank coll_inv_new [of s h s1] show ?case
    by (auto simp: comm_init_rank_def split: sum.splits)
next
  case (init_all s devs f s')
  then show ?case
    by (auto simp: comm_init_all_def Let_def coll_inv_init_all coll_inv_resize split: sum.splits)
next
  case (destroy s i f s')
  then show ?case by (blast intro: coll_inv_destroy)
qed

section \<open>The contract of a back end\<close>

text \<open>
  What a back end promises of the operations that create and destroy communicators, and what its
  users get from it after any sequence of calls.
\<close>

datatype 'd comm_call = Call_init_rank nat int int int | Call_init_all 'd | Call_destroy nat

locale comm_backend =
  fixes init_rank :: "nat \<Rightarrow> int \<Rightarrow> int \<Rightarrow> int \<Rightarrow> coll \<Rightarrow> fault option \<times> coll"
    and init_all :: "'d \<Rightarrow> coll \<Rightarrow> fault option \<times> coll"
    and destroy :: "nat \<Rightarrow> coll \<Rightarrow> fault option \<times> coll"
  assumes init_rank_inv: "coll_inv s \<Longrightarrow> coll_inv (snd (init_rank i r w d s))"
    and init_all_inv: "coll_inv s \<Longrightarrow> coll_inv (snd (init_all ds s))"
    and destroy_inv: "coll_inv s \<Longrightarrow> i < length (co_groups s) \<Longrightarrow> coll_inv (snd (destroy i s))"
    and destroy_done: "i < length (co_groups s) \<Longrightarrow> destroy i s = (None, s') \<Longrightarrow>
      \<not> gr_initialized (co_groups s' ! i) \<and> destroy i s' = (None, s')"
begin

fun call :: "'d comm_call \<Rightarrow> coll \<Rightarrow> coll" where
  "call (Call_init_rank i r w d) s = snd (init_rank i r w d s)"
| "call (Call_init_all ds) s = snd (init_all ds s)"
| "call (Call_destroy i) s = (if i < length (co_groups s) then snd (destroy i s) else s)"

lemma call_inv: "coll_inv s \<Longrightarrow> coll_inv (call c s)"
  by (cases c) (simp_all add: init_rank_inv init_all_inv destroy_inv)

lemma calls_inv: "coll_inv s \<Longrightarrow> coll_inv (fold call cs s)"
  by (induction cs arbitrary: s) (simp_all add: call_inv)

lemma handle_live:
  assumes "coll_inv s" and "s' = fold call cs s" and "i < length (co_groups s')"
  shows "if gr_initialized (co_groups s' ! i) then \<exists>h\<in>set (co_live s'). to_comm s' (co_groups s' ! i) = Inr h
    else to_comm s' (co_groups s' ! i) = Inl Null_UB"
proof -
  have inv: "coll_inv s'" unfolding assms(2) by (rule calls_inv [OF assms(1)])
  have "gr_initialized (co_groups s' ! i) \<longleftrightarrow> gr_handle (co_groups s' ! i) \<noteq> None"
    using coll_invD(1) [OF inv] assms(3) by simp
  with coll_invD(2) [OF inv assms(3)] show ?thesis by (auto simp: to_comm_def)
qed

end

lemma comm_init_rank_inv: "coll_inv s \<Longrightarrow> coll_inv (snd (comm_init_rank nccl i r w d s))"
  using coll_inv_new [of s] by (cases "new_comm s") (auto simp: comm_init_rank_def split: sum.splits)

interpretation nccl: comm_backend "comm_init_rank nccl" "comm_init_all nccl" "comm_destroy nccl"
proof
  fix s :: coll and devs :: int assume "coll_inv s"
  then show "coll_inv (snd (comm_init_all nccl devs s))"
    by (auto simp: comm_init_all_def Let_def coll_inv_init_all coll_inv_resize split: sum.splits)
next
  fix s :: coll and i assume "coll_inv s" "i < length (co_groups s)"
  then show "coll_inv (snd (comm_destroy nccl i s))" using coll_inv_destroy [of s i nccl] by (metis prod.collapse)
next
  fix s s' :: coll and i assume "i < length (co_groups s)" "comm_destroy nccl i s = (None, s')"
  then show "\<not> gr_initialized (co_groups s' ! i) \<and> comm_destroy nccl i s' = (None, s')"
    by (auto simp: comm_destroy_def Let_def split: if_splits sum.splits)
qed (rule comm_init_rank_inv)

section \<open>Properties\<close>



text \<open>
  Without a library an operation of a single-rank group does nothing, one of a larger group is an
  exception, except that a barrier returns at once for any number of ranks. A communicator that
  the library failed to initialise is never freed.
\<close>

theorem stub_ops: "stub_run_op op g = Inr () \<longleftrightarrow> op = Op_barrier \<or> gr_world g \<le> 1"
  by (auto simp: stub_run_op_def check_collective_def)

theorem failed_init_leaks:
  "comm_init_rank (\<lambda>_. False) i r w d s = (Some (Runtime_error ''NCCL error''),
    s\<lparr>co_live := co_next s # co_live s, co_next := co_next s + 1\<rparr>)"
  by (simp add: comm_init_rank_def new_comm_def nccl_check_def)

end
