(* ===== verification/Collective_Oneccl.thy ===== *)
theory Collective_Oneccl
  imports Collective
begin

text \<open>
  The oneCCL back end of the collectives (src/collective.cpp). It offers the operations of the NCCL
  back end on the same groups; the library is the parameter \<open>ccl\<close>, which says of each call whether it succeeds, and
  a failing call throws.
\<close>

section \<open>Calls of the library\<close>

datatype ccl_type = Ccl_float32 | Ccl_bfloat16 | Ccl_float16 | Ccl_int8 | Ccl_int32
datatype ccl_red = Ccl_sum | Ccl_max | Ccl_min | Ccl_prod

fun to_ccl_dtype :: "data_type \<Rightarrow> ccl_type res" where
  "to_ccl_dtype FP32 = Inr Ccl_float32"
| "to_ccl_dtype BF16 = Inr Ccl_bfloat16"
| "to_ccl_dtype FP16 = Inr Ccl_float16"
| "to_ccl_dtype INT8 = Inr Ccl_int8"
| "to_ccl_dtype INT32 = Inr Ccl_int32"
| "to_ccl_dtype _ = Inl (Runtime_error ''unsupported dtype for oneCCL'')"

fun to_ccl_op :: "reduce_op \<Rightarrow> ccl_red" where
  "to_ccl_op R_SUM = Ccl_sum"
| "to_ccl_op R_MAX = Ccl_max"
| "to_ccl_op R_MIN = Ccl_min"
| "to_ccl_op R_PROD = Ccl_prod"

datatype ccl_call =
    Ccl_create int int
  | Ccl_allreduce nat nat ccl_type ccl_red
  | Ccl_broadcast nat nat ccl_type int
  | Ccl_allgatherv nat nat "nat list" ccl_type
  | Ccl_reduce_scatter nat nat ccl_type ccl_red
  | Ccl_send nat nat ccl_type int
  | Ccl_recv nat nat ccl_type int
  | Ccl_barrier nat

type_synonym ccl = "ccl_call \<Rightarrow> bool"

definition ccl_check :: "ccl \<Rightarrow> ccl_call \<Rightarrow> unit res" where
  "ccl_check ccl c = (if ccl c then Inr () else Inl (Runtime_error ''oneCCL error''))"

section \<open>Operations\<close>

text \<open>The communicator is built before the group is touched: a failure leaves nothing behind.\<close>

definition ccl_init_rank :: "ccl \<Rightarrow> nat \<Rightarrow> int \<Rightarrow> int \<Rightarrow> int \<Rightarrow> coll \<Rightarrow> fault option \<times> coll" where
  "ccl_init_rank ccl i rank world dev s = (case ccl_check ccl (Ccl_create world rank) of
     Inl f \<Rightarrow> (Some f, s)
   | Inr _ \<Rightarrow> (case new_comm s of (h, s1) \<Rightarrow>
       (None, s1\<lparr>co_groups := (co_groups s1)[i := \<lparr>gr_handle = Some h, gr_rank = rank, gr_world = world,
         gr_device = dev, gr_initialized = True\<rparr>]\<rparr>)))"

text \<open>The number of platforms, \<open>None\<close> when the query throws.\<close>

definition ccl_device_count :: "nat option \<Rightarrow> nat" where
  "ccl_device_count platforms = (case platforms of None \<Rightarrow> 1 | Some n \<Rightarrow> n)"

primrec ccl_init_loop :: "ccl \<Rightarrow> nat \<Rightarrow> nat list \<Rightarrow> coll \<Rightarrow> fault option \<times> coll" where
  "ccl_init_loop ccl n [] s = (None, s)"
| "ccl_init_loop ccl n (i # is) s = (case ccl_init_rank ccl i (int i) (int n) (int i) s of
     (Some f, s') \<Rightarrow> (Some f, s') | (None, s') \<Rightarrow> ccl_init_loop ccl n is s')"

definition ccl_init_all :: "ccl \<Rightarrow> nat option \<Rightarrow> coll \<Rightarrow> fault option \<times> coll" where
  "ccl_init_all ccl platforms s = (let n = ccl_device_count platforms in ccl_init_loop ccl n [0..<n] (resize_groups n s))"

definition ccl_destroy :: "nat \<Rightarrow> coll \<Rightarrow> fault option \<times> coll" where
  "ccl_destroy i s = (let g = co_groups s ! i in
     if \<not> gr_initialized g then (None, s)
     else case to_comm s g of
         Inl f \<Rightarrow> (Some f, s)
       | Inr h \<Rightarrow> (None, s\<lparr>co_live := remove1 h (co_live s),
           co_groups := (co_groups s)[i := g\<lparr>gr_handle := None, gr_initialized := False\<rparr>]\<rparr>))"

fun ccl_op_call :: "coll_op \<Rightarrow> int \<Rightarrow> nat \<Rightarrow> ccl_call res" where
  "ccl_op_call (Op_allreduce n dt op) w h = rbind (to_ccl_dtype dt) (\<lambda>t. Inr (Ccl_allreduce h n t (to_ccl_op op)))"
| "ccl_op_call (Op_broadcast n dt rt) w h = rbind (to_ccl_dtype dt) (\<lambda>t. Inr (Ccl_broadcast h n t rt))"
| "ccl_op_call (Op_allgather n dt) w h = (if w < 0 then Inl Length_error
     else rbind (to_ccl_dtype dt) (\<lambda>t. Inr (Ccl_allgatherv h n (replicate (nat w) n) t)))"
| "ccl_op_call (Op_reduce_scatter n dt op) w h = rbind (to_ccl_dtype dt) (\<lambda>t. Inr (Ccl_reduce_scatter h n t (to_ccl_op op)))"
| "ccl_op_call (Op_send n dt peer) w h = rbind (to_ccl_dtype dt) (\<lambda>t. Inr (Ccl_send h n t peer))"
| "ccl_op_call (Op_recv n dt peer) w h = rbind (to_ccl_dtype dt) (\<lambda>t. Inr (Ccl_recv h n t peer))"
| "ccl_op_call Op_barrier w h = Inr (Ccl_barrier h)"

definition ccl_run_op :: "ccl \<Rightarrow> nat \<Rightarrow> coll_op \<Rightarrow> coll \<Rightarrow> unit res" where
  "ccl_run_op ccl i op s = (let g = co_groups s ! i in
     rbind (to_comm s g) (\<lambda>h. rbind (ccl_op_call op (gr_world g) h) (ccl_check ccl)))"

section \<open>The contract\<close>

lemma ccl_init_rank_inv: "coll_inv s \<Longrightarrow> coll_inv (snd (ccl_init_rank ccl i r w d s))"
  using coll_inv_new [of s] by (cases "new_comm s") (auto simp: ccl_init_rank_def split: sum.splits)

lemma ccl_init_loop_inv: "coll_inv s \<Longrightarrow> coll_inv (snd (ccl_init_loop ccl n is s))"
proof (induction "is" arbitrary: s)
  case (Cons i "is")
  obtain f s' where r: "ccl_init_rank ccl i (int i) (int n) (int i) s = (f, s')" by force
  have "coll_inv s'" using ccl_init_rank_inv [OF Cons.prems, of ccl i "int i" "int n" "int i"] r by simp
  with Cons.IH r show ?case by (cases f) simp_all
qed simp

text \<open>Destroying is what the NCCL back end does when its library call succeeds.\<close>

lemma ccl_destroy_eq: "ccl_destroy i s = comm_destroy (\<lambda>_. True) i s"
  by (simp add: ccl_destroy_def comm_destroy_def nccl_check_def Let_def split: sum.splits)

interpretation oneccl: comm_backend "ccl_init_rank ccl" "ccl_init_all ccl" ccl_destroy
proof
  fix s :: coll and pl assume "coll_inv s"
  then show "coll_inv (snd (ccl_init_all ccl pl s))"
    by (simp add: ccl_init_all_def Let_def ccl_init_loop_inv coll_inv_resize)
qed (simp_all add: ccl_init_rank_inv ccl_destroy_eq nccl.destroy_inv nccl.destroy_done)

text \<open>
  After any calls from the start, an operation on an initialised group uses a live
  communicator; on any other group it dereferences null, as in the NCCL back end.
\<close>

theorem ccl_handles_safe:
  assumes "s = fold (oneccl.call ccl) cs \<lparr>co_groups = replicate n fresh_group, co_live = [], co_next = 0\<rparr>"
    and "i < length (co_groups s)"
  shows "if gr_initialized (co_groups s ! i)
    then \<exists>h\<in>set (co_live s). ccl_run_op ccl i op s = rbind (ccl_op_call op (gr_world (co_groups s ! i)) h) (ccl_check ccl)
    else ccl_run_op ccl i op s = Inl Null_UB"
proof -
  have "coll_inv \<lparr>co_groups = replicate n fresh_group, co_live = [], co_next = 0\<rparr>"
    by (auto simp: coll_inv_def fresh_group_def)
  from oneccl.handle_live [OF this assms] show ?thesis
    by (auto simp: ccl_run_op_def Let_def split: if_splits)
qed

text \<open>
  Without a platform the single-process initialisation leaves no group at all, where the other
  back end falls back to one device.
\<close>

lemma ccl_no_platform: "ccl_init_all ccl (Some 0) s = (None, s\<lparr>co_groups := []\<rparr>)"
  by (simp add: ccl_init_all_def ccl_device_count_def resize_groups_def)

end
