(* ===== verification/Flash_Attn.thy ===== *)
theory Flash_Attn
  imports Gemm_Tensor Complex_Main
begin

text \<open>
  Fused attention (kernels/flash_attn.cuh, kernels/flash_attn.cu): the forward kernel with its online
  softmax, the dispatch and the launchers. One block handles one tile of query rows of one head
  of one batch element; one warp of 32 lanes handles one row. The lanes of a warp run in lock
  step and all compute the row redundantly, so the registers are kept once per row; the threads of a
  block take part in the cooperative loads in any order. \<open>float\<close> is idealised as \<open>real\<close>, the constant
  \<open>-1e30f\<close> as \<open>- (10 ^ 30)\<close>; the conversions of the 16-bit storage format are the parameters
  \<open>to_f\<close> and \<open>of_f\<close>.
\<close>

section \<open>Configuration\<close>

record attn_cfg =
  at_num_q_heads :: nat
  at_num_kv_heads :: nat
  at_head_dim :: nat
  at_causal :: bool
  at_scale :: real
  at_Br :: nat
  at_Bc :: nat

definition default_attn_cfg :: attn_cfg where
  "default_attn_cfg = \<lparr>at_num_q_heads = 1, at_num_kv_heads = 1, at_head_dim = 128, at_causal = True,
     at_scale = 0, at_Br = 32, at_Bc = 64\<rparr>"

section \<open>The kernel\<close>

text \<open>The arguments of the kernel; \<open>ka_Br\<close>, \<open>ka_Bc\<close> and \<open>ka_D\<close> are its template parameters.\<close>

record 'h fa_args =
  ka_Br :: nat
  ka_Bc :: nat
  ka_D :: nat
  ka_Q :: "'h list"
  ka_K :: "'h list"
  ka_V :: "'h list"
  ka_H_q :: nat
  ka_H_kv :: nat
  ka_S_q :: nat
  ka_S_kv :: nat
  ka_scale :: real
  ka_causal :: bool
  ka_stride_B_q :: nat
  ka_stride_H_q :: nat
  ka_stride_S_q :: nat
  ka_stride_B_k :: nat
  ka_stride_H_k :: nat
  ka_stride_S_k :: nat
  ka_stride_B_o :: nat
  ka_stride_H_o :: nat
  ka_stride_S_o :: nat

text \<open>Dynamic shared memory, split as the kernel splits it.\<close>

record fa_shared =
  sm_Q :: "real list"
  sm_K :: "real list"
  sm_V :: "real list"
  sm_S :: "real list"

text \<open>The registers of a row: running maximum, running sum, output accumulator.\<close>

record fa_row =
  rg_m :: real
  rg_l :: real
  rg_o :: "real list"

definition NEG :: real where
  "NEG = - (10 ^ 30)"

text \<open>\<open>(p + base)[i]\<close> with \<open>base\<close> and \<open>i\<close> computed in \<open>int\<close>.\<close>

definition off_at :: "'h list \<Rightarrow> nat \<Rightarrow> nat \<Rightarrow> 'h res" where
  "off_at xs base i = rbind (int_val (int base)) (\<lambda>b. rbind (int_val (int i)) (\<lambda>k. vec_at xs (b + k)))"

definition off_set :: "nat \<Rightarrow> nat \<Rightarrow> 'h \<Rightarrow> 'h list \<Rightarrow> 'h list res" where
  "off_set base i v xs = rbind (int_val (int base)) (\<lambda>b. rbind (int_val (int i)) (\<lambda>k.
     if b + k < int (length xs) then Inr (xs[base + i := v]) else Inl Index_UB))"

definition q_row_of :: "'h fa_args \<Rightarrow> nat \<Rightarrow> nat \<Rightarrow> nat" where
  "q_row_of a q_tile row = q_tile * ka_Br a + row"

text \<open>The load of row \<open>row\<close> of the query tile by the thread \<open>tid\<close>.\<close>

definition load_q :: "('h \<Rightarrow> real) \<Rightarrow> 'h fa_args \<Rightarrow> nat \<Rightarrow> nat \<Rightarrow> nat \<Rightarrow> real list \<Rightarrow> real list res" where
  "load_q to_f a qbase q_tile tid sQ =
     (let lane = tid mod 32; row = tid div 32; q_row = q_row_of a q_tile row in
      rfold (\<lambda>d sQ. rbind (if q_row < ka_S_q a
            then rbind (off_at (ka_Q a) qbase (q_row * ka_stride_S_q a + d)) (\<lambda>x. Inr (to_f x)) else Inr 0)
          (\<lambda>v. buf_set (row * ka_D a + d) v sQ))
        (strided 32 (ka_D a) lane) sQ)"

text \<open>The value for element \<open>i\<close> of the tile of \<open>K\<close> or \<open>V\<close> that starts at row \<open>kv_start\<close>.\<close>

definition load_kv :: "('h \<Rightarrow> real) \<Rightarrow> 'h fa_args \<Rightarrow> 'h list \<Rightarrow> nat \<Rightarrow> nat \<Rightarrow> nat \<Rightarrow> real res" where
  "load_kv to_f a X kbase kv_start i =
     (let r = i div ka_D a; d = i mod ka_D a; kv_row = kv_start + r in
      if kv_row < ka_S_kv a then rbind (off_at X kbase (kv_row * ka_stride_S_k a + d)) (\<lambda>x. Inr (to_f x))
      else Inr 0)"

text \<open>The scores of row \<open>row\<close> against the tile.\<close>

definition score_row :: "'h fa_args \<Rightarrow> nat \<Rightarrow> nat \<Rightarrow> real list \<Rightarrow> real list \<Rightarrow> nat \<Rightarrow> real list \<Rightarrow> real list res" where
  "score_row a q_tile kv_start sQ sK row sS =
     rfold (\<lambda>j sS. let kv_abs = kv_start + j in
        if ka_S_kv a \<le> kv_abs \<or> ka_causal a \<and> q_row_of a q_tile row < kv_abs
        then buf_set (row * ka_Bc a + j) NEG sS
        else buf_set (row * ka_Bc a + j)
          (fold (\<lambda>d dot. dot + sQ ! (row * ka_D a + d) * sK ! (j * ka_D a + d)) [0..<ka_D a] 0 * ka_scale a) sS)
       [0..<ka_Bc a] sS"

text \<open>The update of the registers from the row \<open>ss\<close> of scores, and the row of weights that replaces it.\<close>

definition row_update :: "nat \<Rightarrow> nat \<Rightarrow> real list \<Rightarrow> real list \<Rightarrow> fa_row \<Rightarrow> real list \<times> fa_row" where
  "row_update Bc D sV ss r =
     (let m_tile = fold (\<lambda>s m. max m s) ss NEG;
          m_new = max (rg_m r) m_tile;
          alpha = exp (rg_m r - m_new);
          ps = map (\<lambda>s. exp (s - m_new)) ss;
          l_tile = fold (\<lambda>p l. l + p) ps 0;
          l_new = alpha * rg_l r + l_tile;
          sc_old = (if l_new > 0 then rg_l r * alpha / l_new else 0);
          sc_new = (if l_new > 0 then 1 / l_new else 0)
      in (ps, \<lparr>rg_m = m_new, rg_l = l_new, rg_o = map (\<lambda>d.
            sc_old * rg_o r ! d + sc_new * fold (\<lambda>j pv. pv + ps ! j * sV ! (j * D + d)) [0..<Bc] 0) [0..<D]\<rparr>))"

definition softmax_row :: "nat \<Rightarrow> nat \<Rightarrow> real list \<Rightarrow> nat \<Rightarrow> real list \<times> fa_row list \<Rightarrow> real list \<times> fa_row list" where
  "softmax_row Bc D sV row st = (case st of (sS, regs) \<Rightarrow>
     (case row_update Bc D sV (map (\<lambda>j. sS ! (row * Bc + j)) [0..<Bc]) (regs ! row) of (ps, r) \<Rightarrow>
       (fold (\<lambda>j sS. sS[row * Bc + j := ps ! j]) [0..<Bc] sS, regs[row := r])))"

text \<open>
  One iteration of the loop over the tiles of \<open>K\<close> and \<open>V\<close>. A thread takes part when its row exists and it
  has not left the loop at the causal boundary; the starts of the tiles grow, so that a thread
  that has left does not come back. \<open>order\<close> is the order of the threads, \<open>warps\<close> that of the rows.
\<close>

definition in_loop :: "'h fa_args \<Rightarrow> nat \<Rightarrow> nat \<Rightarrow> nat \<Rightarrow> bool" where
  "in_loop a q_tile kv_start row \<longleftrightarrow> q_row_of a q_tile row < ka_S_q a \<and>
     \<not> (ka_causal a \<and> q_row_of a q_tile row < kv_start)"

definition fa_tile :: "('h \<Rightarrow> real) \<Rightarrow> 'h fa_args \<Rightarrow> nat \<Rightarrow> nat \<Rightarrow> nat list \<Rightarrow> nat list \<Rightarrow> nat \<Rightarrow>
    fa_shared \<times> fa_row list \<Rightarrow> (fa_shared \<times> fa_row list) res" where
  "fa_tile to_f a kbase q_tile order warps kv_tile st = (case st of (sh, regs) \<Rightarrow>
     (let kv_start = kv_tile * ka_Bc a; T = ka_Br a * 32; n = ka_Bc a * ka_D a;
          ts = filter (\<lambda>t. in_loop a q_tile kv_start (t div 32)) order;
          ws = filter (in_loop a q_tile kv_start) warps in
      rbind (coop_fill (load_kv to_f a (ka_K a) kbase kv_start) T n ts (sm_K sh)) (\<lambda>sK.
      rbind (coop_fill (load_kv to_f a (ka_V a) kbase kv_start) T n ts (sm_V sh)) (\<lambda>sV.
      rbind (rfold (score_row a q_tile kv_start (sm_Q sh) sK) ws (sm_S sh)) (\<lambda>sS.
      case fold (softmax_row (ka_Bc a) (ka_D a) sV) ws (sS, regs) of (sS', regs') \<Rightarrow>
        Inr (sh\<lparr>sm_K := sK, sm_V := sV, sm_S := sS'\<rparr>, regs'))))))"

text \<open>The output of a row.\<close>

definition write_o :: "(real \<Rightarrow> 'h) \<Rightarrow> 'h fa_args \<Rightarrow> nat \<Rightarrow> nat \<Rightarrow> fa_row list \<Rightarrow> nat \<Rightarrow> 'h list \<Rightarrow> 'h list res" where
  "write_o of_f a obase q_tile regs row out =
     rfold (\<lambda>d out. off_set obase (q_row_of a q_tile row * ka_stride_S_o a + d) (of_f (rg_o (regs ! row) ! d)) out)
       [0..<ka_D a] out"

definition write_lse :: "'h fa_args \<Rightarrow> nat \<Rightarrow> nat \<Rightarrow> fa_row list \<Rightarrow> nat \<Rightarrow> real list \<Rightarrow> real list res" where
  "write_lse a lbase q_tile regs row lse =
     off_set lbase (q_row_of a q_tile row)
       (rg_m (regs ! row) + ln (if rg_l (regs ! row) > 0 then rg_l (regs ! row) else 1 / 10 ^ 30)) lse"

definition flash_attn_fwd_kernel :: "('h \<Rightarrow> real) \<Rightarrow> (real \<Rightarrow> 'h) \<Rightarrow> 'h fa_args \<Rightarrow> fa_shared \<Rightarrow> nat list \<Rightarrow> nat list \<Rightarrow>
    nat \<times> nat \<Rightarrow> 'h list \<times> real list \<Rightarrow> ('h list \<times> real list) res" where
  "flash_attn_fwd_kernel to_f of_f a shared order warps blk out = (case blk of (q_tile, bh) \<Rightarrow>
     (if ka_H_q a = 0 \<or> ka_H_kv a = 0 \<or> ka_H_q a div ka_H_kv a = 0 then Inl Div_zero else
      let b = bh div ka_H_q a; hq = bh mod ka_H_q a; hkv = hq div (ka_H_q a div ka_H_kv a);
          qbase = b * ka_stride_B_q a + hq * ka_stride_H_q a;
          kbase = b * ka_stride_B_k a + hkv * ka_stride_H_k a;
          obase = b * ka_stride_B_o a + hq * ka_stride_H_o a;
          lbase = (b * ka_H_q a + hq) * ka_S_q a;
          live = (\<lambda>row. q_row_of a q_tile row < ka_S_q a) in
      rbind (rfold (load_q to_f a qbase q_tile) (filter (\<lambda>t. live (t div 32)) order) (sm_Q shared)) (\<lambda>sQ.
      rbind (rfold (fa_tile to_f a kbase q_tile order warps) [0..<ceil_div (ka_S_kv a) (ka_Bc a)]
          (shared\<lparr>sm_Q := sQ\<rparr>, replicate (ka_Br a) \<lparr>rg_m = NEG, rg_l = 0, rg_o = replicate (ka_D a) 0\<rparr>)) (\<lambda>(sh, regs).
      rbind (rfold (write_o of_f a obase q_tile regs) (filter live warps) (fst out)) (\<lambda>O'.
      rbind (rfold (write_lse a lbase q_tile regs) (filter live warps) (snd out)) (\<lambda>lse'.
        Inr (O', lse')))))))"

section \<open>Dispatch and launch\<close>

text \<open>Whether \<open>int\<close> expressions with these values overflow.\<close>

definition ints_fit :: "nat list \<Rightarrow> unit res" where
  "ints_fit xs = (if list_all (\<lambda>x. x < 2 ^ 31) xs then Inr () else Inl Overflow_UB)"

definition fa_shmem :: "nat \<Rightarrow> nat \<Rightarrow> nat \<Rightarrow> nat" where
  "fa_shmem BR BC DIM = (BR * DIM + 2 * BC * DIM + BR * BC) * 4"

definition fa_templates :: "(nat \<times> nat \<times> nat) list" where
  "fa_templates = [(32, 64, 128), (32, 32, 128), (32, 64, 64), (32, 32, 64), (16, 64, 128), (16, 32, 128)]"

text \<open>
  \<open>max_smem\<close> is the shared memory per block the runtime reports, \<open>launch_err\<close> the error of a launch with
  so much dynamic shared memory, if any, \<open>shared\<close> what shared memory holds before a block starts. The
  numbers in the message of the last branch are left out.
\<close>

record gpu_env =
  ge_max_smem :: nat
  ge_launch_err :: "nat \<Rightarrow> string option"
  ge_shared :: fa_shared
  ge_order :: "nat list"
  ge_warps :: "nat list"
  ge_blocks :: "(nat \<times> nat) list"

definition dispatch_Br :: "attn_cfg \<Rightarrow> nat" where
  "dispatch_Br cfg = min (at_Br cfg) 32"

text \<open>A device without enough shared memory for 64 key rows gets tiles of 32.\<close>

definition dispatch_Bc :: "gpu_env \<Rightarrow> attn_cfg \<Rightarrow> nat" where
  "dispatch_Bc env cfg =
     (if at_Bc cfg = 64 \<and> ge_max_smem env < fa_shmem (dispatch_Br cfg) (at_Bc cfg) (at_head_dim cfg) then 32
      else at_Bc cfg)"

definition dispatch_args :: "gpu_env \<Rightarrow> 'h list \<Rightarrow> 'h list \<Rightarrow> 'h list \<Rightarrow> nat \<Rightarrow> nat \<Rightarrow> nat \<Rightarrow> nat \<Rightarrow> attn_cfg \<Rightarrow> 'h fa_args" where
  "dispatch_args env Q K V H_q H_kv S_q S_kv cfg = (let D = at_head_dim cfg in
     \<lparr>ka_Br = dispatch_Br cfg, ka_Bc = dispatch_Bc env cfg, ka_D = D, ka_Q = Q, ka_K = K, ka_V = V,
      ka_H_q = H_q, ka_H_kv = H_kv, ka_S_q = S_q, ka_S_kv = S_kv,
      ka_scale = (if at_scale cfg > 0 then at_scale cfg else 1 / sqrt (real D)), ka_causal = at_causal cfg,
      ka_stride_B_q = H_q * S_q * D, ka_stride_H_q = S_q * D, ka_stride_S_q = D,
      ka_stride_B_k = H_kv * S_kv * D, ka_stride_H_k = S_kv * D, ka_stride_S_k = D,
      ka_stride_B_o = H_q * S_q * D, ka_stride_H_o = S_q * D, ka_stride_S_o = D\<rparr>)"

definition dispatch_flash_attn :: "('h \<Rightarrow> real) \<Rightarrow> (real \<Rightarrow> 'h) \<Rightarrow> gpu_env \<Rightarrow> 'h list \<Rightarrow> 'h list \<Rightarrow> 'h list \<Rightarrow>
    nat \<Rightarrow> nat \<Rightarrow> nat \<Rightarrow> nat \<Rightarrow> nat \<Rightarrow> attn_cfg \<Rightarrow> 'h list \<times> real list \<Rightarrow> ('h list \<times> real list) res" where
  "dispatch_flash_attn to_f of_f env Q K V B H_q H_kv S_q S_kv cfg out =
     (let D = at_head_dim cfg; Br = dispatch_Br cfg; Bc = dispatch_Bc env cfg in
      rbind (ints_fit [H_q * S_q * D, S_q * D, H_kv * S_kv * D, S_kv * D, S_q + Br, B * H_q]) (\<lambda>_.
      if Br = 0 then Inl Div_zero
      else if (Br, Bc, D) \<in> set fa_templates then
        case ge_launch_err env (fa_shmem Br Bc D) of
          Some msg \<Rightarrow> Inl (Runtime_error (''FA2 kernel launch failed: '' @ msg))
        | None \<Rightarrow> rfold (flash_attn_fwd_kernel to_f of_f (dispatch_args env Q K V H_q H_kv S_q S_kv cfg)
            (ge_shared env) (ge_order env) (ge_warps env)) (ge_blocks env) out
      else Inl (Runtime_error ''flash_attn: unsupported'')))"

definition launch_flash_attn_bf16 :: "('h \<Rightarrow> real) \<Rightarrow> (real \<Rightarrow> 'h) \<Rightarrow> gpu_env \<Rightarrow> 'h list \<Rightarrow> 'h list \<Rightarrow> 'h list \<Rightarrow>
    nat \<Rightarrow> nat \<Rightarrow> nat \<Rightarrow> attn_cfg \<Rightarrow> 'h list \<times> real list \<Rightarrow> ('h list \<times> real list) res" where
  "launch_flash_attn_bf16 to_f of_f env Q K V B S_q S_kv cfg out =
     dispatch_flash_attn to_f of_f env Q K V B (at_num_q_heads cfg) (at_num_kv_heads cfg) S_q S_kv cfg out"

section \<open>Online softmax\<close>

lemma fold_add_sum: "fold (\<lambda>j x. x + f j) [0..<n] (c :: real) = c + (\<Sum>j<n. f j)"
  by (induction n) simp_all

lemma fold_add_list: "fold (\<lambda>p l. l + p) ps (c :: real) = c + sum_list ps"
  by (induction ps arbitrary: c) simp_all

lemma fold_max_ge: "c \<le> fold (\<lambda>s m. max m s) ss (c :: real) \<and> (\<forall>s\<in>set ss. s \<le> fold (\<lambda>s m. max m s) ss c)"
proof (induction ss arbitrary: c)
  case (Cons s ss)
  then have "max c s \<le> fold (\<lambda>s m. max m s) ss (max c s)" "\<forall>t\<in>set ss. t \<le> fold (\<lambda>s m. max m s) ss (max c s)"
    by blast+
  then show ?case by simp
qed simp

lemma sum_lessThan_add: "(\<Sum>j<(n :: nat) + k. f j) = (\<Sum>j<n. f j) + (\<Sum>j<k. f (n + j) :: real)"
  by (induction k) simp_all

text \<open>
  The meaning of the registers after the scores \<open>\<sigma> 0, \<dots>, \<sigma> (n - 1)\<close> with the value vectors \<open>v\<close>.
\<close>

definition row_inv :: "(nat \<Rightarrow> real) \<Rightarrow> (nat \<Rightarrow> nat \<Rightarrow> real) \<Rightarrow> nat \<Rightarrow> nat \<Rightarrow> fa_row \<Rightarrow> bool" where
  "row_inv \<sigma> v D n r \<longleftrightarrow> rg_l r = (\<Sum>j<n. exp (\<sigma> j - rg_m r)) \<and> length (rg_o r) = D \<and>
     (\<forall>d<D. rg_o r ! d * rg_l r = (\<Sum>j<n. exp (\<sigma> j - rg_m r) * v j d)) \<and> (\<forall>j<n. \<sigma> j \<le> rg_m r)"

lemma rescale: "(\<Sum>j<n. exp (\<sigma> j - m') * w j) = exp (m - m') * (\<Sum>j<n. exp (\<sigma> j - m) * w j)" for m m' :: real
  by (simp add: sum_distrib_left mult.assoc [symmetric] exp_add [symmetric])

lemma row_update_inv:
  assumes "row_inv \<sigma> v D n r" and "0 < Bc" and "ss = map (\<lambda>j. \<sigma> (n + j)) [0..<Bc]"
    and "\<And>j d. j < Bc \<Longrightarrow> d < D \<Longrightarrow> sV ! (j * D + d) = v (n + j) d"
    and "row_update Bc D sV ss r = (ps, r')"
  shows "row_inv \<sigma> v D (n + Bc) r'" and "\<forall>p\<in>set ps. 0 < p \<and> p \<le> 1"
proof -
  define m where "m = max (rg_m r) (fold (\<lambda>s m. max m s) ss NEG)"
  define al where "al = exp (rg_m r - m)"
  define lt where "lt = (\<Sum>j<Bc. exp (\<sigma> (n + j) - m))"
  define l where "l = al * rg_l r + lt"
  have mx: "\<sigma> (n + j) \<le> m" if "j < Bc" for j
    using that fold_max_ge [of NEG ss] assms(3) by (auto simp: m_def intro: max.coboundedI2)
  have ps: "ps = map (\<lambda>s. exp (s - m)) ss"
    using assms(5) by (auto simp: row_update_def Let_def m_def)
  have lt_sum: "fold (\<lambda>p l. l + p) ps 0 = lt"
    by (simp add: ps fold_add_list assms(3) lt_def comp_def interv_sum_list_conv_sum_set_nat atLeast0LessThan)
  have old: "rg_l r = (\<Sum>j<n. exp (\<sigma> j - rg_m r))" "\<And>j. j < n \<Longrightarrow> \<sigma> j \<le> rg_m r"
      "\<And>d. d < D \<Longrightarrow> rg_o r ! d * rg_l r = (\<Sum>j<n. exp (\<sigma> j - rg_m r) * v j d)"
    using assms(1) unfolding row_inv_def by blast+
  have "0 < lt" unfolding lt_def using assms(2) by (intro sum_pos) auto
  moreover have "0 \<le> rg_l r" by (simp add: old(1) sum_nonneg)
  ultimately have l0: "0 < l" by (simp add: l_def al_def add_nonneg_pos)
  have r': "r' = \<lparr>rg_m = m, rg_l = l, rg_o = map (\<lambda>d. rg_l r * al / l * rg_o r ! d +
      1 / l * fold (\<lambda>j pv. pv + ps ! j * sV ! (j * D + d)) [0..<Bc] 0) [0..<D]\<rparr>"
    using assms(5) l0 lt_sum by (auto simp: row_update_def Let_def m_def [symmetric] al_def [symmetric]
      ps [symmetric] l_def [symmetric])
  have lsum: "l = (\<Sum>j<n + Bc. exp (\<sigma> j - m))"
    using rescale [of \<sigma> m "\<lambda>_. 1" n "rg_m r"]
    by (simp add: l_def lt_def al_def sum_lessThan_add old(1))
  have osum: "rg_o r' ! d * l = (\<Sum>j<n + Bc. exp (\<sigma> j - m) * v j d)" if d: "d < D" for d
  proof -
    have "(\<Sum>j<Bc. ps ! j * sV ! (j * D + d)) = (\<Sum>j<Bc. exp (\<sigma> (n + j) - m) * v (n + j) d)"
      using assms(4) d by (intro sum.cong) (simp_all add: ps assms(3))
    then have "rg_o r' ! d * l = al * (rg_o r ! d * rg_l r) + (\<Sum>j<Bc. exp (\<sigma> (n + j) - m) * v (n + j) d)"
      using l0 d by (simp add: r' fold_add_sum field_simps)
    also have "al * (rg_o r ! d * rg_l r) = (\<Sum>j<n. exp (\<sigma> j - m) * v j d)"
      unfolding old(3) [OF d] al_def by (rule rescale [symmetric])
    finally show ?thesis by (simp add: sum_lessThan_add)
  qed
  have "\<sigma> j \<le> m" if "j < n + Bc" for j
  proof (cases "j < n")
    case True
    then show ?thesis using old(2) [of j] by (simp add: m_def)
  next
    case False
    then show ?thesis using mx [of "j - n"] that by simp
  qed
  with lsum osum show "row_inv \<sigma> v D (n + Bc) r'" by (simp add: row_inv_def r')
  show "\<forall>p\<in>set ps. 0 < p \<and> p \<le> 1" using mx by (auto simp: ps assms(3))
qed

text \<open>The registers at the end are a softmax over all scores, and their logarithmic sum.\<close>

definition soft :: "nat \<Rightarrow> (nat \<Rightarrow> real) \<Rightarrow> (nat \<Rightarrow> real) \<Rightarrow> real" where
  "soft n \<sigma> w = (\<Sum>j<n. exp (\<sigma> j) * w j) / (\<Sum>j<n. exp (\<sigma> j))"

lemma row_inv_soft:
  assumes "row_inv \<sigma> v D n r" and "0 < n"
  shows "d < D \<Longrightarrow> rg_o r ! d = soft n \<sigma> (\<lambda>j. v j d)"
    and "rg_m r + ln (if rg_l r > 0 then rg_l r else c) = ln (\<Sum>j<n. exp (\<sigma> j))"
proof -
  let ?W = "\<Sum>j<n. exp (\<sigma> j)" and ?e = "exp (- rg_m r)"
  have W: "0 < ?W" using assms(2) by (intro sum_pos) auto
  have sc: "(\<Sum>j<n. exp (\<sigma> j - rg_m r) * w j) = ?e * (\<Sum>j<n. exp (\<sigma> j) * w j)" for w
    using rescale [of \<sigma> "rg_m r" w n 0] by simp
  have l: "rg_l r = ?e * ?W" using assms(1) sc [of "\<lambda>_. 1"] by (simp add: row_inv_def)
  show "rg_o r ! d = soft n \<sigma> (\<lambda>j. v j d)" if "d < D"
  proof -
    have "rg_o r ! d * rg_l r = (\<Sum>j<n. exp (\<sigma> j - rg_m r) * v j d)"
      using assms(1) that unfolding row_inv_def by blast
    then have "rg_o r ! d * (?e * ?W) = ?e * (\<Sum>j<n. exp (\<sigma> j) * v j d)" unfolding l sc .
    then have "rg_o r ! d * ?W = (\<Sum>j<n. exp (\<sigma> j) * v j d)" by simp
    with W show ?thesis by (simp add: soft_def field_simps)
  qed
  have "0 < rg_l r" using W by (simp add: l)
  then show "rg_m r + ln (if rg_l r > 0 then rg_l r else c) = ln ?W"
    using W by (simp add: l ln_mult_pos)
qed

section \<open>Reference\<close>

text \<open>
  Attention of query row \<open>i\<close> of the head \<open>bh\<close> (batch and query head together) over the rows of the
  key-value head it shares. Rows that are masked have the score \<open>NEG\<close>.
\<close>

definition q_elt :: "('h \<Rightarrow> real) \<Rightarrow> 'h fa_args \<Rightarrow> nat \<Rightarrow> nat \<Rightarrow> nat \<Rightarrow> real" where
  "q_elt to_f a bh i d = to_f (ka_Q a ! ((bh * ka_S_q a + i) * ka_D a + d))"

definition kv_head :: "'h fa_args \<Rightarrow> nat \<Rightarrow> nat" where
  "kv_head a bh = bh div ka_H_q a * ka_H_kv a + bh mod ka_H_q a div (ka_H_q a div ka_H_kv a)"

definition kv_elt :: "('h \<Rightarrow> real) \<Rightarrow> 'h fa_args \<Rightarrow> 'h list \<Rightarrow> nat \<Rightarrow> nat \<Rightarrow> nat \<Rightarrow> real" where
  "kv_elt to_f a X bh j d =
     (if j < ka_S_kv a then to_f (X ! ((kv_head a bh * ka_S_kv a + j) * ka_D a + d)) else 0)"

definition visible :: "'h fa_args \<Rightarrow> nat \<Rightarrow> nat \<Rightarrow> bool" where
  "visible a i j \<longleftrightarrow> j < ka_S_kv a \<and> (ka_causal a \<longrightarrow> j \<le> i)"

definition qk :: "('h \<Rightarrow> real) \<Rightarrow> 'h fa_args \<Rightarrow> nat \<Rightarrow> nat \<Rightarrow> nat \<Rightarrow> real" where
  "qk to_f a bh i j = (\<Sum>d<ka_D a. q_elt to_f a bh i d * kv_elt to_f a (ka_K a) bh j d) * ka_scale a"

definition score :: "('h \<Rightarrow> real) \<Rightarrow> 'h fa_args \<Rightarrow> nat \<Rightarrow> nat \<Rightarrow> nat \<Rightarrow> real" where
  "score to_f a bh i j = (if visible a i j then qk to_f a bh i j else NEG)"

text \<open>The number of key rows, padding included, that the kernel visits for row \<open>i\<close>.\<close>

definition tiles :: "'h fa_args \<Rightarrow> nat \<Rightarrow> nat" where
  "tiles a q_tile = (if ka_causal a then min (ceil_div (ka_S_kv a) (ka_Bc a)) (q_tile * ka_Br a div ka_Bc a + 1)
     else ceil_div (ka_S_kv a) (ka_Bc a))"

definition visited :: "'h fa_args \<Rightarrow> nat \<Rightarrow> nat" where
  "visited a i = tiles a (i div ka_Br a) * ka_Bc a"

definition fa_ok :: "nat \<Rightarrow> 'h fa_args \<Rightarrow> bool" where
  "fa_ok B a \<longleftrightarrow> 0 < ka_Br a \<and> 0 < ka_Bc a \<and> 0 < ka_D a \<and> ka_Br a dvd ka_Bc a \<and>
     0 < ka_H_kv a \<and> ka_H_kv a dvd ka_H_q a \<and> 0 < ka_H_q a \<and> 0 < ka_S_kv a \<and>
     ka_Br a * ka_D a < 2 ^ 31 \<and> ka_Bc a * ka_D a < 2 ^ 31 \<and> ka_Br a * ka_Bc a < 2 ^ 31 \<and>
     B * ka_H_q a * ka_S_q a * ka_D a \<le> length (ka_Q a) \<and> length (ka_Q a) < 2 ^ 31 \<and>
     B * ka_H_kv a * ka_S_kv a * ka_D a \<le> length (ka_K a) \<and> length (ka_K a) < 2 ^ 31 \<and>
     B * ka_H_kv a * ka_S_kv a * ka_D a \<le> length (ka_V a) \<and> length (ka_V a) < 2 ^ 31 \<and>
     ka_stride_B_q a = ka_H_q a * ka_S_q a * ka_D a \<and> ka_stride_H_q a = ka_S_q a * ka_D a \<and> ka_stride_S_q a = ka_D a \<and>
     ka_stride_B_k a = ka_H_kv a * ka_S_kv a * ka_D a \<and> ka_stride_H_k a = ka_S_kv a * ka_D a \<and> ka_stride_S_k a = ka_D a \<and>
     ka_stride_B_o a = ka_H_q a * ka_S_q a * ka_D a \<and> ka_stride_H_o a = ka_S_q a * ka_D a \<and> ka_stride_S_o a = ka_D a"

lemma fa_okD:
  assumes "fa_ok B a"
  shows "0 < ka_Br a" "0 < ka_Bc a" "0 < ka_D a" "ka_Br a dvd ka_Bc a" "0 < ka_H_q a div ka_H_kv a"
    "0 < ka_H_kv a" "ka_H_kv a dvd ka_H_q a" "0 < ka_H_q a" "0 < ka_S_kv a"
    "ka_Br a * ka_D a < 2 ^ 31" "ka_Bc a * ka_D a < 2 ^ 31" "ka_Br a * ka_Bc a < 2 ^ 31"
    "B * ka_H_q a * ka_S_q a * ka_D a \<le> length (ka_Q a)" "length (ka_Q a) < 2 ^ 31"
    "B * ka_H_kv a * ka_S_kv a * ka_D a \<le> length (ka_K a)" "length (ka_K a) < 2 ^ 31"
    "B * ka_H_kv a * ka_S_kv a * ka_D a \<le> length (ka_V a)" "length (ka_V a) < 2 ^ 31"
  using assms by (simp_all add: fa_ok_def div_greater_zero_iff dvd_imp_le)

lemma fa_ok_strides:
  assumes "fa_ok B a"
  shows "ka_stride_B_q a = ka_H_q a * ka_S_q a * ka_D a" "ka_stride_H_q a = ka_S_q a * ka_D a" "ka_stride_S_q a = ka_D a"
    "ka_stride_B_k a = ka_H_kv a * ka_S_kv a * ka_D a" "ka_stride_H_k a = ka_S_kv a * ka_D a" "ka_stride_S_k a = ka_D a"
    "ka_stride_B_o a = ka_H_q a * ka_S_q a * ka_D a" "ka_stride_H_o a = ka_S_q a * ka_D a" "ka_stride_S_o a = ka_D a"
  using assms by (simp_all add: fa_ok_def)

section \<open>Indices\<close>

lemma off_at_ok: "base + i < length xs \<Longrightarrow> length xs < 2 ^ 31 \<Longrightarrow> off_at xs base i = Inr (xs ! (base + i))"
  by (simp add: off_at_def vec_at_def nat_add_distrib)

lemma off_set_ok: "base + i < length xs \<Longrightarrow> length xs < 2 ^ 31 \<Longrightarrow> off_set base i v xs = Inr (xs[base + i := v])"
  by (simp add: off_set_def)

text \<open>The offset the kernel computes from \<open>b\<close>, the head and the strides is the flat row-major one.\<close>

lemma head_offset: "b * (H * S * D) + h * (S * D) + (i * D + d) = ((b * H + h) * S + i) * D + (d :: nat)"
  by (simp add: algebra_simps)

lemma bh_split: "bh div H * H + bh mod H = (bh :: nat)"
  by simp

lemma flat3_less: "b < B \<Longrightarrow> i < S \<Longrightarrow> d < D \<Longrightarrow> (b * S + i) * D + d < B * S * (D :: nat)"
  by (intro flat_index_less) (simp_all add: flat_index_less)

lemma kv_head_less:
  assumes "fa_ok B a" and "bh < B * ka_H_q a"
  shows "kv_head a bh < B * ka_H_kv a"
proof -
  note ok = fa_okD [OF assms(1)]
  have "bh div ka_H_q a < B" using assms(2) by (simp add: less_mult_imp_div_less)
  moreover have "bh mod ka_H_q a div (ka_H_q a div ka_H_kv a) < ka_H_kv a"
    using ok by (intro less_mult_imp_div_less) simp
  ultimately show ?thesis unfolding kv_head_def by (rule flat_index_less)
qed

lemma tile_uniform: "Br dvd Bc \<Longrightarrow> row < Br \<Longrightarrow> (q * Br + row) div Bc = q * Br div (Bc :: nat)"
  by (auto simp: div_mult2_eq elim!: dvdE)

text \<open>The rows of a query tile leave the loop at the causal boundary together.\<close>

lemma in_loop_iff:
  assumes "fa_ok B a" and "row < ka_Br a" and "q_tile < ka_S_q a div ka_Br a"
    and "k < ceil_div (ka_S_kv a) (ka_Bc a)" and "ka_Br a dvd ka_S_q a"
  shows "in_loop a q_tile (k * ka_Bc a) row \<longleftrightarrow> k < tiles a q_tile"
proof -
  note ok = fa_okD [OF assms(1)]
  have "q_row_of a q_tile row < ka_S_q a div ka_Br a * ka_Br a"
    unfolding q_row_of_def by (rule flat_index_less [OF assms(3,2)])
  then have live: "q_row_of a q_tile row < ka_S_q a" using assms(5) by simp
  have "\<not> q_row_of a q_tile row < k * ka_Bc a \<longleftrightarrow> k \<le> q_row_of a q_tile row div ka_Bc a"
    using ok(2) by (simp add: less_eq_div_iff_mult_less_eq not_less)
  also have "q_row_of a q_tile row div ka_Bc a = q_tile * ka_Br a div ka_Bc a"
    unfolding q_row_of_def by (rule tile_uniform [OF ok(4) assms(2)])
  finally show ?thesis using live assms(4) by (auto simp: in_loop_def tiles_def)
qed

section \<open>The phases of a block\<close>

text \<open>A block of the grid whose query rows all exist, and the orders in which its threads and rows run.\<close>

definition fa_blk :: "nat \<Rightarrow> 'h fa_args \<Rightarrow> nat \<Rightarrow> nat \<Rightarrow> nat list \<Rightarrow> nat list \<Rightarrow> bool" where
  "fa_blk B a q_tile bh order warps \<longleftrightarrow> fa_ok B a \<and> q_tile < ka_S_q a div ka_Br a \<and> bh < B * ka_H_q a \<and>
     set order = {0..<ka_Br a * 32} \<and> set warps = {0..<ka_Br a} \<and> distinct warps \<and> ka_Br a dvd ka_S_q a"

lemma fa_blkD:
  assumes "fa_blk B a q_tile bh order warps"
  shows "fa_ok B a" "q_tile < ka_S_q a div ka_Br a" "bh < B * ka_H_q a"
    "set order = {0..<ka_Br a * 32}" "set warps = {0..<ka_Br a}" "distinct warps" "ka_Br a dvd ka_S_q a"
  using assms by (simp_all add: fa_blk_def)

definition qbase :: "'h fa_args \<Rightarrow> nat \<Rightarrow> nat" where
  "qbase a bh = bh div ka_H_q a * ka_stride_B_q a + bh mod ka_H_q a * ka_stride_H_q a"

definition kbase :: "'h fa_args \<Rightarrow> nat \<Rightarrow> nat" where
  "kbase a bh = bh div ka_H_q a * ka_stride_B_k a +
     bh mod ka_H_q a div (ka_H_q a div ka_H_kv a) * ka_stride_H_k a"

lemma row_live:
  assumes blk: "fa_blk B a q_tile bh order warps" and "row < ka_Br a"
  shows "q_row_of a q_tile row < ka_S_q a"
proof -
  have "q_row_of a q_tile row < ka_S_q a div ka_Br a * ka_Br a"
    unfolding q_row_of_def by (rule flat_index_less [OF fa_blkD(2) [OF blk] assms(2)])
  then show ?thesis using fa_blkD(7) [OF blk] by simp
qed

lemma all_live:
  assumes blk: "fa_blk B a q_tile bh order warps"
  shows "filter (\<lambda>t. q_row_of a q_tile (t div 32) < ka_S_q a) order = order"
  "filter (\<lambda>row. q_row_of a q_tile row < ka_S_q a) warps = warps"
  using fa_blkD(4,5) [OF blk] row_live [OF blk] by (auto simp: filter_id_conv less_mult_imp_div_less)

lemma all_in_loop:
  assumes blk: "fa_blk B a q_tile bh order warps" and "k < tiles a q_tile"
  shows "filter (\<lambda>t. in_loop a q_tile (k * ka_Bc a) (t div 32)) order = order"
    and "filter (in_loop a q_tile (k * ka_Bc a)) warps = warps"
proof -
  have "k < ceil_div (ka_S_kv a) (ka_Bc a)" using assms(2) by (auto simp: tiles_def split: if_splits)
  then show "filter (\<lambda>t. in_loop a q_tile (k * ka_Bc a) (t div 32)) order = order"
    and "filter (in_loop a q_tile (k * ka_Bc a)) warps = warps"
    using fa_blkD(4,5) [OF blk] in_loop_iff [OF fa_blkD(1) [OF blk] _ fa_blkD(2) [OF blk] _ fa_blkD(7) [OF blk]] assms(2)
    by (auto simp: filter_id_conv less_mult_imp_div_less)
qed

lemma none_in_loop:
  assumes blk: "fa_blk B a q_tile bh order warps"
    and "k < ceil_div (ka_S_kv a) (ka_Bc a)" and "\<not> k < tiles a q_tile"
  shows "filter (\<lambda>t. in_loop a q_tile (k * ka_Bc a) (t div 32)) order = []"
    and "filter (in_loop a q_tile (k * ka_Bc a)) warps = []"
  using fa_blkD(4,5) [OF blk] in_loop_iff [OF fa_blkD(1) [OF blk] _ fa_blkD(2) [OF blk] assms(2) fa_blkD(7) [OF blk]] assms(3)
  by (auto simp: filter_empty_conv less_mult_imp_div_less)

lemma qbase_flat: "fa_ok B a \<Longrightarrow> qbase a bh + (i * ka_stride_S_q a + d) = (bh * ka_S_q a + i) * ka_D a + d"
  by (simp only: qbase_def fa_ok_strides head_offset bh_split)

lemma kbase_flat: "fa_ok B a \<Longrightarrow> kbase a bh + (j * ka_stride_S_k a + d) = (kv_head a bh * ka_S_kv a + j) * ka_D a + d"
  by (simp only: kbase_def fa_ok_strides head_offset kv_head_def)

lemma load_q_ok:
  assumes blk: "fa_blk B a q_tile bh order warps" and "length sQ = ka_Br a * ka_D a"
  shows "rfold (load_q to_f a (qbase a bh) q_tile) order sQ =
    Inr (map (\<lambda>p. q_elt to_f a bh (q_row_of a q_tile (p div ka_D a)) (p mod ka_D a)) [0..<ka_Br a * ka_D a])"
proof -
  note ok = fa_blkD(1) [OF blk] and bh = fa_blkD(3) [OF blk] and order = fa_blkD(4) [OF blk]
  note okd = fa_okD [OF ok] and row_live = row_live [OF blk]
  let ?D = "ka_D a" and ?L = "ka_Br a * ka_D a"
  let ?g = "\<lambda>p. q_elt to_f a bh (q_row_of a q_tile (p div ?D)) (p mod ?D)"
  let ?P = "\<lambda>t. (\<Union>d\<in>set (strided 32 ?D (t mod 32)). {t div 32 * ?D + d})"
  have thread: "load_q to_f a (qbase a bh) q_tile t ys = Inr (overwrite ?g (?P t) ys)"
    if t: "t \<in> set order" and ys: "length ys = ?L" for t ys
  proof -
    have row: "t div 32 < ka_Br a" using t order by (simp add: less_mult_imp_div_less)
    let ?i = "q_row_of a q_tile (t div 32)"
    have one: "rbind (if ?i < ka_S_q a then rbind (off_at (ka_Q a) (qbase a bh) (?i * ka_stride_S_q a + d))
        (\<lambda>x. Inr (to_f x)) else Inr 0) (\<lambda>v. buf_set (t div 32 * ?D + d) v zs) = Inr (overwrite ?g {t div 32 * ?D + d} zs)"
      if d: "d \<in> set (strided 32 ?D (t mod 32))" and zs: "length zs = ?L" for d zs
    proof -
      have d: "d < ?D" using d by (simp add: set_strided)
      have "(bh * ka_S_q a + ?i) * ?D + d < B * ka_H_q a * ka_S_q a * ?D"
        by (rule flat3_less [OF bh row_live [OF row] d])
      then have "off_at (ka_Q a) (qbase a bh) (?i * ka_stride_S_q a + d) = Inr (ka_Q a ! ((bh * ka_S_q a + ?i) * ?D + d))"
        using okd(13,14) off_at_ok [of "qbase a bh" "?i * ka_stride_S_q a + d" "ka_Q a"] unfolding qbase_flat [OF ok] by simp
      moreover have "t div 32 * ?D + d < ?L" by (rule flat_index_less [OF row d])
      ultimately show ?thesis
        using row_live [OF row] zs okd(10) d by (simp add: q_elt_def overwrite_single [symmetric])
    qed
    show ?thesis unfolding load_q_def Let_def by (rule rfold_overwrite [where L = ?L]) (use one ys in auto)
  qed
  have "rfold (load_q to_f a (qbase a bh) q_tile) order sQ = Inr (overwrite ?g (\<Union>t\<in>set order. ?P t) sQ)"
    by (rule rfold_overwrite [where L = ?L]) (use thread assms(2) in auto)
  also have "overwrite ?g (\<Union>t\<in>set order. ?P t) sQ = map ?g [0..<length sQ]"
  proof (rule overwrite_all, rule subsetI)
    fix p assume "p \<in> {0..<length sQ}"
    then have p: "p div ?D < ka_Br a" "p mod ?D < ?D"
      using assms(2) okd(3) by (simp_all add: less_mult_imp_div_less)
    let ?t = "p div ?D * 32 + p mod ?D mod 32"
    have "?t < ka_Br a * 32" by (rule flat_index_less [OF p(1)]) simp
    moreover have "p mod ?D \<in> set (strided 32 ?D (?t mod 32))"
      using p(2) by (auto simp: set_strided minus_mod_eq_mult_div)
    ultimately have "?t \<in> set order" "p \<in> ?P ?t" using order by (auto intro!: bexI [of _ "p mod ?D"])
    then show "p \<in> (\<Union>t\<in>set order. ?P t)" by blast
  qed
  finally show ?thesis using assms(2) by simp
qed

lemma load_kv_ok:
  assumes ok: "fa_ok B a" and bh: "bh < B * ka_H_q a" and "i < ka_Bc a * ka_D a" and "B * ka_H_kv a * ka_S_kv a * ka_D a \<le> length X" "length X < 2 ^ 31"
  shows "load_kv to_f a X (kbase a bh) kv_start i = Inr (kv_elt to_f a X bh (kv_start + i div ka_D a) (i mod ka_D a))"
proof (cases "kv_start + i div ka_D a < ka_S_kv a")
  case True
  let ?j = "kv_start + i div ka_D a" and ?d = "i mod ka_D a"
  have "?d < ka_D a" using fa_okD(3) [OF ok] by simp
  then have "(kv_head a bh * ka_S_kv a + ?j) * ka_D a + ?d < B * ka_H_kv a * ka_S_kv a * ka_D a"
    by (rule flat3_less [OF kv_head_less [OF ok bh] True])
  then have "off_at X (kbase a bh) (?j * ka_stride_S_k a + ?d) = Inr (X ! ((kv_head a bh * ka_S_kv a + ?j) * ka_D a + ?d))"
    using assms(4,5) off_at_ok [of "kbase a bh" "?j * ka_stride_S_k a + ?d" X] unfolding kbase_flat [OF ok] by simp
  with True show ?thesis by (simp add: load_kv_def Let_def kv_elt_def)
next
  case False
  then show ?thesis by (simp add: load_kv_def Let_def kv_elt_def)
qed

lemma fill_kv_ok:
  assumes blk: "fa_blk B a q_tile bh order warps" and "length tile = ka_Bc a * ka_D a"
    and "B * ka_H_kv a * ka_S_kv a * ka_D a \<le> length X" "length X < 2 ^ 31"
  shows "coop_fill (load_kv to_f a X (kbase a bh) kv_start) (ka_Br a * 32) (ka_Bc a * ka_D a) order tile =
    Inr (map (\<lambda>i. kv_elt to_f a X bh (kv_start + i div ka_D a) (i mod ka_D a)) [0..<ka_Bc a * ka_D a])"
  by (rule coop_fill_ok) (use assms(2-4) load_kv_ok fa_okD [OF fa_blkD(1) [OF blk]] fa_blkD [OF blk] in auto)


text \<open>What the tiles hold after the loads, as functions of the position.\<close>

definition q_tile_of :: "('h \<Rightarrow> real) \<Rightarrow> 'h fa_args \<Rightarrow> nat \<Rightarrow> nat \<Rightarrow> real list" where
  "q_tile_of to_f a q_tile bh =
     map (\<lambda>p. q_elt to_f a bh (q_row_of a q_tile (p div ka_D a)) (p mod ka_D a)) [0..<ka_Br a * ka_D a]"

definition kv_tile_of :: "('h \<Rightarrow> real) \<Rightarrow> 'h fa_args \<Rightarrow> 'h list \<Rightarrow> nat \<Rightarrow> nat \<Rightarrow> real list" where
  "kv_tile_of to_f a X bh kv_start =
     map (\<lambda>i. kv_elt to_f a X bh (kv_start + i div ka_D a) (i mod ka_D a)) [0..<ka_Bc a * ka_D a]"

lemma q_tile_of_nth: "row < ka_Br a \<Longrightarrow> d < ka_D a \<Longrightarrow>
    q_tile_of to_f a q_tile bh ! (row * ka_D a + d) = q_elt to_f a bh (q_row_of a q_tile row) d"
  by (simp add: q_tile_of_def flat_index_less)

lemma kv_tile_of_nth: "j < ka_Bc a \<Longrightarrow> d < ka_D a \<Longrightarrow>
    kv_tile_of to_f a X bh kv_start ! (j * ka_D a + d) = kv_elt to_f a X bh (kv_start + j) d"
  by (simp add: kv_tile_of_def flat_index_less)

lemma score_row_ok:
  assumes "row < ka_Br a" and "length sS = ka_Br a * ka_Bc a" and "ka_Br a * ka_Bc a < 2 ^ 31"
  shows "score_row a q_tile kv_start (q_tile_of to_f a q_tile bh) (kv_tile_of to_f a (ka_K a) bh kv_start) row sS =
    Inr (overwrite (\<lambda>p. score to_f a bh (q_row_of a q_tile (p div ka_Bc a)) (kv_start + p mod ka_Bc a))
      (\<Union>j\<in>{0..<ka_Bc a}. {row * ka_Bc a + j}) sS)"
  (is "_ = Inr (overwrite ?g _ sS)")
proof -
  let ?i = "q_row_of a q_tile row" and ?sQ = "q_tile_of to_f a q_tile bh"
    and ?sK = "kv_tile_of to_f a (ka_K a) bh kv_start"
  have dot: "fold (\<lambda>d dot. dot + ?sQ ! (row * ka_D a + d) * ?sK ! (j * ka_D a + d)) [0..<ka_D a] 0 * ka_scale a =
      qk to_f a bh ?i (kv_start + j)" if "j < ka_Bc a" for j
    unfolding fold_add_sum qk_def using assms(1) that by (simp add: q_tile_of_nth kv_tile_of_nth)
  have one: "buf_set (row * ka_Bc a + j) (?g (row * ka_Bc a + j)) ys = Inr (overwrite ?g {row * ka_Bc a + j} ys)"
    if "j < ka_Bc a" "length ys = ka_Br a * ka_Bc a" for j ys
    using flat_index_less [OF assms(1) that(1)] that(2) assms(3)
      overwrite_single [of "row * ka_Bc a + j" ys ?g] by (simp only: buf_set_ok)
  have step: "(let kv_abs = kv_start + j in
      if ka_S_kv a \<le> kv_abs \<or> ka_causal a \<and> ?i < kv_abs then buf_set (row * ka_Bc a + j) NEG ys
      else buf_set (row * ka_Bc a + j)
        (fold (\<lambda>d dot. dot + ?sQ ! (row * ka_D a + d) * ?sK ! (j * ka_D a + d)) [0..<ka_D a] 0 * ka_scale a) ys) =
      Inr (overwrite ?g {row * ka_Bc a + j} ys)" if j: "j < ka_Bc a" and ys: "length ys = ka_Br a * ka_Bc a" for j ys
    using one [OF j ys] dot [OF j] j by (auto simp: Let_def score_def visible_def not_le not_less)
  have "score_row a q_tile kv_start ?sQ ?sK row sS =
    Inr (overwrite ?g (\<Union>j\<in>set [0..<ka_Bc a]. {row * ka_Bc a + j}) sS)"
    unfolding score_row_def by (rule rfold_overwrite [where L = "ka_Br a * ka_Bc a"]) (use step assms(2) in auto)
  then show ?thesis by simp
qed

lemma score_rows_ok:
  assumes "set ws = {0..<ka_Br a}" and "length sS = ka_Br a * ka_Bc a" and "ka_Br a * ka_Bc a < 2 ^ 31" and "0 < ka_Bc a"
  shows "rfold (score_row a q_tile kv_start (q_tile_of to_f a q_tile bh) (kv_tile_of to_f a (ka_K a) bh kv_start)) ws sS =
    Inr (map (\<lambda>p. score to_f a bh (q_row_of a q_tile (p div ka_Bc a)) (kv_start + p mod ka_Bc a)) [0..<ka_Br a * ka_Bc a])"
  (is "_ = Inr (map ?g _)")
proof -
  let ?P = "\<lambda>row. (\<Union>j\<in>{0..<ka_Bc a}. {row * ka_Bc a + j})"
  have "rfold (score_row a q_tile kv_start (q_tile_of to_f a q_tile bh) (kv_tile_of to_f a (ka_K a) bh kv_start)) ws sS =
    Inr (overwrite ?g (\<Union>row\<in>set ws. ?P row) sS)"
    by (rule rfold_overwrite [where L = "ka_Br a * ka_Bc a"]) (use score_row_ok assms in auto)
  also have "overwrite ?g (\<Union>row\<in>set ws. ?P row) sS = map ?g [0..<length sS]"
  proof (rule overwrite_all, rule subsetI)
    fix p assume "p \<in> {0..<length sS}"
    then have "p div ka_Bc a \<in> set ws" "p mod ka_Bc a \<in> {0..<ka_Bc a}"
      using assms by (simp_all add: less_mult_imp_div_less)
    moreover have "p \<in> {p div ka_Bc a * ka_Bc a + p mod ka_Bc a}" by simp
    ultimately show "p \<in> (\<Union>row\<in>set ws. ?P row)" by blast
  qed
  finally show ?thesis using assms(2) by simp
qed

text \<open>The rows are updated independently of each other.\<close>

definition s_row :: "nat \<Rightarrow> real list \<Rightarrow> nat \<Rightarrow> real list" where
  "s_row Bc sS row = map (\<lambda>j. sS ! (row * Bc + j)) [0..<Bc]"

lemma fold_update_nth:
  "\<forall>j\<in>set js. f j \<noteq> p \<Longrightarrow> fold (\<lambda>j xs. xs[f j := g j]) js xs ! p = xs ! p"
  by (induction js arbitrary: xs) simp_all

lemma fold_update_length: "length (fold (\<lambda>j xs. xs[f j := g j]) js xs) = length xs"
  by (induction js arbitrary: xs) simp_all

lemma flat_index_inj: "c < C \<Longrightarrow> c' < C \<Longrightarrow> r * C + c = r' * C + c' \<Longrightarrow> r = (r' :: nat)"
proof -
  assume c: "c < C" "c' < C" and "r * C + c = r' * C + c'"
  then have "(r * C + c) div C = (r' * C + c') div C" by simp
  with c show ?thesis by simp
qed

lemma softmax_row_other:
  assumes "softmax_row Bc D sV row (sS, regs) = (sS', regs')"
  shows "length sS' = length sS" and "row' \<noteq> row \<Longrightarrow> s_row Bc sS' row' = s_row Bc sS row'"
    and "regs' = regs[row := snd (row_update Bc D sV (s_row Bc sS row) (regs ! row))]"
proof -
  obtain ps r where u: "row_update Bc D sV (s_row Bc sS row) (regs ! row) = (ps, r)" by force
  then have st: "sS' = fold (\<lambda>j sS. sS[row * Bc + j := ps ! j]) [0..<Bc] sS" "regs' = regs[row := r]"
    using assms by (simp_all add: softmax_row_def s_row_def)
  show "length sS' = length sS" by (simp add: st fold_update_length)
  show "regs' = regs[row := snd (row_update Bc D sV (s_row Bc sS row) (regs ! row))]" by (simp add: st u)
  assume n: "row' \<noteq> row"
  have "sS' ! (row' * Bc + j) = sS ! (row' * Bc + j)" if "j < Bc" for j
  proof -
    have "row * Bc + k \<noteq> row' * Bc + j" if "k < Bc" for k
      using flat_index_inj [OF that \<open>j < Bc\<close>, of row row'] n by blast
    then show ?thesis unfolding st(1) by (intro fold_update_nth) simp
  qed
  then show "s_row Bc sS' row' = s_row Bc sS row'" by (simp add: s_row_def)
qed

lemma softmax_rows:
  assumes "distinct ws" and "set ws \<subseteq> {0..<length regs}"
    and "fold (softmax_row Bc D sV) ws (sS, regs) = (sS', regs')"
  shows "length sS' = length sS \<and> length regs' = length regs \<and>
    (\<forall>row\<in>set ws. regs' ! row = snd (row_update Bc D sV (s_row Bc sS row) (regs ! row))) \<and>
    (\<forall>row. row \<notin> set ws \<longrightarrow> regs' ! row = regs ! row)"
  using assms
proof (induction ws arbitrary: sS regs)
  case (Cons w ws)
  obtain s1 r1 where 1: "softmax_row Bc D sV w (sS, regs) = (s1, r1)" by force
  note other = softmax_row_other [OF 1]
  have "length sS' = length s1 \<and> length regs' = length r1 \<and>
    (\<forall>row\<in>set ws. regs' ! row = snd (row_update Bc D sV (s_row Bc s1 row) (r1 ! row))) \<and>
    (\<forall>row. row \<notin> set ws \<longrightarrow> regs' ! row = r1 ! row)"
    using Cons.prems 1 other(3) by (intro Cons.IH) auto
  moreover have "s_row Bc s1 row = s_row Bc sS row \<and> r1 ! row = regs ! row" if "row \<in> set ws" for row
    using other(2,3) that Cons.prems(1) by (cases "row = w") auto
  ultimately show ?case using other(1,3) Cons.prems(1,2) by auto
qed simp

section \<open>The loop over the tiles\<close>

definition blk_inv :: "('h \<Rightarrow> real) \<Rightarrow> 'h fa_args \<Rightarrow> nat \<Rightarrow> nat \<Rightarrow> nat \<Rightarrow> fa_shared \<times> fa_row list \<Rightarrow> bool" where
  "blk_inv to_f a q_tile bh k st \<longleftrightarrow> (case st of (sh, regs) \<Rightarrow>
     sm_Q sh = q_tile_of to_f a q_tile bh \<and> length (sm_K sh) = ka_Bc a * ka_D a \<and>
     length (sm_V sh) = ka_Bc a * ka_D a \<and> length (sm_S sh) = ka_Br a * ka_Bc a \<and> length regs = ka_Br a \<and>
     (\<forall>row<ka_Br a. row_inv (score to_f a bh (q_row_of a q_tile row)) (kv_elt to_f a (ka_V a) bh) (ka_D a)
       (min k (tiles a q_tile) * ka_Bc a) (regs ! row)))"

lemma blk_inv_outside:
  assumes "blk_inv to_f a q_tile bh k st" and "\<not> k < tiles a q_tile"
  shows "blk_inv to_f a q_tile bh (Suc k) st"
proof -
  have "min (Suc k) (tiles a q_tile) = min k (tiles a q_tile)" using assms(2) by simp
  with assms(1) show ?thesis by (simp only: blk_inv_def)
qed

lemma fa_tile_step:
  assumes blk: "fa_blk B a q_tile bh order warps" and inv: "blk_inv to_f a q_tile bh k (sh, regs)"
    and k: "k < tiles a q_tile"
  shows "\<exists>st'. fa_tile to_f a (kbase a bh) q_tile order warps k (sh, regs) = Inr st' \<and>
    blk_inv to_f a q_tile bh (Suc k) st'"
proof -
  note ok = fa_okD [OF fa_blkD(1) [OF blk]]
  let ?D = "ka_D a" and ?Bc = "ka_Bc a" and ?kv = "k * ka_Bc a"
  let ?sK = "kv_tile_of to_f a (ka_K a) bh ?kv" and ?sV = "kv_tile_of to_f a (ka_V a) bh ?kv"
  let ?g = "\<lambda>p. score to_f a bh (q_row_of a q_tile (p div ?Bc)) (?kv + p mod ?Bc)"
  have len: "sm_Q sh = q_tile_of to_f a q_tile bh" "length (sm_K sh) = ?Bc * ?D" "length (sm_V sh) = ?Bc * ?D"
      "length (sm_S sh) = ka_Br a * ?Bc" "length regs = ka_Br a"
    and rows: "\<And>row. row < ka_Br a \<Longrightarrow> row_inv (score to_f a bh (q_row_of a q_tile row))
      (kv_elt to_f a (ka_V a) bh) ?D ?kv (regs ! row)"
    using inv k by (simp_all add: blk_inv_def min_def)
  let ?sS = "map ?g [0..<ka_Br a * ?Bc]"
  obtain sS' regs' where f: "fold (softmax_row ?Bc ?D ?sV) warps (?sS, regs) = (sS', regs')" by force
  have run: "fa_tile to_f a (kbase a bh) q_tile order warps k (sh, regs) =
    Inr (sh\<lparr>sm_K := ?sK, sm_V := ?sV, sm_S := sS'\<rparr>, regs')"
    unfolding fa_tile_def Let_def all_in_loop [OF blk k] prod.case len(1)
      fill_kv_ok [OF blk len(2) ok(15,16), folded kv_tile_of_def]
      fill_kv_ok [OF blk len(3) ok(17,18), folded kv_tile_of_def]
      rbind_simps score_rows_ok [OF fa_blkD(5) [OF blk] len(4) ok(12,2)] f ..
  have "set warps \<subseteq> {0..<length regs}" using fa_blkD(5) [OF blk] len(5) by simp
  note sm = softmax_rows [OF fa_blkD(6) [OF blk] this f]
  have "row_inv (score to_f a bh (q_row_of a q_tile row)) (kv_elt to_f a (ka_V a) bh) ?D (?kv + ?Bc) (regs' ! row)"
    if row: "row < ka_Br a" for row
  proof -
    obtain ps r where u: "row_update ?Bc ?D ?sV (s_row ?Bc ?sS row) (regs ! row) = (ps, r)" by force
    have "s_row ?Bc ?sS row = map (\<lambda>j. score to_f a bh (q_row_of a q_tile row) (?kv + j)) [0..<?Bc]"
      using row by (simp add: s_row_def flat_index_less)
    then have "row_inv (score to_f a bh (q_row_of a q_tile row)) (kv_elt to_f a (ka_V a) bh) ?D (?kv + ?Bc) r"
      by (rule row_update_inv(1) [OF rows [OF row] ok(2) _ _ u]) (simp add: kv_tile_of_nth)
    moreover have "regs' ! row = r" using sm row fa_blkD(5) [OF blk] u by simp
    ultimately show ?thesis by simp
  qed
  then have "blk_inv to_f a q_tile bh (Suc k) (sh\<lparr>sm_K := ?sK, sm_V := ?sV, sm_S := sS'\<rparr>, regs')"
    using k sm len by (simp add: blk_inv_def kv_tile_of_def min_def add.commute)
  with run show ?thesis by blast
qed

lemma fa_tiles_ok:
  assumes blk: "fa_blk B a q_tile bh order warps" and "blk_inv to_f a q_tile bh 0 st"
    and "n \<le> ceil_div (ka_S_kv a) (ka_Bc a)"
  shows "\<exists>st'. rfold (fa_tile to_f a (kbase a bh) q_tile order warps) [0..<n] st = Inr st' \<and>
    blk_inv to_f a q_tile bh n st'"
  using assms(3)
proof (induction n)
  case 0
  then show ?case using assms(2) by simp
next
  case (Suc n)
  then obtain sh regs where st: "rfold (fa_tile to_f a (kbase a bh) q_tile order warps) [0..<n] st = Inr (sh, regs)"
    "blk_inv to_f a q_tile bh n (sh, regs)" by auto
  show ?case
  proof (cases "n < tiles a q_tile")
    case True
    then obtain st' where "fa_tile to_f a (kbase a bh) q_tile order warps n (sh, regs) = Inr st'"
      "blk_inv to_f a q_tile bh (Suc n) st'" using fa_tile_step [OF blk st(2)] by blast
    then show ?thesis using st(1) by (auto simp: rfold_append)
  next
    case False
    have "fa_tile to_f a (kbase a bh) q_tile order warps n (sh, regs) = Inr (sh, regs)"
      using none_in_loop [OF blk _ False] Suc.prems by (simp add: fa_tile_def coop_fill_def)
    then show ?thesis using st blk_inv_outside [OF st(2) False] by (simp add: rfold_append)
  qed
qed

section \<open>The output of a block\<close>

text \<open>What the kernel computes for a row: the softmax over the visited rows, masked ones with score \<open>NEG\<close>.\<close>

definition fa_out :: "('h \<Rightarrow> real) \<Rightarrow> 'h fa_args \<Rightarrow> nat \<Rightarrow> nat \<Rightarrow> nat \<Rightarrow> real" where
  "fa_out to_f a bh i d = soft (visited a i) (score to_f a bh i) (\<lambda>j. kv_elt to_f a (ka_V a) bh j d)"

definition fa_lse :: "('h \<Rightarrow> real) \<Rightarrow> 'h fa_args \<Rightarrow> nat \<Rightarrow> nat \<Rightarrow> real" where
  "fa_lse to_f a bh i = ln (\<Sum>j<visited a i. exp (score to_f a bh i j))"

lemma tiles_pos: "fa_ok B a \<Longrightarrow> 0 < tiles a q_tile"
  using ceil_div_cover [of "ka_Bc a" 0 "ka_S_kv a"] fa_okD(2,9) [of B a] by (auto simp: tiles_def)

lemma visited_row: "row < ka_Br a \<Longrightarrow> visited a (q_row_of a q_tile row) = tiles a q_tile * ka_Bc a"
  by (simp add: visited_def q_row_of_def)

lemma blk_inv_rows:
  assumes "fa_ok B a" and "blk_inv to_f a q_tile bh (ceil_div (ka_S_kv a) (ka_Bc a)) (sh, regs)" and "row < ka_Br a"
  shows "d < ka_D a \<Longrightarrow> rg_o (regs ! row) ! d = fa_out to_f a bh (q_row_of a q_tile row) d"
    and "rg_m (regs ! row) + ln (if rg_l (regs ! row) > 0 then rg_l (regs ! row) else c) =
      fa_lse to_f a bh (q_row_of a q_tile row)"
proof -
  have "min (ceil_div (ka_S_kv a) (ka_Bc a)) (tiles a q_tile) = tiles a q_tile" by (simp add: tiles_def)
  then have "row_inv (score to_f a bh (q_row_of a q_tile row)) (kv_elt to_f a (ka_V a) bh) (ka_D a)
      (visited a (q_row_of a q_tile row)) (regs ! row)"
    using assms(2,3) by (simp add: blk_inv_def visited_row)
  note soft = row_inv_soft [OF this]
  have "0 < visited a (q_row_of a q_tile row)"
    using tiles_pos [OF assms(1)] fa_okD(2) [OF assms(1)] assms(3) by (simp add: visited_row)
  with soft show "d < ka_D a \<Longrightarrow> rg_o (regs ! row) ! d = fa_out to_f a bh (q_row_of a q_tile row) d"
    and "rg_m (regs ! row) + ln (if rg_l (regs ! row) > 0 then rg_l (regs ! row) else c) =
      fa_lse to_f a bh (q_row_of a q_tile row)"
    by (simp_all add: fa_out_def fa_lse_def)
qed

text \<open>Where the block writes.\<close>

definition o_cells :: "'h fa_args \<Rightarrow> nat \<times> nat \<Rightarrow> nat set" where
  "o_cells a blk = (case blk of (q_tile, bh) \<Rightarrow>
     (\<Union>row\<in>{0..<ka_Br a}. \<Union>d\<in>{0..<ka_D a}. {(bh * ka_S_q a + q_row_of a q_tile row) * ka_D a + d}))"

definition lse_cells :: "'h fa_args \<Rightarrow> nat \<times> nat \<Rightarrow> nat set" where
  "lse_cells a blk = (case blk of (q_tile, bh) \<Rightarrow>
     (\<Union>row\<in>{0..<ka_Br a}. {bh * ka_S_q a + q_row_of a q_tile row}))"

definition o_at :: "('h \<Rightarrow> real) \<Rightarrow> (real \<Rightarrow> 'h) \<Rightarrow> 'h fa_args \<Rightarrow> nat \<Rightarrow> 'h" where
  "o_at to_f of_f a p = of_f (fa_out to_f a (p div ka_D a div ka_S_q a) (p div ka_D a mod ka_S_q a) (p mod ka_D a))"

definition lse_at :: "('h \<Rightarrow> real) \<Rightarrow> 'h fa_args \<Rightarrow> nat \<Rightarrow> real" where
  "lse_at to_f a p = fa_lse to_f a (p div ka_S_q a) (p mod ka_S_q a)"

lemma o_at_flat: "i < ka_S_q a \<Longrightarrow> d < ka_D a \<Longrightarrow>
    o_at to_f of_f a ((bh * ka_S_q a + i) * ka_D a + d) = of_f (fa_out to_f a bh i d)"
  by (simp add: o_at_def)

lemma lse_at_flat: "i < ka_S_q a \<Longrightarrow> lse_at to_f a (bh * ka_S_q a + i) = fa_lse to_f a bh i"
  by (simp add: lse_at_def)

lemma write_o_ok:
  assumes blk: "fa_blk B a q_tile bh order warps" and inv: "blk_inv to_f a q_tile bh (ceil_div (ka_S_kv a) (ka_Bc a)) (sh, regs)"
    and len: "length out = L" "B * ka_H_q a * ka_S_q a * ka_D a \<le> L" "L < 2 ^ 31"
  shows "rfold (write_o of_f a (bh div ka_H_q a * ka_stride_B_o a + bh mod ka_H_q a * ka_stride_H_o a) q_tile regs) warps out =
    Inr (overwrite (o_at to_f of_f a) (o_cells a (q_tile, bh)) out)"
proof -
  let ?base = "bh div ka_H_q a * ka_stride_B_o a + bh mod ka_H_q a * ka_stride_H_o a"
  let ?p = "\<lambda>row d. (bh * ka_S_q a + q_row_of a q_tile row) * ka_D a + d"
  note ok = fa_blkD(1) [OF blk]
  have flat: "?base + (i * ka_stride_S_o a + d) = (bh * ka_S_q a + i) * ka_D a + d" for i d
    by (simp only: fa_ok_strides [OF ok] head_offset bh_split)
  have one: "off_set ?base (q_row_of a q_tile row * ka_stride_S_o a + d) (of_f (rg_o (regs ! row) ! d)) ys =
    Inr (overwrite (o_at to_f of_f a) {?p row d} ys)" if row: "row < ka_Br a" and d: "d < ka_D a" and ys: "length ys = L" for row d ys
  proof -
    have p: "?p row d < length ys"
      using flat3_less [OF fa_blkD(3) [OF blk] row_live [OF blk row] d] len(2) ys by simp
    then have "off_set ?base (q_row_of a q_tile row * ka_stride_S_o a + d) v ys = Inr (ys[?p row d := v])" for v
      using off_set_ok [of ?base "q_row_of a q_tile row * ka_stride_S_o a + d" ys v] ys len(3) unfolding flat by simp
    then show ?thesis using overwrite_single [OF p, of "o_at to_f of_f a"] blk_inv_rows(1) [OF ok inv row d]
        o_at_flat [OF row_live [OF blk row] d, of to_f of_f bh] by simp
  qed
  have "write_o of_f a ?base q_tile regs row ys = Inr (overwrite (o_at to_f of_f a) (\<Union>d\<in>set [0..<ka_D a]. {?p row d}) ys)"
    if "row < ka_Br a" "length ys = L" for row ys
    unfolding write_o_def by (rule rfold_overwrite [where L = L]) (use one that in auto)
  then have "rfold (write_o of_f a ?base q_tile regs) warps out =
    Inr (overwrite (o_at to_f of_f a) (\<Union>row\<in>set warps. \<Union>d\<in>set [0..<ka_D a]. {?p row d}) out)"
    by (intro rfold_overwrite [where L = L]) (use fa_blkD(5) [OF blk] len(1) in auto)
  then show ?thesis using fa_blkD(5) [OF blk] by (simp add: o_cells_def)
qed

lemma write_lse_ok:
  assumes blk: "fa_blk B a q_tile bh order warps" and inv: "blk_inv to_f a q_tile bh (ceil_div (ka_S_kv a) (ka_Bc a)) (sh, regs)"
    and len: "length lse = L" "B * ka_H_q a * ka_S_q a \<le> L" "L < 2 ^ 31"
  shows "rfold (write_lse a ((bh div ka_H_q a * ka_H_q a + bh mod ka_H_q a) * ka_S_q a) q_tile regs) warps lse =
    Inr (overwrite (lse_at to_f a) (lse_cells a (q_tile, bh)) lse)"
proof -
  let ?p = "\<lambda>row. bh * ka_S_q a + q_row_of a q_tile row"
  have "write_lse a (bh * ka_S_q a) q_tile regs row ys = Inr (overwrite (lse_at to_f a) {?p row} ys)"
    if row: "row < ka_Br a" and ys: "length ys = L" for row ys
  proof -
    have p: "?p row < length ys"
      using flat_index_less [OF fa_blkD(3) [OF blk] row_live [OF blk row]] len(2) ys by simp
    then have "off_set (bh * ka_S_q a) (q_row_of a q_tile row) v ys = Inr (ys[?p row := v])" for v
      using off_set_ok [OF p] ys len(3) by simp
    then show ?thesis using overwrite_single [OF p, of "lse_at to_f a"] lse_at_flat [OF row_live [OF blk row], of to_f bh]
        blk_inv_rows(2) [OF fa_blkD(1) [OF blk] inv row, of "1 / 10 ^ 30"] by (simp add: write_lse_def)
  qed
  then have "rfold (write_lse a (bh * ka_S_q a) q_tile regs) warps lse =
    Inr (overwrite (lse_at to_f a) (\<Union>row\<in>set warps. {?p row}) lse)"
    by (intro rfold_overwrite [where L = L]) (use fa_blkD(5) [OF blk] len(1) in auto)
  then show ?thesis using fa_blkD(5) [OF blk] by (simp add: lse_cells_def)
qed

text \<open>Shared memory of the sizes the launch asks for.\<close>

definition shared_ok :: "'h fa_args \<Rightarrow> fa_shared \<Rightarrow> bool" where
  "shared_ok a sh \<longleftrightarrow> length (sm_Q sh) = ka_Br a * ka_D a \<and> length (sm_K sh) = ka_Bc a * ka_D a \<and>
     length (sm_V sh) = ka_Bc a * ka_D a \<and> length (sm_S sh) = ka_Br a * ka_Bc a"

lemma fa_block_ok:
  assumes blk: "fa_blk B a q_tile bh order warps" and sh: "shared_ok a shared"
    and "length out = L" "B * ka_H_q a * ka_S_q a * ka_D a \<le> L" "L < 2 ^ 31"
    and "length lse = M" "B * ka_H_q a * ka_S_q a \<le> M" "M < 2 ^ 31"
  shows "flash_attn_fwd_kernel to_f of_f a shared order warps (q_tile, bh) (out, lse) =
    Inr (overwrite (o_at to_f of_f a) (o_cells a (q_tile, bh)) out, overwrite (lse_at to_f a) (lse_cells a (q_tile, bh)) lse)"
proof -
  note ok = fa_okD [OF fa_blkD(1) [OF blk]]
  have nz: "\<not> (ka_H_q a = 0 \<or> ka_H_kv a = 0 \<or> ka_H_q a div ka_H_kv a = 0)"
    using ok(5,6,8) by simp
  let ?st = "(shared\<lparr>sm_Q := q_tile_of to_f a q_tile bh\<rparr>,
    replicate (ka_Br a) \<lparr>rg_m = NEG, rg_l = 0, rg_o = replicate (ka_D a) 0\<rparr>)"
  have "blk_inv to_f a q_tile bh 0 ?st" using sh by (simp add: blk_inv_def shared_ok_def row_inv_def)
  then obtain sh' regs where run: "rfold (fa_tile to_f a (kbase a bh) q_tile order warps)
      [0..<ceil_div (ka_S_kv a) (ka_Bc a)] ?st = Inr (sh', regs)"
    and inv: "blk_inv to_f a q_tile bh (ceil_div (ka_S_kv a) (ka_Bc a)) (sh', regs)"
    using fa_tiles_ok [OF blk _ order_refl] by (metis prod.exhaust)
  have lq: "rfold (load_q to_f a (qbase a bh) q_tile) order (sm_Q shared) = Inr (q_tile_of to_f a q_tile bh)"
    using load_q_ok [OF blk, of "sm_Q shared"] sh by (simp add: shared_ok_def q_tile_of_def)
  show ?thesis
    unfolding flash_attn_fwd_kernel_def Let_def prod.case if_not_P [OF nz] all_live [OF blk]
      qbase_def [symmetric] kbase_def [symmetric] lq rbind_simps run fst_conv snd_conv
      write_o_ok [OF blk inv assms(3-5)] write_lse_ok [OF blk inv assms(6-8)] ..
qed

end
