(* ===== verification/Flash_Attn_Properties.thy ===== *)
theory Flash_Attn_Properties
  imports Flash_Attn
begin

text \<open>
  What the attention kernel promises, over the model of the theory Flash_Attn: how far its output is
  from exact masked attention, what happens to a query tile that is not full, the launcher for
  FP16 and the autotuner (kernels/flash_attn.cu).
\<close>

section \<open>Exact attention\<close>

definition seen :: "'h fa_args \<Rightarrow> nat \<Rightarrow> nat set" where
  "seen a i = {j. visible a i j}"

definition attn_mass :: "('h \<Rightarrow> real) \<Rightarrow> 'h fa_args \<Rightarrow> nat \<Rightarrow> nat \<Rightarrow> real" where
  "attn_mass to_f a bh i = (\<Sum>j\<in>seen a i. exp (qk to_f a bh i j))"

definition attention :: "('h \<Rightarrow> real) \<Rightarrow> 'h fa_args \<Rightarrow> nat \<Rightarrow> nat \<Rightarrow> nat \<Rightarrow> real" where
  "attention to_f a bh i d =
     (\<Sum>j\<in>seen a i. exp (qk to_f a bh i j) * kv_elt to_f a (ka_V a) bh j d) / attn_mass to_f a bh i"

text \<open>The kernel visits every row that is visible.\<close>

lemma seen_visited:
  assumes "fa_ok B a"
  shows "seen a i \<subseteq> {..<visited a i}"
proof
  fix j assume "j \<in> seen a i"
  then have j: "j < ka_S_kv a" "ka_causal a \<Longrightarrow> j \<le> i" by (simp_all add: seen_def visible_def)
  note ok = fa_okD [OF assms]
  have c: "j div ka_Bc a < ceil_div (ka_S_kv a) (ka_Bc a)" by (rule ceil_div_cover [OF ok(2) j(1)])
  have "j div ka_Bc a < tiles a (i div ka_Br a)"
  proof (cases "ka_causal a")
    case True
    have "j div ka_Bc a \<le> i div ka_Bc a" using j(2) [OF True] by (rule div_le_mono)
    also have "i div ka_Bc a = i div ka_Br a * ka_Br a div ka_Bc a"
      using tile_uniform [OF ok(4), of "i mod ka_Br a" "i div ka_Br a"] ok(1) by simp
    finally show ?thesis using c by (simp add: tiles_def True)
  qed (use c in \<open>simp add: tiles_def\<close>)
  then have "j div ka_Bc a * ka_Bc a + j mod ka_Bc a < tiles a (i div ka_Br a) * ka_Bc a"
    using ok(2) by (intro flat_index_less) simp_all
  then show "j \<in> {..<visited a i}" by (simp add: visited_def)
qed

lemma visited_bound:
  assumes "fa_ok B a"
  shows "visited a i \<le> ka_S_kv a + ka_Bc a"
proof -
  have "tiles a (i div ka_Br a) \<le> ceil_div (ka_S_kv a) (ka_Bc a)" by (simp add: tiles_def)
  then have "visited a i \<le> ceil_div (ka_S_kv a) (ka_Bc a) * ka_Bc a" by (simp add: visited_def)
  also have "\<dots> \<le> ka_S_kv a + ka_Bc a - 1" unfolding ceil_div_def by (rule div_times_less_eq_dividend)
  finally show ?thesis by simp
qed

lemma finite_seen: "finite (seen a i)"
  by (rule finite_subset [of _ "{..<ka_S_kv a}"]) (auto simp: seen_def visible_def)

section \<open>The weight of masked rows\<close>

lemma softmax_perturb:
  fixes A W e m c vm :: real
  assumes "0 < W" "0 \<le> e" "0 \<le> c" "\<bar>m\<bar> \<le> c * vm" "\<bar>A\<bar> \<le> W * vm" "0 \<le> vm"
  shows "\<bar>(A + e * m) / (W + e * c) - A / W\<bar> \<le> 2 * vm * c * (e / W)"
proof -
  have pos: "0 < W + e * c" using assms by (simp add: add_pos_nonneg)
  have "(A + e * m) / (W + e * c) - A / W = e * (m * W - c * A) / (W * (W + e * c))"
    using assms(1) pos by (simp add: field_simps)
  then have "\<bar>(A + e * m) / (W + e * c) - A / W\<bar> = e * \<bar>m * W - c * A\<bar> / (W * (W + e * c))"
    using assms(1,2) pos by (simp add: abs_mult)
  also have "\<dots> \<le> e * (2 * vm * c * W) / (W * W)"
  proof (rule frac_le)
    have "\<bar>m * W - c * A\<bar> \<le> \<bar>m\<bar> * W + c * \<bar>A\<bar>"
      using assms(1,3) abs_triangle_ineq4 [of "m * W" "c * A"] by (simp add: abs_mult)
    also have "\<dots> \<le> c * vm * W + c * (W * vm)"
      using assms by (intro add_mono mult_right_mono mult_left_mono) auto
    finally show "e * \<bar>m * W - c * A\<bar> \<le> e * (2 * vm * c * W)"
      using assms(2) by (intro mult_left_mono) (simp_all add: algebra_simps)
    show "W * W \<le> W * (W + e * c)" using assms by simp
  qed (use assms in auto)
  also have "\<dots> = 2 * vm * c * (e / W)" using assms(1) by simp
  finally show ?thesis .
qed

text \<open>Sums over the visited rows, split into the visible and the masked ones.\<close>

definition masked :: "'h fa_args \<Rightarrow> nat \<Rightarrow> nat set" where
  "masked a i = {..<visited a i} - seen a i"

lemma visited_split:
  assumes "fa_ok B a"
  shows "(\<Sum>j<visited a i. exp (score to_f a bh i j) * w j) =
    (\<Sum>j\<in>seen a i. exp (qk to_f a bh i j) * w j) + exp NEG * (\<Sum>j\<in>masked a i. w j)"
proof -
  have "(\<Sum>j<visited a i. exp (score to_f a bh i j) * w j) =
    (\<Sum>j\<in>masked a i. exp (score to_f a bh i j) * w j) + (\<Sum>j\<in>seen a i. exp (score to_f a bh i j) * w j)"
    unfolding masked_def by (rule sum.subset_diff [OF seen_visited [OF assms]]) simp
  also have "(\<Sum>j\<in>masked a i. exp (score to_f a bh i j) * w j) = exp NEG * (\<Sum>j\<in>masked a i. w j)"
    unfolding sum_distrib_left by (intro sum.cong) (auto simp: score_def masked_def seen_def)
  also have "(\<Sum>j\<in>seen a i. exp (score to_f a bh i j) * w j) = (\<Sum>j\<in>seen a i. exp (qk to_f a bh i j) * w j)"
    by (intro sum.cong) (auto simp: score_def seen_def)
  finally show ?thesis by simp
qed

lemma attn_mass_pos: "fa_ok B a \<Longrightarrow> 0 < attn_mass to_f a bh i"
  unfolding attn_mass_def using fa_okD(9) [of B a]
  by (intro sum_pos finite_seen) (auto simp: seen_def visible_def)

lemma attn_mass_ge:
  assumes "fa_ok B a" and "- S \<le> qk to_f a bh i 0"
  shows "exp (- S) \<le> attn_mass to_f a bh i"
proof -
  have "exp (- S) \<le> exp (qk to_f a bh i 0)" using assms(2) by simp
  also have "\<dots> \<le> attn_mass to_f a bh i" unfolding attn_mass_def
    using fa_okD(9) [OF assms(1)] by (intro member_le_sum finite_seen) (auto simp: seen_def visible_def)
  finally show ?thesis .
qed

lemma masked_card: "fa_ok B a \<Longrightarrow> real (card (masked a i)) \<le> real (ka_S_kv a + ka_Bc a)"
  using visited_bound [of B a i] card_mono [of "{..<visited a i}" "masked a i"] by (simp add: masked_def)

lemma masked_weight:
  assumes "fa_ok B a" and "- S \<le> qk to_f a bh i 0"
  shows "real (card (masked a i)) * (exp NEG / attn_mass to_f a bh i) \<le> real (ka_S_kv a + ka_Bc a) * exp (S - 10 ^ 30)"
proof -
  have "exp NEG / attn_mass to_f a bh i \<le> exp NEG / exp (- S)"
    using attn_mass_ge [OF assms] attn_mass_pos [OF assms(1), of to_f bh i] by (intro divide_left_mono) simp_all
  also have "\<dots> = exp (S - 10 ^ 30)" by (simp add: exp_diff [symmetric] NEG_def)
  finally show ?thesis using masked_card [OF assms(1), of i]
    by (intro mult_mono) (simp_all add: attn_mass_pos [OF assms(1)] less_imp_le)
qed

lemma fa_out_close:
  assumes "fa_ok B a" and "- S \<le> qk to_f a bh i 0" and "0 \<le> vm" and "\<And>j. \<bar>kv_elt to_f a (ka_V a) bh j d\<bar> \<le> vm"
  shows "\<bar>fa_out to_f a bh i d - attention to_f a bh i d\<bar> \<le> 2 * vm * (real (ka_S_kv a + ka_Bc a) * exp (S - 10 ^ 30))"
proof -
  let ?v = "\<lambda>j. kv_elt to_f a (ka_V a) bh j d" and ?W = "attn_mass to_f a bh i" and ?c = "real (card (masked a i))"
  let ?A = "\<Sum>j\<in>seen a i. exp (qk to_f a bh i j) * ?v j"
  have W: "0 < ?W" by (rule attn_mass_pos [OF assms(1)])
  have out: "fa_out to_f a bh i d = (?A + exp NEG * (\<Sum>j\<in>masked a i. ?v j)) / (?W + exp NEG * ?c)"
    using visited_split [OF assms(1), of to_f bh i ?v] visited_split [OF assms(1), of to_f bh i "\<lambda>_. 1"]
    by (simp add: fa_out_def soft_def attn_mass_def)
  have "\<bar>\<Sum>j\<in>masked a i. ?v j\<bar> \<le> (\<Sum>j\<in>masked a i. vm)"
    using assms(4) by (intro order_trans [OF sum_abs] sum_mono)
  moreover have "\<bar>?A\<bar> \<le> ?W * vm" unfolding attn_mass_def sum_distrib_right
    using assms(4) by (intro order_trans [OF sum_abs] sum_mono) (simp add: abs_mult)
  ultimately have "\<bar>fa_out to_f a bh i d - attention to_f a bh i d\<bar> \<le> 2 * vm * ?c * (exp NEG / ?W)"
    unfolding out attention_def using W assms(3) by (intro softmax_perturb) simp_all
  also have "\<dots> \<le> 2 * vm * (real (ka_S_kv a + ka_Bc a) * exp (S - 10 ^ 30))"
    unfolding mult.assoc [of "2 * vm" ?c] using masked_weight [OF assms(1,2)] assms(3)
    by (intro mult_left_mono) simp_all
  finally show ?thesis .
qed

lemma fa_lse_close:
  assumes "fa_ok B a" and "- S \<le> qk to_f a bh i 0"
  shows "\<bar>fa_lse to_f a bh i - ln (attn_mass to_f a bh i)\<bar> \<le> real (ka_S_kv a + ka_Bc a) * exp (S - 10 ^ 30)"
proof -
  let ?W = "attn_mass to_f a bh i" and ?c = "real (card (masked a i))"
  let ?x = "?c * (exp NEG / ?W)"
  have W: "0 < ?W" by (rule attn_mass_pos [OF assms(1)])
  have x: "0 \<le> ?x" using W by simp
  have "(\<Sum>j<visited a i. exp (score to_f a bh i j)) = ?W + exp NEG * ?c"
    using visited_split [OF assms(1), of to_f bh i "\<lambda>_. 1"] by (simp add: attn_mass_def)
  also have "\<dots> = ?W * (1 + ?x)" using W by (simp add: field_simps)
  finally have "fa_lse to_f a bh i = ln ?W + ln (1 + ?x)"
    unfolding fa_lse_def using ln_mult_pos [OF W, of "1 + ?x"] x by simp
  moreover have "0 \<le> ln (1 + ?x)" "ln (1 + ?x) \<le> ?x" using x by (simp_all add: ln_add_one_self_le_self)
  ultimately show ?thesis using masked_weight [OF assms] by simp
qed

section \<open>The grid\<close>

lemma rfold_overwrite_pair:
  assumes "\<And>x ys zs. x \<in> set xs \<Longrightarrow> length ys = L \<Longrightarrow> length zs = M \<Longrightarrow>
      f x (ys, zs) = Inr (overwrite g (P x) ys, overwrite h (R x) zs)"
    and "length ys = L" "length zs = M"
  shows "rfold f xs (ys, zs) = Inr (overwrite g (\<Union>x\<in>set xs. P x) ys, overwrite h (\<Union>x\<in>set xs. R x) zs)"
  using assms
proof (induction xs arbitrary: ys zs)
  case (Cons x xs)
  from Cons.prems have "f x (ys, zs) = Inr (overwrite g (P x) ys, overwrite h (R x) zs)" by simp
  moreover have "rfold f xs (overwrite g (P x) ys, overwrite h (R x) zs) =
    Inr (overwrite g (\<Union>x\<in>set xs. P x) (overwrite g (P x) ys), overwrite h (\<Union>x\<in>set xs. R x) (overwrite h (R x) zs))"
    using Cons.prems by (intro Cons.IH) simp_all
  ultimately show ?case by (simp add: overwrite_Un)
qed simp

lemma lse_cells_cover:
  assumes "fa_ok B a" and "set blocks = {0..<ka_S_q a div ka_Br a} \<times> {0..<B * ka_H_q a}"
    and dvd: "ka_Br a dvd ka_S_q a"
    and "bh < B * ka_H_q a" and "i < ka_S_q a"
  shows "bh * ka_S_q a + i \<in> (\<Union>blk\<in>set blocks. lse_cells a blk)"
    and "d < ka_D a \<Longrightarrow> (bh * ka_S_q a + i) * ka_D a + d \<in> (\<Union>blk\<in>set blocks. o_cells a blk)"
proof -
  note ok = fa_okD [OF assms(1)]
  let ?t = "i div ka_Br a" and ?row = "i mod ka_Br a"
  have "i < ka_S_q a div ka_Br a * ka_Br a" using assms(5) dvd by simp
  then have "(?t, bh) \<in> set blocks" using assms(2,4) by (simp add: less_mult_imp_div_less)
  moreover have "?row < ka_Br a" "q_row_of a ?t ?row = i" using ok(1) by (simp_all add: q_row_of_def)
  ultimately show "bh * ka_S_q a + i \<in> (\<Union>blk\<in>set blocks. lse_cells a blk)"
    and "d < ka_D a \<Longrightarrow> (bh * ka_S_q a + i) * ka_D a + d \<in> (\<Union>blk\<in>set blocks. o_cells a blk)"
    by (force simp: lse_cells_def o_cells_def)+
qed

lemma fa_grid_ok:
  fixes to_f :: "'h \<Rightarrow> real"
  assumes "fa_ok B a" and "shared_ok a shared" and dvd: "ka_Br a dvd ka_S_q a"
    and "set order = {0..<ka_Br a * 32}" "set warps = {0..<ka_Br a}" "distinct warps"
    and blocks: "set blocks = {0..<ka_S_q a div ka_Br a} \<times> {0..<B * ka_H_q a}"
    and len: "B * ka_H_q a * ka_S_q a * ka_D a \<le> length out" "length out < 2 ^ 31"
      "B * ka_H_q a * ka_S_q a \<le> length lse" "length lse < 2 ^ 31"
  shows "\<exists>out' lse'. rfold (flash_attn_fwd_kernel to_f of_f a shared order warps) blocks (out, lse) = Inr (out', lse') \<and>
    (\<forall>bh<B * ka_H_q a. \<forall>i<ka_S_q a. lse' ! (bh * ka_S_q a + i) = fa_lse to_f a bh i \<and>
      (\<forall>d<ka_D a. out' ! ((bh * ka_S_q a + i) * ka_D a + d) = of_f (fa_out to_f a bh i d)))"
proof -
  let ?P = "\<Union>blk\<in>set blocks. o_cells a blk" and ?R = "\<Union>blk\<in>set blocks. lse_cells a blk"
  have run: "rfold (flash_attn_fwd_kernel to_f of_f a shared order warps) blocks (out, lse) =
    Inr (overwrite (o_at to_f of_f a) ?P out, overwrite (lse_at to_f a) ?R lse)"
  proof (rule rfold_overwrite_pair [OF _ refl refl])
    fix blk and ys :: "'h list" and zs :: "real list"
    assume b: "blk \<in> set blocks" and l: "length ys = length out" "length zs = length lse"
    obtain q bh where blk: "blk = (q, bh)" by force
    then have "fa_blk B a q bh order warps" using b blocks assms(1-6) by (auto simp: fa_blk_def)
    from fa_block_ok [OF this assms(2) l(1) len(1,2) l(2) len(3,4)]
    show "flash_attn_fwd_kernel to_f of_f a shared order warps blk (ys, zs) =
      Inr (overwrite (o_at to_f of_f a) (o_cells a blk) ys, overwrite (lse_at to_f a) (lse_cells a blk) zs)"
      by (simp add: blk)
  qed
  have "overwrite (lse_at to_f a) ?R lse ! (bh * ka_S_q a + i) = fa_lse to_f a bh i"
    if "bh < B * ka_H_q a" "i < ka_S_q a" for bh i
    using flat_index_less [OF that] len(3) lse_cells_cover(1) [OF assms(1) blocks dvd that] that
    by (simp only: overwrite_nth lse_at_flat if_True less_le_trans)
  moreover have "overwrite (o_at to_f of_f a) ?P out ! ((bh * ka_S_q a + i) * ka_D a + d) = of_f (fa_out to_f a bh i d)"
    if "bh < B * ka_H_q a" "i < ka_S_q a" "d < ka_D a" for bh i d
    using flat3_less [OF that] len(1) lse_cells_cover(2) [OF assms(1) blocks dvd that] that
    by (simp only: overwrite_nth o_at_flat if_True less_le_trans)
  ultimately show ?thesis using run by blast
qed

section \<open>The launch\<close>

text \<open>What a call of the launcher needs: arrays of the stated sizes, whole query tiles, grouped heads.\<close>

definition fa_call_ok :: "gpu_env \<Rightarrow> 'h list \<Rightarrow> 'h list \<Rightarrow> 'h list \<Rightarrow> nat \<Rightarrow> nat \<Rightarrow> nat \<Rightarrow> attn_cfg \<Rightarrow> 'h list \<times> real list \<Rightarrow> bool" where
  "fa_call_ok env Q K V B S_q S_kv cfg out \<longleftrightarrow>
     (let H_q = at_num_q_heads cfg; H_kv = at_num_kv_heads cfg; D = at_head_dim cfg; Br = dispatch_Br cfg; Bc = dispatch_Bc env cfg in
      0 < B \<and> 0 < S_kv \<and> Br dvd S_q \<and> 0 < H_kv \<and> H_kv dvd H_q \<and> 0 < H_q \<and> S_q + Br < 2 ^ 31 \<and>
      B * H_q * S_q * D \<le> length Q \<and> length Q < 2 ^ 31 \<and>
      B * H_kv * S_kv * D \<le> length K \<and> length K < 2 ^ 31 \<and> B * H_kv * S_kv * D \<le> length V \<and> length V < 2 ^ 31 \<and>
      B * H_q * S_q * D \<le> length (fst out) \<and> length (fst out) < 2 ^ 31 \<and>
      B * H_q * S_q \<le> length (snd out) \<and> length (snd out) < 2 ^ 31 \<and> B * H_q < 2 ^ 31 \<and>
      length (sm_Q (ge_shared env)) = Br * D \<and> length (sm_K (ge_shared env)) = Bc * D \<and>
      length (sm_V (ge_shared env)) = Bc * D \<and> length (sm_S (ge_shared env)) = Br * Bc \<and>
      set (ge_order env) = {0..<Br * 32} \<and> set (ge_warps env) = {0..<Br} \<and> distinct (ge_warps env) \<and>
      set (ge_blocks env) = {0..<ceil_div S_q Br} \<times> {0..<B * H_q})"

lemma template_sizes: "(Br, Bc, D) \<in> set fa_templates \<Longrightarrow>
    0 < Br \<and> 0 < Bc \<and> 0 < D \<and> Br dvd Bc \<and> Br * D < 2 ^ 31 \<and> Bc * D < 2 ^ 31 \<and> Br * Bc < 2 ^ 31"
  by (auto simp: fa_templates_def)

lemma mult_le_prefix: "0 < B \<Longrightarrow> B * n \<le> L \<Longrightarrow> n \<le> (L :: nat)"
  by (metis le_trans mult_le_mono1 nat_mult_1 One_nat_def Suc_leI)

lemma fa_call_ints:
  assumes "fa_call_ok env Q K V B S_q S_kv cfg out"
  shows "ints_fit [at_num_q_heads cfg * S_q * at_head_dim cfg, S_q * at_head_dim cfg,
      at_num_kv_heads cfg * S_kv * at_head_dim cfg, S_kv * at_head_dim cfg, S_q + dispatch_Br cfg,
      B * at_num_q_heads cfg] = Inr ()"
proof -
  from assms have c: "0 < B" "0 < at_num_q_heads cfg" "0 < at_num_kv_heads cfg"
      "B * at_num_q_heads cfg * S_q * at_head_dim cfg \<le> length Q" "length Q < 2 ^ 31"
      "B * at_num_kv_heads cfg * S_kv * at_head_dim cfg \<le> length K" "length K < 2 ^ 31"
      "S_q + dispatch_Br cfg < 2 ^ 31" "B * at_num_q_heads cfg < 2 ^ 31"
    unfolding fa_call_ok_def Let_def by blast+
  have q: "at_num_q_heads cfg * (S_q * at_head_dim cfg) \<le> length Q"
    by (rule mult_le_prefix [OF c(1)]) (use c(4) in \<open>simp only: mult.assoc\<close>)
  have k: "at_num_kv_heads cfg * (S_kv * at_head_dim cfg) \<le> length K"
    by (rule mult_le_prefix [OF c(1)]) (use c(6) in \<open>simp only: mult.assoc\<close>)
  have "S_q * at_head_dim cfg \<le> length Q" "S_kv * at_head_dim cfg \<le> length K"
    by (rule mult_le_prefix [OF c(2) q], rule mult_le_prefix [OF c(3) k])
  with q k c(5,7-9) show ?thesis
    by (simp add: ints_fit_def mult.assoc le_less_trans)
qed

lemma fa_call_args:
  assumes "fa_call_ok env Q K V B S_q S_kv cfg out"
    and "(dispatch_Br cfg, dispatch_Bc env cfg, at_head_dim cfg) \<in> set fa_templates"
  shows "fa_ok B (dispatch_args env Q K V (at_num_q_heads cfg) (at_num_kv_heads cfg) S_q S_kv cfg)"
    and "shared_ok (dispatch_args env Q K V (at_num_q_heads cfg) (at_num_kv_heads cfg) S_q S_kv cfg) (ge_shared env)"
  using assms(1) [unfolded fa_call_ok_def Let_def] template_sizes [OF assms(2)]
  by (simp_all add: fa_ok_def shared_ok_def dispatch_args_def Let_def)

lemma kv_elt_bound:
  assumes "fa_ok B a" and "bh < B * ka_H_q a" and "d < ka_D a" and "\<forall>x\<in>set (ka_V a). \<bar>to_f x\<bar> \<le> vm"
  shows "\<bar>kv_elt to_f a (ka_V a) bh j d\<bar> \<le> vm" and "0 \<le> vm"
proof -
  note ok = fa_okD [OF assms(1)]
  have at: "\<bar>to_f (ka_V a ! ((kv_head a bh * ka_S_kv a + k) * ka_D a + d))\<bar> \<le> vm" if "k < ka_S_kv a" for k
    using flat3_less [OF kv_head_less [OF assms(1,2)] that assms(3)] ok(17) assms(4) by simp
  from at [OF ok(9)] show "0 \<le> vm" by (rule order_trans [OF abs_ge_zero])
  with at show "\<bar>kv_elt to_f a (ka_V a) bh j d\<bar> \<le> vm" by (simp add: kv_elt_def)
qed


definition wit_env :: gpu_env where
  "wit_env = \<lparr>ge_max_smem = 65536, ge_launch_err = (\<lambda>_. None),
     ge_shared = \<lparr>sm_Q = replicate 2048 7, sm_K = replicate 2048 7, sm_V = replicate 2048 7, sm_S = replicate 1024 7\<rparr>,
     ge_order = rev [0..<1024], ge_warps = [0..<32], ge_blocks = [(0, 0)]\<rparr>"

definition wit_cfg :: attn_cfg where
  "wit_cfg = default_attn_cfg\<lparr>at_head_dim := 64, at_causal := False, at_Bc := 32\<rparr>"


section \<open>Query tiles that are not full\<close>

text \<open>
  Threads whose query row does not exist return before the loads, but the stride of the load loops
  is the size of the whole block.
\<close>

lemma stale_position:
  assumes "0 < T" and "\<forall>t\<in>set ts. t < m" and "m \<le> i mod T"
  shows "i \<notin> (\<Union>t\<in>set ts. set (strided T n t))"
proof
  assume "i \<in> (\<Union>t\<in>set ts. set (strided T n t))"
  then obtain t where t: "t \<in> set ts" "t \<le> i" "T dvd (i - t)" using assms(1) by (auto simp: set_strided)
  have "i mod T = t mod T" using t(2,3) by (simp add: mod_eq_dvd_iff_nat)
  also have "\<dots> \<le> t" by simp
  finally show False using t(1) assms(2,3) by fastforce
qed

lemma score_row_total:
  assumes "row < ka_Br a" and "length sS = ka_Br a * ka_Bc a" and "ka_Br a * ka_Bc a < 2 ^ 31"
  shows "\<exists>sS'. score_row a q_tile kv_start sQ sK row sS = Inr sS' \<and> length sS' = ka_Br a * ka_Bc a"
  unfolding score_row_def
proof (rule rfold_total [where P = "\<lambda>s. length s = ka_Br a * ka_Bc a", OF assms(2)], goal_cases)
  case (1 j s)
  then have "row * ka_Bc a + j < length s" using flat_index_less [OF assms(1), of j "ka_Bc a"] by simp
  then show ?case using assms(3) 1(2) by (simp add: Let_def)
qed

text \<open>
  C40: a query tile with fewer rows than threads are launched for leaves holes in the key and value
  tiles. When only \<open>live\<close> of the \<open>Br\<close> rows of a tile exist, an iteration of the loop returns with every
  element whose index modulo the block size is at least \<open>32 * live\<close> holding what shared memory held
  before: it was not loaded, and the scores and the output are computed from it. With one query
  row, the case of decoding, 31 of 32 elements are such.
\<close>

theorem partial_tile_stale:
  assumes "fa_ok B a" and "bh < B * ka_H_q a" and "shared_ok a sh"
    and "set order = {0..<ka_Br a * 32}" and "set warps = {0..<ka_Br a}"
    and "live = ka_S_q a - q_tile * ka_Br a" and "i < ka_Bc a * ka_D a" and "live * 32 \<le> i mod (ka_Br a * 32)"
  shows "\<exists>sh' regs'. fa_tile to_f a (kbase a bh) q_tile order warps k (sh, regs) = Inr (sh', regs') \<and>
    sm_K sh' ! i = sm_K sh ! i \<and> sm_V sh' ! i = sm_V sh ! i"
proof -
  note ok = fa_okD [OF assms(1)]
  let ?T = "ka_Br a * 32" and ?n = "ka_Bc a * ka_D a" and ?kv = "k * ka_Bc a"
  let ?ts = "filter (\<lambda>t. in_loop a q_tile ?kv (t div 32)) order" and ?ws = "filter (in_loop a q_tile ?kv) warps"
  let ?U = "\<Union>t\<in>set ?ts. set (strided ?T ?n t)"
  let ?g = "\<lambda>X i. kv_elt to_f a X bh (?kv + i div ka_D a) (i mod ka_D a)"
  have T: "0 < ?T" using ok(1) by simp
  have "t < live * 32" if "t \<in> set ?ts" for t
  proof -
    have "q_tile * ka_Br a + t div 32 < ka_S_q a" using that by (simp add: in_loop_def q_row_of_def)
    then have "t div 32 < live" using assms(6) by linarith
    then show ?thesis by (simp add: div_less_iff_less_mult)
  qed
  then have "i \<notin> ?U" by (intro stale_position [OF T _ assms(8)]) blast
  then have keep: "overwrite g ?U tile ! i = tile ! i" if "length tile = ?n" for g and tile :: "real list"
    using assms(7) that by (simp add: overwrite_nth)
  have fill: "coop_fill (load_kv to_f a X (kbase a bh) ?kv) ?T ?n ?ts tile = Inr (overwrite (?g X) ?U tile)"
    if "length tile = ?n" "B * ka_H_kv a * ka_S_kv a * ka_D a \<le> length X" "length X < 2 ^ 31" for X tile
    by (rule coop_fill_overwrite [OF load_kv_ok [OF assms(1,2) _ that(2,3)] that(1) ok(11) T])
  have len: "length (sm_K sh) = ?n" "length (sm_V sh) = ?n" "length (sm_S sh) = ka_Br a * ka_Bc a"
    using assms(3) by (simp_all add: shared_ok_def)
  have "\<exists>sS. rfold (score_row a q_tile ?kv sQ sK) ?ws (sm_S sh) = Inr sS \<and> length sS = ka_Br a * ka_Bc a" for sQ sK
    by (rule rfold_total [where P = "\<lambda>s. length s = ka_Br a * ka_Bc a", OF len(3)])
      (use score_row_total assms(5) ok(12) in auto)
  then obtain sS where sc: "rfold (score_row a q_tile ?kv (sm_Q sh) (overwrite (?g (ka_K a)) ?U (sm_K sh))) ?ws (sm_S sh) = Inr sS"
    by blast
  obtain sS' regs' where f: "fold (softmax_row (ka_Bc a) (ka_D a) (overwrite (?g (ka_V a)) ?U (sm_V sh))) ?ws (sS, regs) = (sS', regs')"
    by force
  have "fa_tile to_f a (kbase a bh) q_tile order warps k (sh, regs) =
    Inr (sh\<lparr>sm_K := overwrite (?g (ka_K a)) ?U (sm_K sh), sm_V := overwrite (?g (ka_V a)) ?U (sm_V sh), sm_S := sS'\<rparr>, regs')"
    unfolding fa_tile_def Let_def prod.case fill [OF len(1) ok(15,16)] fill [OF len(2) ok(17,18)] rbind_simps sc f ..
  then show ?thesis using keep len by simp
qed

theorem partial_tile_stale_witness:
  "\<exists>sh' regs'. fa_tile (\<lambda>x. x) (dispatch_args wit_env (replicate 64 0) (replicate 2048 1) (replicate 2048 2) 1 1 1 32 wit_cfg)
      0 0 (rev [0..<1024]) [0..<32] 0 (ge_shared wit_env, []) = Inr (sh', regs') \<and> sm_K sh' ! 40 = 7 \<and> sm_V sh' ! 40 = 7"
proof -
  let ?a = "dispatch_args wit_env (replicate 64 (0 :: real)) (replicate 2048 1) (replicate 2048 2) 1 1 1 32 wit_cfg"
  have sel: "ka_Br ?a = 32" "ka_Bc ?a = 32" "ka_D ?a = 64" "ka_S_q ?a = 1" "ka_H_q ?a = 1"
    by (simp_all add: dispatch_args_def Let_def wit_cfg_def default_attn_cfg_def dispatch_Br_def dispatch_Bc_def)
  have ok: "fa_ok 1 ?a"
    by (simp add: fa_ok_def dispatch_args_def Let_def wit_cfg_def default_attn_cfg_def dispatch_Br_def dispatch_Bc_def)
  have sh: "shared_ok ?a (ge_shared wit_env)" unfolding shared_ok_def sel by (simp add: wit_env_def)
  have "kbase ?a 0 = 0" by (simp add: kbase_def)
  moreover have "sm_K (ge_shared wit_env) ! 40 = 7" "sm_V (ge_shared wit_env) ! 40 = 7" by (simp_all add: wit_env_def)
  ultimately show ?thesis
    using partial_tile_stale [OF ok _ sh, of 0 "rev [0..<1024]" "[0..<32]" 1 0 40 "\<lambda>x. x" 0 "[]", unfolded sel] by simp
qed

section \<open>Lock step\<close>

text \<open>
  All lanes of a row rewrite its scores in place. A lane that runs the loop after another lane has
  finished it, which nothing in the code excludes once the hardware schedules lanes independently,
  takes weights for scores: here its running maximum is 1 instead of 0.
\<close>

lemma lanes_must_run_together:
  "let r0 = \<lparr>rg_m = NEG, rg_l = 0, rg_o = [0]\<rparr>; first = row_update 1 1 [5] [0] r0; second = row_update 1 1 [5] (fst first) r0
   in rg_m (snd first) = 0 \<and> rg_m (snd second) = 1"
  by (simp add: row_update_def Let_def NEG_def)

section \<open>The FP16 launcher\<close>

text \<open>The values of the two 16-bit formats, for normal numbers.\<close>

definition bf16_val :: "16 word \<Rightarrow> real" where
  "bf16_val w = (let e = unat (take_bit 8 (drop_bit 7 w)); f = unat (take_bit 7 w) in
     (if bit w 15 then -1 else 1) * (1 + real f / 2 ^ 7) * 2 powi (int e - 127))"

definition fp16_val :: "16 word \<Rightarrow> real" where
  "fp16_val w = (let e = unat (take_bit 5 (drop_bit 10 w)); f = unat (take_bit 10 w) in
     (if bit w 15 then -1 else 1) * (1 + real f / 2 ^ 10) * 2 powi (int e - 15))"

text \<open>The FP16 launcher hands the bits to the kernel for BF16.\<close>

definition launch_flash_attn_fp16 :: "(16 word \<Rightarrow> real) \<Rightarrow> (real \<Rightarrow> 16 word) \<Rightarrow> gpu_env \<Rightarrow> 16 word list \<Rightarrow> 16 word list \<Rightarrow> 16 word list \<Rightarrow>
    nat \<Rightarrow> nat \<Rightarrow> nat \<Rightarrow> attn_cfg \<Rightarrow> 16 word list \<times> real list \<Rightarrow> (16 word list \<times> real list) res" where
  "launch_flash_attn_fp16 bf16_to_f f_to_bf16 env Q K V B S_q S_kv cfg out =
     dispatch_flash_attn bf16_to_f f_to_bf16 env Q K V B (at_num_q_heads cfg) (at_num_kv_heads cfg) S_q S_kv cfg out"

text \<open>The numbers 1, 2 and 3 in FP16 are read as 1/128, 2 and 32.\<close>

lemma fp16_misread:
  "fp16_val 0x3C00 = 1 \<and> bf16_val 0x3C00 = 1 / 128"
  "fp16_val 0x4000 = 2 \<and> bf16_val 0x4000 = 2"
  "fp16_val 0x4200 = 3 \<and> bf16_val 0x4200 = 32"
  by (simp_all add: fp16_val_def bf16_val_def Let_def bit_numeral_word_iff power_int_def power_divide)

section \<open>Support\<close>

text \<open>\<open>smem\<close> is the shared memory per multiprocessor of a CUDA device.\<close>

fun has_flash_attn_support :: "nat \<Rightarrow> device \<Rightarrow> bool" where
  "has_flash_attn_support smem (Cuda major minor) = (8 \<le> major \<and> 80 * 1024 \<le> smem)"
| "has_flash_attn_support smem (Hip arch) =
     (str_has ''gfx90a'' arch \<or> str_has ''gfx940'' arch \<or> str_has ''gfx941'' arch \<or> str_has ''gfx942'' arch)"

lemma flash_attn_support_tensor: "has_flash_attn_support smem dev \<Longrightarrow> has_tensor_core_bf16 (Some dev)"
  by (cases dev) auto

section \<open>The autotuner\<close>

definition fa_tile_options :: "(nat \<times> nat) list" where
  "fa_tile_options = [(32, 64), (32, 32), (16, 64)]"

definition fa_shmem_bytes :: "nat \<Rightarrow> nat \<Rightarrow> nat \<Rightarrow> nat" where
  "fa_shmem_bytes D Br Bc = (Br * D + 2 * Bc * D) * 4 + Br * Bc * 4"

text \<open>One candidate: \<open>launch\<close> runs a configuration, \<open>ms\<close> is the time the clock shows for it.\<close>

definition fa_try :: "(attn_cfg \<Rightarrow> 'o \<Rightarrow> 'o res) \<Rightarrow> (nat \<times> nat \<Rightarrow> real) \<Rightarrow> nat \<Rightarrow> nat \<times> nat \<Rightarrow>
    real \<times> attn_cfg \<times> 'o \<Rightarrow> (real \<times> attn_cfg \<times> 'o) res" where
  "fa_try launch ms D opt st = (case (opt, st) of ((Br, Bc), (best_ms, best_cfg, out)) \<Rightarrow>
     (if 80 * 1024 < fa_shmem_bytes D Br Bc then Inr st else
      let cfg = best_cfg\<lparr>at_Br := Br, at_Bc := Bc\<rparr> in
      rbind (warm_up (launch cfg) 3 out) (\<lambda>(ok, out).
        if \<not> ok then Inr (best_ms, best_cfg, out)
        else rbind (rfold (\<lambda>_. launch cfg) [0..<10] out) (\<lambda>out.
          if ms opt < best_ms then Inr (ms opt, cfg, out) else Inr (best_ms, best_cfg, out)))))"

definition fa_start_cfg :: "nat \<Rightarrow> bool \<Rightarrow> attn_cfg" where
  "fa_start_cfg D causal = default_attn_cfg\<lparr>at_head_dim := D, at_causal := causal, at_scale := 1 / sqrt (real D),
     at_num_q_heads := 1, at_num_kv_heads := 1\<rparr>"

definition autotune_flash_attn :: "('h \<Rightarrow> real) \<Rightarrow> (real \<Rightarrow> 'h) \<Rightarrow> gpu_env \<Rightarrow> (nat \<times> nat \<Rightarrow> real) \<Rightarrow> nat \<Rightarrow> nat \<Rightarrow> nat \<Rightarrow> bool \<Rightarrow>
    'h list \<Rightarrow> 'h list \<Rightarrow> 'h list \<Rightarrow> nat \<Rightarrow> 'h list \<times> real list \<Rightarrow> (attn_cfg \<times> 'h list \<times> real list) res" where
  "autotune_flash_attn to_f of_f env ms S_q S_kv D causal Q K V B out =
     rbind (rfold (fa_try (launch_flash_attn_bf16 to_f of_f env Q K V B S_q S_kv) ms D) fa_tile_options
         (10 ^ 18, fa_start_cfg D causal, out)) (\<lambda>(best_ms, best_cfg, out). Inr (best_cfg, out))"

text \<open>
  The configuration the autotuner returns is the one it started with, or a candidate that fits and
  with which a launch succeeded; its time is then the best of the candidates that were timed.
\<close>

definition fa_best :: "(attn_cfg \<Rightarrow> 'o \<Rightarrow> 'o res) \<Rightarrow> (nat \<times> nat \<Rightarrow> real) \<Rightarrow> nat \<Rightarrow> attn_cfg \<Rightarrow> real \<times> attn_cfg \<times> 'o \<Rightarrow> bool" where
  "fa_best launch ms D start st \<longleftrightarrow> (case st of (best_ms, cfg, out) \<Rightarrow>
     best_ms = 10 ^ 18 \<and> cfg = start \<or>
     (\<exists>Br Bc. (Br, Bc) \<in> set fa_tile_options \<and> fa_shmem_bytes D Br Bc \<le> 80 * 1024 \<and> best_ms = ms (Br, Bc) \<and>
       best_ms < 10 ^ 18 \<and> cfg = start\<lparr>at_Br := Br, at_Bc := Bc\<rparr> \<and> (\<exists>o1 o2. launch cfg o1 = Inr o2)))"

lemma fa_try_best:
  assumes "opt \<in> set fa_tile_options" and "fa_best launch ms D start st" and "fa_try launch ms D opt st = Inr st'"
  shows "fa_best launch ms D start st'" and "fst st' \<le> fst st"
proof -
  obtain Br Bc bm cfg out where e: "opt = (Br, Bc)" "st = (bm, cfg, out)" by (metis prod.exhaust)
  have c: "cfg\<lparr>at_Br := Br, at_Bc := Bc\<rparr> = start\<lparr>at_Br := Br, at_Bc := Bc\<rparr>" and bm: "bm \<le> 10 ^ 18"
    using assms(2) by (auto simp: fa_best_def e)
  let ?c = "start\<lparr>at_Br := Br, at_Bc := Bc\<rparr>"
  consider (skip) "st' = st" | (fail) out' where "st' = (bm, cfg, out')"
    | (better) out' o1 o2 where "st' = (ms opt, ?c, out')" "ms opt < bm" "fa_shmem_bytes D Br Bc \<le> 80 * 1024" "launch ?c o1 = Inr o2"
  proof -
    assume skip: "st' = st \<Longrightarrow> thesis" and fail: "\<And>out'. st' = (bm, cfg, out') \<Longrightarrow> thesis"
      and better: "\<And>out' o1 o2. st' = (ms opt, ?c, out') \<Longrightarrow> ms opt < bm \<Longrightarrow> fa_shmem_bytes D Br Bc \<le> 80 * 1024 \<Longrightarrow>
        launch ?c o1 = Inr o2 \<Longrightarrow> thesis"
    show thesis
    proof (cases "80 * 1024 < fa_shmem_bytes D Br Bc")
      case True
      then show ?thesis using assms(3) skip by (simp add: fa_try_def e)
    next
      case False
      then have "rbind (warm_up (launch ?c) 3 out) (\<lambda>(ok, out). if \<not> ok then Inr (bm, cfg, out)
        else rbind (rfold (\<lambda>_. launch ?c) [0..<10] out) (\<lambda>out.
          if ms opt < bm then Inr (ms opt, ?c, out) else Inr (bm, cfg, out))) = Inr st'"
        using assms(3) unfolding fa_try_def e prod.case Let_def c by (simp only: if_False)
      then obtain ok out1 where w: "warm_up (launch ?c) 3 out = Inr (ok, out1)"
        and rest: "(if \<not> ok then Inr (bm, cfg, out1) else rbind (rfold (\<lambda>_. launch ?c) [0..<10] out1) (\<lambda>out.
          if ms opt < bm then Inr (ms opt, ?c, out) else Inr (bm, cfg, out))) = Inr st'"
        by auto
      show ?thesis
      proof (cases "ok \<and> ms opt < bm")
        case True
        then have "\<exists>o2. launch ?c out = Inr o2"
          using w warm_up_run [of "launch ?c" 2 out out1] by (simp add: numeral_3_eq_3 numeral_2_eq_2)
        with True rest False better show ?thesis by (auto simp del: upt_rec_numeral)
      next
        case False
        with rest fail show ?thesis by (auto simp del: upt_rec_numeral split: if_splits)
      qed
    qed
  qed
  note cases = this
  show "fa_best launch ms D start st'"
    using cases
  proof cases
    case better
    then show ?thesis using assms(1) bm e by (auto simp: fa_best_def)
  qed (use assms(2) in \<open>auto simp: fa_best_def e\<close>)
  show "fst st' \<le> fst st"
    using cases by cases (auto simp: e)
qed

lemma autotune_returns_candidate:
  assumes "autotune_flash_attn to_f of_f env ms S_q S_kv D causal Q K V B out = Inr (cfg, out')"
  shows "cfg = fa_start_cfg D causal \<or>
    (\<exists>Br Bc. (Br, Bc) \<in> set fa_tile_options \<and> fa_shmem_bytes D Br Bc \<le> 80 * 1024 \<and>
      cfg = (fa_start_cfg D causal)\<lparr>at_Br := Br, at_Bc := Bc\<rparr> \<and>
      (\<exists>o1 o2. launch_flash_attn_bf16 to_f of_f env Q K V B S_q S_kv cfg o1 = Inr o2))"
proof -
  let ?launch = "launch_flash_attn_bf16 to_f of_f env Q K V B S_q S_kv"
  obtain bm where "rfold (fa_try ?launch ms D) fa_tile_options (10 ^ 18, fa_start_cfg D causal, out) = Inr (bm, cfg, out')"
    using assms by (auto simp: autotune_flash_attn_def)
  then have "fa_best ?launch ms D (fa_start_cfg D causal) (bm, cfg, out')"
    by (rule rfold_keeps) (simp add: fa_best_def, rule fa_try_best(1))
  then show ?thesis by (auto simp: fa_best_def)
qed

section \<open>Reductions over a warp\<close>

text \<open>
  A butterfly: in each round a lane combines its value with that of the lane whose number differs in
  the bits of \<open>m\<close>.
\<close>

definition shfl_xor_round :: "('a \<Rightarrow> 'a \<Rightarrow> 'a) \<Rightarrow> nat \<Rightarrow> (nat \<Rightarrow> 'a) \<Rightarrow> nat \<Rightarrow> 'a" where
  "shfl_xor_round f m v = (\<lambda>lane. f (v lane) (v (xor lane m)))"

definition warp_reduce_max :: "(nat \<Rightarrow> real) \<Rightarrow> nat \<Rightarrow> real" where
  "warp_reduce_max v = fold (shfl_xor_round max) [16, 8, 4, 2, 1] v"

definition warp_reduce_sum :: "(nat \<Rightarrow> real) \<Rightarrow> nat \<Rightarrow> real" where
  "warp_reduce_sum v = fold (shfl_xor_round (+)) [16, 8, 4, 2, 1] v"

lemma xor_inj: "inj_on (xor m) (S :: nat set)"
  by (rule inj_onI) (metis xor.assoc xor_self_eq xor.left_neutral)

lemma round_sum:
  assumes "w = (\<lambda>lane. \<Sum>k\<in>S. v (xor lane k))" and "finite S" and "S \<inter> xor m ` S = {}"
  shows "shfl_xor_round (+) m w = (\<lambda>lane. \<Sum>k\<in>S \<union> xor m ` S. v (xor lane k) :: real)"
proof
  fix lane
  have "(\<Sum>k\<in>xor m ` S. v (xor lane k)) = (\<Sum>k\<in>S. v (xor (xor lane m) k))"
    by (simp add: sum.reindex [OF xor_inj] xor.assoc)
  then show "shfl_xor_round (+) m w lane = (\<Sum>k\<in>S \<union> xor m ` S. v (xor lane k))"
    using sum.union_disjoint [OF assms(2) finite_imageI [OF assms(2)] assms(3), of "\<lambda>k. v (xor lane k)"]
    by (simp add: shfl_xor_round_def assms(1))
qed

lemma round_max:
  assumes "w = (\<lambda>lane. Max ((\<lambda>k. v (xor lane k)) ` S))" and "finite S" and "S \<noteq> {}"
  shows "shfl_xor_round max m w = (\<lambda>lane. Max ((\<lambda>k. v (xor lane k)) ` (S \<union> xor m ` S)) :: real)"
  using assms by (simp add: shfl_xor_round_def image_Un image_image Max_Un xor.assoc)

lemma xor_less_32: "l < 32 \<Longrightarrow> k < 32 \<Longrightarrow> xor l k < (32 :: nat)"
  using take_bit_nat_less_exp [of 5 "xor l k"] by (simp add: take_bit_nat_eq_self)

lemma xor_bij_32: "l < 32 \<Longrightarrow> xor l ` {..<32} = {..<32 :: nat}"
proof (intro set_eqI iffI)
  fix x :: nat assume l: "l < 32" and "x \<in> {..<32}"
  then have "x = xor l (xor l x)" "xor l x \<in> {..<32}"
    using xor_less_32 [of l x] by (simp_all add: xor.assoc [symmetric])
  then show "x \<in> xor l ` {..<32}" by blast
qed (auto intro: xor_less_32)

text \<open>The lanes whose values a lane has seen after each round.\<close>

definition bfly :: "nat \<Rightarrow> nat set \<Rightarrow> nat set" where
  "bfly m S = S \<union> xor m ` S"

lemma bfly_sets:
  "bfly 16 {0} = {0, 16}" "bfly 8 {0, 16} = {0, 16, 8, 24}"
  "bfly 4 {0, 16, 8, 24} = {0, 16, 8, 24, 4, 20, 12, 28}"
  "bfly 2 {0, 16, 8, 24, 4, 20, 12, 28} = {0, 16, 8, 24, 4, 20, 12, 28, 2, 18, 10, 26, 6, 22, 14, 30}"
  "bfly 1 {0, 16, 8, 24, 4, 20, 12, 28, 2, 18, 10, 26, 6, 22, 14, 30} = {..<32}"
  by (simp_all add: bfly_def) (auto simp: lessThan_nat_numeral lessThan_Suc)

lemma warp_reduce_sum_ok: "lane < 32 \<Longrightarrow> warp_reduce_sum v lane = (\<Sum>k<32. v k)"
proof -
  assume lane: "lane < 32"
  note step = round_sum [folded bfly_def]
  have "v = (\<lambda>lane. \<Sum>k\<in>{0}. v (xor lane k))" by simp
  note 1 = step [OF this, of 16, unfolded bfly_sets]
  note 2 = step [OF 1, of 8, unfolded bfly_sets]
  note 3 = step [OF 2, of 4, unfolded bfly_sets]
  note 4 = step [OF 3, of 2, unfolded bfly_sets]
  note 5 = step [OF 4, of 1, unfolded bfly_sets]
  have "warp_reduce_sum v lane = (\<Sum>k<32. v (xor lane k))"
    unfolding warp_reduce_sum_def by (simp add: 5 del: One_nat_def)
  also have "\<dots> = (\<Sum>k\<in>xor lane ` {..<32}. v k)"
    by (simp add: sum.reindex [OF xor_inj])
  finally show ?thesis unfolding xor_bij_32 [OF lane] .
qed

lemma warp_reduce_max_ok: "lane < 32 \<Longrightarrow> warp_reduce_max v lane = Max (v ` {..<32})"
proof -
  assume lane: "lane < 32"
  note step = round_max [folded bfly_def]
  have "v = (\<lambda>lane. Max ((\<lambda>k. v (xor lane k)) ` {0}))" by simp
  note 1 = step [OF this, of 16, unfolded bfly_sets]
  note 2 = step [OF 1, of 8, unfolded bfly_sets]
  note 3 = step [OF 2, of 4, unfolded bfly_sets]
  note 4 = step [OF 3, of 2, unfolded bfly_sets]
  note 5 = step [OF 4, of 1, unfolded bfly_sets]
  have "warp_reduce_max v lane = Max ((\<lambda>k. v (xor lane k)) ` {..<32})"
    unfolding warp_reduce_max_def by (simp add: 5 del: One_nat_def)
  then show ?thesis using xor_bij_32 [OF lane] image_image [of v "xor lane" "{..<32}"] by simp
qed

end
