(* ===== verification/Gemm_Sycl.thy ===== *)
theory Gemm_Sycl
  imports Gemm_Tensor Complex_Main
begin

text \<open>
  The SYCL kernels for BF16 (kernels/matmul_sycl.cpp): the tiled kernel with local memory, the kernel on
  the matrix units (XMX), and the launcher that chooses between them at build time. The matrix
  instruction is the parameter \<open>mad\<close>.
\<close>

section \<open>The tiled kernel\<close>

text \<open>
  The tiled kernel without XMX does per work item what the FP32 kernel does per thread of a 16 by 16
  tile: item \<open>(lr, lc)\<close> loads element \<open>lr * 16 + lc\<close> of both tiles. Its index space is \<open>M\<close> by \<open>N\<close> itself,
  not rounded up to the work group, and a group size that does not divide it is an error.
\<close>

definition gemm_tiled_sycl :: "('h, 'f) fops \<Rightarrow> 'h list \<Rightarrow> 'h list \<Rightarrow> nat \<Rightarrow> nat \<Rightarrow> nat \<Rightarrow> ('h, 'f) block \<Rightarrow>
    nat list \<Rightarrow> (nat \<times> nat) list \<Rightarrow> 'f list \<Rightarrow> 'f list res" where
  "gemm_tiled_sycl ops A B M N K shared order blocks C =
     (if M mod 16 \<noteq> 0 \<or> N mod 16 \<noteq> 0 then Inl (Runtime_error ''nd_range'')
      else rfold (matmul_fp32_kernel ops cfg16 A B M N K shared order) blocks C)"

lemma gemm_tiled_sycl_correct:
  assumes "M mod 16 = 0" "N mod 16 = 0"
    and "M * K \<le> length A" "length A < 2 ^ 31" "K * N \<le> length B" "length B < 2 ^ 31"
    and "M * N \<le> length C" "length C < 2 ^ 31" and "set order = {0..<256}"
    and "set blocks = grid_blocks (M div 16) (N div 16)"
    and "length (bl_sA shared) = 256" "length (bl_sB shared) = 256" and "mac_ok ops A B M N K"
  shows "gemm_tiled_sycl ops A B M N K shared order blocks C =
    Inr (overwrite (dot_at ops A B M N K) {0..<M * N} C)"
proof -
  have cfg: "cfg_ok cfg16" by (simp add: cfg_ok_def cfg16_def)
  have sizes: "set order = {0..<tc_BM cfg16 * tc_BN cfg16}" "length (bl_sA shared) = tc_BM cfg16 * tc_BK cfg16"
    "length (bl_sB shared) = tc_BK cfg16 * tc_BN cfg16" using assms by (simp_all add: cfg16_def)
  have "gemm_tiled_sycl ops A B M N K shared order blocks C = Inr (overwrite (dot_at ops A B M N K)
    (\<Union>blk\<in>set blocks. block_cells M N (tc_BM cfg16) (tc_BN cfg16) blk) C)"
    using assms(1,2) fp32_block_ok [OF cfg sizes(1) assms(3-6) sizes(2,3) assms(13) _ assms(7,8)]
    by (simp add: gemm_tiled_sycl_def) (rule rfold_overwrite, auto)
  moreover have "ceil_div M 16 = M div 16" "ceil_div N 16 = N div 16"
    using assms(1,2) by (simp_all add: ceil_div_dvd dvd_eq_mod_eq_0)
  ultimately show ?thesis
    using block_cells_cover [of 16 16 M N blocks] assms(10) by (simp add: cfg16_def)
qed

section \<open>The kernel on matrix units\<close>

primrec rmap :: "('a \<Rightarrow> 'b res) \<Rightarrow> 'a list \<Rightarrow> 'b list res" where
  "rmap f [] = Inr []"
| "rmap f (x # xs) = rbind (f x) (\<lambda>y. rbind (rmap f xs) (\<lambda>ys. Inr (y # ys)))"

lemma rmap_ok: "(\<And>x. x \<in> set xs \<Longrightarrow> f x = Inr (g x)) \<Longrightarrow> rmap f xs = Inr (map g xs)"
  by (induction xs) simp_all

text \<open>\<open>joint_matrix_load\<close>: \<open>rows\<close> by \<open>cols\<close> elements from \<open>base\<close> on, with the given stride.\<close>

definition joint_load :: "'h list \<Rightarrow> nat \<Rightarrow> nat \<Rightarrow> nat \<Rightarrow> nat \<Rightarrow> 'h list res" where
  "joint_load X base stride rows cols = rmap (\<lambda>i. buf_at X (base + (i div cols * stride + i mod cols))) [0..<rows * cols]"

definition joint_store :: "nat \<Rightarrow> nat \<Rightarrow> nat \<Rightarrow> nat \<Rightarrow> 'f list \<Rightarrow> 'f list \<Rightarrow> 'f list res" where
  "joint_store base stride rows cols c_mat C =
     rfold (\<lambda>i. buf_set (base + (i div cols * stride + i mod cols)) (c_mat ! i)) [0..<rows * cols] C"

definition xmx_step :: "('f list \<Rightarrow> 'h list \<Rightarrow> 'h list \<Rightarrow> 'f list) \<Rightarrow> 'h list \<Rightarrow> 'h list \<Rightarrow> nat \<Rightarrow> nat \<Rightarrow> nat \<Rightarrow> nat \<Rightarrow> nat \<Rightarrow> 'f list \<Rightarrow> 'f list res" where
  "xmx_step mad A B N K m_tile n_tile k c_mat =
     rbind (joint_load A (m_tile * 8 * K + k) K 8 16) (\<lambda>a_mat.
     rbind (joint_load B (k * N + n_tile * 16) N 16 16) (\<lambda>b_mat.
       Inr (mad c_mat a_mat b_mat)))"

definition xmx_item :: "('h, 'f) fops \<Rightarrow> ('f list \<Rightarrow> 'h list \<Rightarrow> 'h list \<Rightarrow> 'f list) \<Rightarrow> 'h list \<Rightarrow> 'h list \<Rightarrow> nat \<Rightarrow> nat \<Rightarrow>
    nat \<times> nat \<Rightarrow> 'f list \<Rightarrow> 'f list res" where
  "xmx_item ops mad A B N K item C = (case item of (m_tile, n_tile) \<Rightarrow>
     rbind (rfold (xmx_step mad A B N K m_tile n_tile) (strided 16 K 0) (replicate 128 (f_zero ops))) (\<lambda>c_mat.
       joint_store (m_tile * 8 * N + n_tile * 16) N 8 16 c_mat C))"

definition gemm_xmx_bf16 :: "('h, 'f) fops \<Rightarrow> ('f list \<Rightarrow> 'h list \<Rightarrow> 'h list \<Rightarrow> 'f list) \<Rightarrow> 'h list \<Rightarrow> 'h list \<Rightarrow> nat \<Rightarrow> nat \<Rightarrow> nat \<Rightarrow>
    (nat \<times> nat) list \<Rightarrow> 'f list \<Rightarrow> 'f list res" where
  "gemm_xmx_bf16 ops mad A B M N K items C =
     (if M mod 8 \<noteq> 0 \<or> N mod 16 \<noteq> 0 \<or> K mod 16 \<noteq> 0
      then Inl (Invalid_argument ''M,N,K must be multiples of XMX tile (8,16,16)'')
      else rfold (xmx_item ops mad A B N K) items C)"

text \<open>What the matrix instruction promises on tiles of 8 by 16 and 16 by 16.\<close>

definition mad_ok :: "('h, 'f) fops \<Rightarrow> ('f list \<Rightarrow> 'h list \<Rightarrow> 'h list \<Rightarrow> 'f list) \<Rightarrow> bool" where
  "mad_ok ops mad \<longleftrightarrow> (\<forall>c a b. \<forall>r<8. \<forall>j<16. mad c a b ! (r * 16 + j) = tile_mac ops 16 16 a b r j (c ! (r * 16 + j)))"

lemma joint_load_ok:
  assumes "(r0 + rows) \<le> R" "c0 + cols \<le> W" "0 < cols" "R * W \<le> length X" "length X < 2 ^ 31"
  shows "joint_load X (r0 * W + c0) W rows cols = Inr (map (\<lambda>i. entry ops X R W (r0 + i div cols) (c0 + i mod cols)) [0..<rows * cols])"
  unfolding joint_load_def
proof (rule rmap_ok)
  fix i assume "i \<in> set [0..<rows * cols]"
  then have "i div cols < rows" "i mod cols < cols" using assms(3) by (simp_all add: less_mult_imp_div_less)
  then have rc: "r0 + i div cols < R" "c0 + i mod cols < W" using assms(1,2) by simp_all
  have e: "r0 * W + c0 + (i div cols * W + i mod cols) = (r0 + i div cols) * W + (c0 + i mod cols)"
    by (simp add: algebra_simps)
  have "(r0 + i div cols) * W + (c0 + i mod cols) < length X" using flat_index_less [OF rc] assms(4) by simp
  then show "buf_at X (r0 * W + c0 + (i div cols * W + i mod cols)) = Inr (entry ops X R W (r0 + i div cols) (c0 + i mod cols))"
    unfolding e using rc assms(5) by (simp add: entry_def)
qed

lemma xmx_steps_ok:
  assumes "mad_ok ops mad" and "m * 8 + 8 \<le> M" "n * 16 + 16 \<le> N" "K mod 16 = 0"
    and "M * K \<le> length A" "length A < 2 ^ 31" "K * N \<le> length B" "length B < 2 ^ 31"
    and "kb mod 16 = 0" "kb < K" and acc: "\<forall>i<128. acc ! i = partial_dot ops A B M N K (m * 8 + i div 16) (n * 16 + i mod 16) kb"
  shows "\<exists>acc'. xmx_step mad A B N K m n kb acc = Inr acc' \<and>
    (\<forall>i<128. acc' ! i = partial_dot ops A B M N K (m * 8 + i div 16) (n * 16 + i mod 16) (kb + 16))"
proof -
  have kb: "kb + 16 \<le> K" using assms(4,9,10) by presburger
  let ?a = "map (\<lambda>i. entry ops A M K (m * 8 + i div 16) (kb + i mod 16)) [0..<8 * 16]"
  let ?b = "map (\<lambda>i. entry ops B K N (kb + i div 16) (n * 16 + i mod 16)) [0..<16 * 16]"
  have "joint_load A (m * 8 * K + kb) K 8 16 = Inr ?a"
    by (rule joint_load_ok [OF assms(2) kb _ assms(5,6)]) simp
  moreover have "joint_load B (kb * N + n * 16) N 16 16 = Inr ?b"
    by (rule joint_load_ok [OF kb assms(3) _ assms(7,8)]) simp
  ultimately have "xmx_step mad A B N K m n kb acc = Inr (mad acc ?a ?b)"
    by (simp only: xmx_step_def rbind_simps)
  moreover have "mad acc ?a ?b ! i = partial_dot ops A B M N K (m * 8 + i div 16) (n * 16 + i mod 16) (kb + 16)"
    if i: "i < 128" for i
  proof -
    have rc: "i div 16 < 8" "i mod 16 < 16" "i div 16 * 16 + i mod 16 = i" using i by (simp_all add: less_mult_imp_div_less)
    have "mad acc ?a ?b ! i = tile_mac ops 16 16 ?a ?b (i div 16) (i mod 16) (acc ! i)"
      using assms(1) [unfolded mad_ok_def, rule_format, OF rc(1,2), of acc ?a ?b] unfolding rc(3) .
    also have "acc ! i = partial_dot ops A B M N K (m * 8 + i div 16) (n * 16 + i mod 16) kb" using acc i by blast
    also have "tile_mac ops 16 16 ?a ?b (i div 16) (i mod 16) \<dots> =
      partial_dot ops A B M N K (m * 8 + i div 16) (n * 16 + i mod 16) (kb + 16)"
      by (rule partial_dot_tile [OF refl refl rc(1,2)])
    finally show ?thesis .
  qed
  ultimately show ?thesis by blast
qed

lemma xmx_item_ok:
  assumes "mad_ok ops mad" and tile: "m * 8 + 8 \<le> M" "n * 16 + 16 \<le> N" and K: "K mod 16 = 0"
    and sizes: "M * K \<le> length A" "length A < 2 ^ 31" "K * N \<le> length B" "length B < 2 ^ 31"
    and len: "length C = L" "M * N \<le> L" "L < 2 ^ 31" and "mac_ok ops A B M N K"
  shows "xmx_item ops mad A B N K (m, n) C = Inr (overwrite (dot_at ops A B M N K) (block_cells M N 8 16 (m, n)) C)"
proof -
  let ?I = "\<lambda>kb acc. kb mod 16 = 0 \<and> (\<forall>i<128. acc ! i = partial_dot ops A B M N K (m * 8 + i div 16) (n * 16 + i mod 16) kb)"
  have "\<exists>k acc. rfold (xmx_step mad A B N K m n) (strided 16 K 0) (replicate 128 (f_zero ops)) = Inr acc \<and> K \<le> k \<and> ?I k acc"
  proof (rule strided_steps [where I = ?I])
    fix kb acc assume "?I kb acc" "kb < K"
    with xmx_steps_ok [OF assms(1) tile K sizes, of kb acc]
    show "\<exists>acc'. xmx_step mad A B N K m n kb acc = Inr acc' \<and> ?I (kb + 16) acc'" by auto
  qed (simp_all add: partial_dot_def)
  then obtain k acc where run: "rfold (xmx_step mad A B N K m n) (strided 16 K 0) (replicate 128 (f_zero ops)) = Inr acc"
    and k: "K \<le> k" and acc: "\<forall>i<128. acc ! i = partial_dot ops A B M N K (m * 8 + i div 16) (n * 16 + i mod 16) k" by blast
  have cell: "m * 8 + i div 16 < M" "n * 16 + i mod 16 < N" if "i < 128" for i
  proof -
    have "i div 16 < 8" "i mod 16 < 16" using that by (simp_all add: less_mult_imp_div_less)
    with tile show "m * 8 + i div 16 < M" "n * 16 + i mod 16 < N" by linarith+
  qed
  have "joint_store (m * 8 * N + n * 16) N 8 16 acc C = rfold (store_acc M N 8 16 m n acc) [0..<8 * 16] C"
    unfolding joint_store_def
  proof (rule rfold_cong_set)
    fix i ys assume "i \<in> set [0..<8 * 16]"
    then have i: "i < 128" by simp
    have e: "m * 8 * N + n * 16 + (i div 16 * N + i mod 16) = (m * 8 + i div 16) * N + (n * 16 + i mod 16)"
      by (simp add: algebra_simps)
    show "buf_set (m * 8 * N + n * 16 + (i div 16 * N + i mod 16)) (acc ! i) ys = store_acc M N 8 16 m n acc i ys"
      unfolding e using cell [OF i] by (simp add: store_acc_def)
  qed
  also have "\<dots> = Inr (overwrite (dot_at ops A B M N K) (block_cells M N 8 16 (m, n)) C)"
  proof (rule store_phase [OF _ _ _ _ len])
    fix tid assume t: "tid < 8 * 16" "m * 8 + tid div 16 < M" "n * 16 + tid mod 16 < N"
    have "partial_dot ops A B M N K (m * 8 + tid div 16) (n * 16 + tid mod 16) k =
      dot ops A B M N K (m * 8 + tid div 16) (n * 16 + tid mod 16)"
      by (rule partial_dot_full [OF t(2,3) k]) (use assms(12) in \<open>simp add: mac_ok_def\<close>)
    with acc t(1) show "acc ! tid = dot ops A B M N K (m * 8 + tid div 16) (n * 16 + tid mod 16)" by simp
  qed auto
  finally show ?thesis using run by (simp add: xmx_item_def)
qed

text \<open>
  The kernel on matrix units computes the product for the sizes it accepts, in every order of the
  work items, and rejects the others.
\<close>

theorem gemm_xmx_correct:
  fixes ops :: "('h, 'f) fops"
  assumes "mad_ok ops mad" and "M * K \<le> length A" "length A < 2 ^ 31" "K * N \<le> length B" "length B < 2 ^ 31"
    and "M * N \<le> length C" "length C < 2 ^ 31" and "set items = grid_blocks (M div 8) (N div 16)" and "mac_ok ops A B M N K"
  shows "gemm_xmx_bf16 ops mad A B M N K items C =
    (if M mod 8 = 0 \<and> N mod 16 = 0 \<and> K mod 16 = 0 then Inr (overwrite (dot_at ops A B M N K) {0..<M * N} C)
     else Inl (Invalid_argument ''M,N,K must be multiples of XMX tile (8,16,16)''))"
proof (cases "M mod 8 = 0 \<and> N mod 16 = 0 \<and> K mod 16 = 0")
  case True
  have "rfold (xmx_item ops mad A B N K) items C =
    Inr (overwrite (dot_at ops A B M N K) (\<Union>it\<in>set items. block_cells M N 8 16 it) C)"
  proof (rule rfold_overwrite [where L = "length C"])
    fix it and ys :: "'f list" assume it: "it \<in> set items" and ys: "length ys = length C"
    obtain m n where mn: "it = (m, n)" by force
    have "m * 8 + 8 \<le> M" "n * 16 + 16 \<le> N" using it assms(8) True unfolding mn grid_blocks_def by auto
    from xmx_item_ok [OF assms(1) this _ assms(2-5) ys assms(6,7,9)] True mn
    show "xmx_item ops mad A B N K it ys = Inr (overwrite (dot_at ops A B M N K) (block_cells M N 8 16 it) ys)" by simp
  qed simp
  moreover have "ceil_div M 8 = M div 8" "ceil_div N 16 = N div 16" using True by (simp_all add: ceil_div_dvd dvd_eq_mod_eq_0)
  then have "(\<Union>it\<in>set items. block_cells M N 8 16 it) = {0..<M * N}"
    using block_cells_cover [of 8 16 M N items] assms(8) by simp
  ultimately show ?thesis using True by (simp add: gemm_xmx_bf16_def)
qed (auto simp: gemm_xmx_bf16_def)

section \<open>The launcher\<close>

text \<open>\<open>xmx\<close>: whether the build has the matrix units. \<open>ms\<close> is the time the clock shows.\<close>

definition gflops :: "nat \<Rightarrow> nat \<Rightarrow> nat \<Rightarrow> real \<Rightarrow> real" where
  "gflops M N K ms = 2 * real M * real N * real K / (ms * 10 ^ 6)"

definition launch_matmul_sycl_bf16 :: "bool \<Rightarrow> ('f list \<Rightarrow> 'f list res) \<Rightarrow> ('f list \<Rightarrow> 'f list res) \<Rightarrow> real \<Rightarrow> nat \<Rightarrow> nat \<Rightarrow> nat \<Rightarrow>
    'f list \<Rightarrow> ('f list \<times> real \<times> real) res" where
  "launch_matmul_sycl_bf16 xmx gemm_xmx gemm_tiled ms M N K C =
     rbind (if xmx then gemm_xmx C else gemm_tiled C) (\<lambda>C'. Inr (C', ms, gflops M N K ms))"

text \<open>\<open>dev\<close> is the answer of the runtime, \<open>None\<close> when the query throws.\<close>

definition has_xmx_support :: "bool option \<Rightarrow> bool" where
  "has_xmx_support dev = (dev = Some True)"

end
