(* ===== verification/Gemm_Cublas.thy ===== *)
theory Gemm_Cublas
  imports Gemm_Vendor
begin

text \<open>
  The cuBLASLt path of the vendor back end (src/gemm_vendor.cpp, \<open>cublas_gemm\<close>), the FP8 launcher that is
  built on it (kernels/matmul.cu) and what the three back ends have in common. The library is a
  parameter: which of its calls succeed, the heuristic, and the multiplication. The descriptors it
  hands out are objects that must be destroyed; the code works on the list of those alive, and
  an exception leaves the list as it was when it was thrown.
\<close>

section \<open>Calls that change a state and may throw\<close>

definition sbind :: "('s \<Rightarrow> 's \<times> 'a res) \<Rightarrow> ('a \<Rightarrow> 's \<Rightarrow> 's \<times> 'b res) \<Rightarrow> 's \<Rightarrow> 's \<times> 'b res" where
  "sbind m f s = (case m s of (s', Inl e) \<Rightarrow> (s', Inl e) | (s', Inr x) \<Rightarrow> f x s')"

definition slift :: "'a res \<Rightarrow> 's \<Rightarrow> 's \<times> 'a res" where
  "slift r s = (s, r)"

lemma sbind_simps [simp]:
  "m s = (s', Inl e) \<Longrightarrow> sbind m f s = (s', Inl e)"
  "m s = (s', Inr x) \<Longrightarrow> sbind m f s = f x s'"
  by (simp_all add: sbind_def)

section \<open>Descriptors of the library\<close>

datatype cuda_type = R_32F | R_16BF | R_16F | R_8I | R_32I | R_8F_E4M3 | R_8F_E5M2

text \<open>\<open>fp8\<close>: whether the build has the FP8 types.\<close>

fun to_cuda_dtype :: "bool \<Rightarrow> data_type \<Rightarrow> cuda_type res" where
  "to_cuda_dtype fp8 FP32 = Inr R_32F"
| "to_cuda_dtype fp8 BF16 = Inr R_16BF"
| "to_cuda_dtype fp8 FP16 = Inr R_16F"
| "to_cuda_dtype fp8 INT8 = Inr R_8I"
| "to_cuda_dtype fp8 INT32 = Inr R_32I"
| "to_cuda_dtype fp8 FP8E4M3 = (if fp8 then Inr R_8F_E4M3 else Inl (Runtime_error ''unsupported dtype for cuBLASLt''))"
| "to_cuda_dtype fp8 FP8E5M2 = (if fp8 then Inr R_8F_E5M2 else Inl (Runtime_error ''unsupported dtype for cuBLASLt''))"
| "to_cuda_dtype fp8 INT4 = Inl (Runtime_error ''unsupported dtype for cuBLASLt'')"

datatype compute_type = Compute_32F | Compute_16F | Compute_32I

definition compute_type_for :: "data_type \<Rightarrow> data_type \<Rightarrow> compute_type" where
  "compute_type_for a c =
     (if c = FP32 then Compute_32F
      else if a = FP16 \<and> c = FP16 then Compute_16F
      else if a = INT8 then Compute_32I else Compute_32F)"

datatype lt_epilogue = Lt_default | Lt_relu | Lt_bias | Lt_gelu

fun to_cublas_epilogue :: "gemm_epilogue \<Rightarrow> lt_epilogue" where
  "to_cublas_epilogue Ep_RELU = Lt_relu"
| "to_cublas_epilogue Ep_BIAS = Lt_bias"
| "to_cublas_epilogue Ep_GELU = Lt_gelu"
| "to_cublas_epilogue Ep_NONE = Lt_default"

record lt_desc =
  lt_compute :: compute_type
  lt_transa :: bool
  lt_transb :: bool
  lt_a_scale :: "nat option"
  lt_b_scale :: "nat option"
  lt_d_scale :: "nat option"
  lt_amax :: "nat option"
  lt_epilogue :: lt_epilogue
  lt_bias :: "nat option"

record lt_layout =
  ly_type :: cuda_type
  ly_rows :: nat
  ly_cols :: nat
  ly_ld :: nat
  ly_row_major :: bool

datatype lt_obj = O_desc | O_lay_a | O_lay_b | O_lay_c | O_pref

text \<open>The calls whose status is checked, in the order the code has them.\<close>

datatype lt_step = Desc_create | Set_transa | Set_transb | Set_a_scale | Set_b_scale | Set_d_scale | Set_amax
  | Set_epilogue | Set_bias | Create_a | Create_b | Create_c | Order_a | Order_b | Order_c | Pref_create | Pref_workspace

text \<open>
  \<open>lt_matmul\<close> is given the contents of device memory at the addresses of the scales; \<open>None\<close> is an error status.
\<close>

record 'alg lt_lib =
  lt_ok :: "lt_step \<Rightarrow> bool"
  lt_heuristic :: "lt_desc \<Rightarrow> lt_layout \<Rightarrow> lt_layout \<Rightarrow> lt_layout \<Rightarrow> nat option \<Rightarrow> 'alg option"
  lt_matmul :: "(nat \<Rightarrow> real) \<Rightarrow> lt_desc \<Rightarrow> real \<Rightarrow> lt_layout \<Rightarrow> lt_layout \<Rightarrow> real \<Rightarrow> lt_layout \<Rightarrow> 'alg option \<Rightarrow> nat option \<times> nat \<Rightarrow>
    real list \<Rightarrow> real list \<Rightarrow> real list \<Rightarrow> real list option"

section \<open>The call\<close>

definition cublas_error :: fault where
  "cublas_error = Runtime_error ''cuBLASLt error''"

fun lt_checks :: "'alg lt_lib \<Rightarrow> lt_step list \<Rightarrow> lt_obj list \<Rightarrow> lt_obj list \<times> unit res" where
  "lt_checks lib [] live = (live, Inr ())"
| "lt_checks lib (st # sts) live = (if lt_ok lib st then lt_checks lib sts live else (live, Inl cublas_error))"

definition lt_new :: "'alg lt_lib \<Rightarrow> lt_step \<Rightarrow> lt_obj \<Rightarrow> lt_obj list \<Rightarrow> lt_obj list \<times> unit res" where
  "lt_new lib st ob live = (if lt_ok lib st then (ob # live, Inr ()) else (live, Inl cublas_error))"

definition lt_destroy :: "lt_obj list \<Rightarrow> lt_obj list \<Rightarrow> lt_obj list \<times> unit res" where
  "lt_destroy obs live = (fold remove1 obs live, Inr ())"

definition desc_steps :: "gemm_desc \<Rightarrow> lt_step list" where
  "desc_steps d = [Set_transa, Set_transb] @ (if gd_scale_a d \<noteq> None then [Set_a_scale] else []) @
     (if gd_scale_b d \<noteq> None then [Set_b_scale] else []) @ (if gd_scale_c d \<noteq> None then [Set_d_scale] else []) @
     (if gd_amax_c d \<noteq> None then [Set_amax] else []) @ [Set_epilogue] @
     (if gd_epilogue d = Ep_BIAS \<and> gd_bias d \<noteq> None then [Set_bias] else [])"

definition lt_desc_of :: "gemm_desc \<Rightarrow> lt_desc" where
  "lt_desc_of d = \<lparr>lt_compute = compute_type_for (gd_dtype_a d) (gd_dtype_c d), lt_transa = gd_transa d, lt_transb = gd_transb d,
     lt_a_scale = gd_scale_a d, lt_b_scale = gd_scale_b d, lt_d_scale = gd_scale_c d, lt_amax = gd_amax_c d,
     lt_epilogue = to_cublas_epilogue (gd_epilogue d),
     lt_bias = (if gd_epilogue d = Ep_BIAS then gd_bias d else None)\<rparr>"

definition lay_a :: "gemm_desc \<Rightarrow> cuda_type \<Rightarrow> lt_layout" where
  "lay_a d t = \<lparr>ly_type = t, ly_rows = (if gd_transa d then gd_K d else gd_M d), ly_cols = (if gd_transa d then gd_M d else gd_K d),
     ly_ld = (if gd_transa d then gd_M d else gd_K d), ly_row_major = True\<rparr>"

definition lay_b :: "gemm_desc \<Rightarrow> cuda_type \<Rightarrow> lt_layout" where
  "lay_b d t = \<lparr>ly_type = t, ly_rows = (if gd_transb d then gd_N d else gd_K d), ly_cols = (if gd_transb d then gd_K d else gd_N d),
     ly_ld = (if gd_transb d then gd_K d else gd_N d), ly_row_major = True\<rparr>"

definition lay_c :: "gemm_desc \<Rightarrow> cuda_type \<Rightarrow> lt_layout" where
  "lay_c d t = \<lparr>ly_type = t, ly_rows = gd_M d, ly_cols = gd_N d, ly_ld = gd_N d, ly_row_major = True\<rparr>"

text \<open>
  \<open>ws\<close> is the workspace of the object, pointer and size. The preference is limited to the size when the pointer is not
  null; both are handed to the multiplication in every case.
\<close>

definition cublas_gemm :: "'alg lt_lib \<Rightarrow> bool \<Rightarrow> nat option \<times> nat \<Rightarrow> (nat \<Rightarrow> real) \<Rightarrow> gemm_desc \<Rightarrow> real list \<Rightarrow> real list \<Rightarrow> real list \<Rightarrow>
    lt_obj list \<Rightarrow> lt_obj list \<times> real list res" where
  "cublas_gemm lib fp8 ws mem d A B C =
     sbind (slift (to_cuda_dtype fp8 (gd_dtype_a d))) (\<lambda>ta.
     sbind (slift (to_cuda_dtype fp8 (gd_dtype_b d))) (\<lambda>tb.
     sbind (slift (to_cuda_dtype fp8 (gd_dtype_c d))) (\<lambda>tc.
     sbind (lt_new lib Desc_create O_desc) (\<lambda>_.
     sbind (lt_checks lib (desc_steps d)) (\<lambda>_.
     sbind (lt_new lib Create_a O_lay_a) (\<lambda>_.
     sbind (lt_new lib Create_b O_lay_b) (\<lambda>_.
     sbind (lt_new lib Create_c O_lay_c) (\<lambda>_.
     sbind (lt_checks lib [Order_a, Order_b, Order_c]) (\<lambda>_.
     sbind (lt_new lib Pref_create O_pref) (\<lambda>_.
     sbind (lt_checks lib (if fst ws \<noteq> None then [Pref_workspace] else [])) (\<lambda>_.
       let op = lt_desc_of d; la = lay_a d ta; lb = lay_b d tb; lc = lay_c d tc;
           algo = lt_heuristic lib op la lb lc (if fst ws \<noteq> None then Some (snd ws) else None) in
     sbind (slift (case lt_matmul lib mem op (gd_alpha d) la lb (gd_beta d) lc algo ws A B C of
         None \<Rightarrow> Inl cublas_error | Some C' \<Rightarrow> Inr C')) (\<lambda>C'.
     sbind (lt_destroy [O_pref, O_lay_a, O_lay_b, O_lay_c, O_desc]) (\<lambda>_.
       slift (Inr C'))))))))))))))"

section \<open>What it computes\<close>

text \<open>The documented behaviour of \<open>cublasLtMatmul\<close> on row-major operands without a fused epilogue.\<close>

definition row_elem :: "bool \<Rightarrow> nat \<Rightarrow> real list \<Rightarrow> nat \<Rightarrow> nat \<Rightarrow> real" where
  "row_elem tr ld X r c = (if tr then X ! (c * ld + r) else X ! (r * ld + c))"

definition scale_of :: "(nat \<Rightarrow> real) \<Rightarrow> nat option \<Rightarrow> real" where
  "scale_of mem p = (case p of None \<Rightarrow> 1 | Some q \<Rightarrow> mem q)"

definition lt_spec :: "'alg lt_lib \<Rightarrow> bool" where
  "lt_spec lib \<longleftrightarrow> (\<forall>mem op al la lb be lc algo ws X Y Z Z'.
     lt_matmul lib mem op al la lb be lc algo ws X Y Z = Some Z' \<and> ly_row_major la \<and> ly_row_major lb \<and> ly_row_major lc \<and>
     lt_epilogue op = Lt_default \<and> lt_d_scale op = None \<and> ly_cols lc \<le> ly_ld lc \<and> ly_rows lc * ly_ld lc \<le> length Z \<longrightarrow>
     length Z' = length Z \<and>
     (\<forall>r<ly_rows lc. \<forall>c<ly_cols lc. Z' ! (r * ly_ld lc + c) =
       al * scale_of mem (lt_a_scale op) * scale_of mem (lt_b_scale op) *
         (\<Sum>l<(if lt_transa op then ly_rows la else ly_cols la). row_elem (lt_transa op) (ly_ld la) X r l * row_elem (lt_transb op) (ly_ld lb) Y l c) +
       be * Z ! (r * ly_ld lc + c)))"

lemma lt_checks_eq: "lt_checks lib sts live = (live, if \<forall>st\<in>set sts. lt_ok lib st then Inr () else Inl cublas_error)"
  by (induction sts) auto

text \<open>
  Either a call failed, and every object created before it is left behind, or all are destroyed and the
  result is the scaled product.
\<close>

lemma cublas_gemm_cases:
  assumes "to_cuda_dtype fp8 (gd_dtype_a d) = Inr ta" "to_cuda_dtype fp8 (gd_dtype_b d) = Inr tb"
    "to_cuda_dtype fp8 (gd_dtype_c d) = Inr tc" and "cublas_gemm lib fp8 ws mem d A B C live = (live', r)"
  shows "(\<exists>obs. r = Inl cublas_error \<and> live' = obs @ live \<and> (obs = [] \<longleftrightarrow> \<not> lt_ok lib Desc_create)) \<or>
    (\<exists>C' algo. r = Inr C' \<and> live' = live \<and> lt_matmul lib mem (lt_desc_of d) (gd_alpha d) (lay_a d ta) (lay_b d tb) (gd_beta d) (lay_c d tc) algo ws A B C = Some C')"
  using assms
  by (auto simp: cublas_gemm_def slift_def sbind_def lt_new_def lt_checks_eq lt_destroy_def Let_def
      split: if_splits option.splits)

text \<open>The descriptor with the scales of the operands multiplied into \<open>alpha\<close>.\<close>

definition scaled :: "(nat \<Rightarrow> real) \<Rightarrow> gemm_desc \<Rightarrow> gemm_desc" where
  "scaled mem d = d\<lparr>gd_alpha := gd_alpha d * scale_of mem (gd_scale_a d) * scale_of mem (gd_scale_b d)\<rparr>"

lemma cublas_gemm_ok:
  assumes "lt_spec lib" and types: "to_cuda_dtype fp8 (gd_dtype_a d) = Inr ta" "to_cuda_dtype fp8 (gd_dtype_b d) = Inr tb"
    "to_cuda_dtype fp8 (gd_dtype_c d) = Inr tc"
    and "gd_epilogue d = Ep_NONE" "gd_scale_c d = None" and "gd_M d * gd_N d \<le> length C"
    and run: "cublas_gemm lib fp8 ws mem d A B C live = (live', Inr C')"
  shows "live' = live" and "length C' = length C"
    and "\<forall>i<gd_M d. \<forall>j<gd_N d. C' ! (i * gd_N d + j) = gemm_value (scaled mem d) A B C i j"
proof -
  let ?op = "lt_desc_of d" and ?la = "lay_a d ta" and ?lb = "lay_b d tb" and ?lc = "lay_c d tc"
  obtain algo where m: "lt_matmul lib mem ?op (gd_alpha d) ?la ?lb (gd_beta d) ?lc algo ws A B C = Some C'"
    and l: "live' = live" using cublas_gemm_cases [OF types run] by auto
  show "live' = live" by (rule l)
  have "lt_matmul lib mem ?op (gd_alpha d) ?la ?lb (gd_beta d) ?lc algo ws A B C = Some C' \<and> ly_row_major ?la \<and>
    ly_row_major ?lb \<and> ly_row_major ?lc \<and> lt_epilogue ?op = Lt_default \<and> lt_d_scale ?op = None \<and>
    ly_cols ?lc \<le> ly_ld ?lc \<and> ly_rows ?lc * ly_ld ?lc \<le> length C"
    using m assms(5-7) by (simp add: lt_desc_of_def lay_a_def lay_b_def lay_c_def)
  from assms(1) [unfolded lt_spec_def, rule_format, OF this]
  have v: "length C' = length C" "\<forall>r<ly_rows ?lc. \<forall>c<ly_cols ?lc. C' ! (r * ly_ld ?lc + c) =
       gd_alpha d * scale_of mem (lt_a_scale ?op) * scale_of mem (lt_b_scale ?op) *
         (\<Sum>l<(if lt_transa ?op then ly_rows ?la else ly_cols ?la). row_elem (lt_transa ?op) (ly_ld ?la) A r l *
           row_elem (lt_transb ?op) (ly_ld ?lb) B l c) + gd_beta d * C ! (r * ly_ld ?lc + c)"
    by (blast, blast)
  show "length C' = length C" by (rule v(1))
  have k: "(if lt_transa ?op then ly_rows ?la else ly_cols ?la) = gd_K d" by (simp add: lt_desc_of_def lay_a_def)
  have el: "row_elem (lt_transa ?op) (ly_ld ?la) A i l = op_a (scaled mem d) A i l"
    "row_elem (lt_transb ?op) (ly_ld ?lb) B l j = op_b (scaled mem d) B l j" for i j l
    by (simp_all add: row_elem_def op_a_def op_b_def lt_desc_of_def lay_a_def lay_b_def scaled_def)
  show "\<forall>i<gd_M d. \<forall>j<gd_N d. C' ! (i * gd_N d + j) = gemm_value (scaled mem d) A B C i j"
    using v(2) [unfolded k el] by (simp add: gemm_value_def lay_c_def scaled_def lt_desc_of_def)
qed

section \<open>The FP8 launcher\<close>

definition fp8_desc :: "nat \<Rightarrow> nat \<Rightarrow> nat \<Rightarrow> nat option \<Rightarrow> nat option \<Rightarrow> gemm_desc" where
  "fp8_desc M N K pa pb = default_desc\<lparr>gd_M := M, gd_N := N, gd_K := K, gd_dtype_a := FP8E4M3, gd_dtype_b := FP8E4M3,
     gd_dtype_c := FP32, gd_alpha := 1, gd_beta := 0, gd_scale_a := pa, gd_scale_b := pb\<rparr>"

text \<open>
  \<open>pa\<close> and \<open>pb\<close> are what the two device allocations return, \<open>None\<close> when they fail, which the code does not look at: the
  copy to a null pointer fails and is not looked at either. \<open>bufs\<close> are the device buffers alive.
\<close>

definition copy_scale :: "nat option \<Rightarrow> real \<Rightarrow> (nat \<Rightarrow> real) \<Rightarrow> nat \<Rightarrow> real" where
  "copy_scale p v mem = (case p of None \<Rightarrow> mem | Some q \<Rightarrow> mem(q := v))"

definition launch_matmul_fp8e4m3 :: "((nat \<Rightarrow> real) \<Rightarrow> gemm_fun) \<Rightarrow> nat option \<Rightarrow> nat option \<Rightarrow> nat \<Rightarrow> nat \<Rightarrow> nat \<Rightarrow> real \<Rightarrow> real \<Rightarrow>
    real list \<Rightarrow> real list \<Rightarrow> real list \<Rightarrow> (nat \<Rightarrow> real) \<times> nat set \<Rightarrow> ((nat \<Rightarrow> real) \<times> nat set) \<times> real list res" where
  "launch_matmul_fp8e4m3 gemm pa pb M N K scale_a scale_b A B C st = (case st of (mem, bufs) \<Rightarrow>
     (let mem' = copy_scale pb scale_b (copy_scale pa scale_a mem);
          bufs' = bufs \<union> set_option pa \<union> set_option pb in
      case gemm mem' (fp8_desc M N K pa pb) A B C of
        Inl e \<Rightarrow> ((mem', bufs'), Inl e)
      | Inr C' \<Rightarrow> ((mem', bufs' - set_option pa - set_option pb), Inr C')))"

text \<open>
  The launcher on the three back ends. With cuBLASLt it multiplies by both scales and frees its
  buffers; rocBLAS rejects the element type after they are allocated, and they stay; without a library the result is
  left as it was and nothing is reported.
\<close>

theorem fp8_launch_backends:
  assumes "lt_spec lib" and "pa \<noteq> pb" and "{pa, pb} \<inter> bufs = {}" and "M * N \<le> length C"
  shows "launch_matmul_fp8e4m3 (\<lambda>mem d A B C. snd (cublas_gemm lib True ws mem d A B C live)) (Some pa) (Some pb)
      M N K sa sb A B C (mem, bufs) = ((mem', bufs'), Inr C') \<Longrightarrow> bufs' = bufs \<and>
      (\<forall>i<M. \<forall>j<N. C' ! (i * N + j) = sa * sb * (\<Sum>l<K. A ! (i * K + l) * B ! (l * N + j)))"
    and "\<exists>mem'. launch_matmul_fp8e4m3 (\<lambda>mem. rocblas_gemm_impl gemm_ex) (Some pa) (Some pb) M N K sa sb A B C (mem, bufs) =
      ((mem', bufs \<union> {pa, pb}), Inl (Runtime_error ''unsupported dtype for rocBLAS''))"
    and "\<exists>mem'. launch_matmul_fp8e4m3 (\<lambda>mem. fallback_gemm) (Some pa) (Some pb) M N K sa sb A B C (mem, bufs) =
      ((mem', bufs), Inr C)"
proof -
  let ?d = "fp8_desc M N K (Some pa) (Some pb)"
  let ?mem = "copy_scale (Some pb) sb (copy_scale (Some pa) sa mem)"
  assume run: "launch_matmul_fp8e4m3 (\<lambda>mem d A B C. snd (cublas_gemm lib True ws mem d A B C live)) (Some pa) (Some pb)
      M N K sa sb A B C (mem, bufs) = ((mem', bufs'), Inr C')"
  obtain live' r where c: "cublas_gemm lib True ws ?mem ?d A B C live = (live', r)" by force
  with run have r: "r = Inr C'" and b: "bufs' = bufs \<union> {pa} \<union> {pb} - {pa} - {pb}"
    by (auto simp: launch_matmul_fp8e4m3_def Let_def split: sum.splits)
  have "to_cuda_dtype True (gd_dtype_a ?d) = Inr R_8F_E4M3" "to_cuda_dtype True (gd_dtype_b ?d) = Inr R_8F_E4M3"
    "to_cuda_dtype True (gd_dtype_c ?d) = Inr R_32F" "gd_epilogue ?d = Ep_NONE" "gd_scale_c ?d = None"
    "gd_M ?d * gd_N ?d \<le> length C"
    using assms(4) by (simp_all add: fp8_desc_def default_desc_def)
  from cublas_gemm_ok(3) [OF assms(1) this c [unfolded r]]
  have "\<forall>i<M. \<forall>j<N. C' ! (i * N + j) = sa * sb * (\<Sum>l<K. A ! (i * K + l) * B ! (l * N + j))"
    using assms(2) by (simp add: gemm_value_def op_a_def op_b_def scaled_def scale_of_def copy_scale_def
      fp8_desc_def default_desc_def)
  then show "bufs' = bufs \<and> (\<forall>i<M. \<forall>j<N. C' ! (i * N + j) = sa * sb * (\<Sum>l<K. A ! (i * K + l) * B ! (l * N + j)))"
    using b assms(3) by blast
next
  show "\<exists>mem'. launch_matmul_fp8e4m3 (\<lambda>mem. rocblas_gemm_impl gemm_ex) (Some pa) (Some pb) M N K sa sb A B C (mem, bufs) =
      ((mem', bufs \<union> {pa, pb}), Inl (Runtime_error ''unsupported dtype for rocBLAS''))"
    by (auto simp: launch_matmul_fp8e4m3_def rocblas_gemm_impl_def fp8_desc_def default_desc_def Let_def)
  show "\<exists>mem'. launch_matmul_fp8e4m3 (\<lambda>mem. fallback_gemm) (Some pa) (Some pb) M N K sa sb A B C (mem, bufs) =
      ((mem', bufs), Inr C)"
    using assms(3) by (auto simp: launch_matmul_fp8e4m3_def fallback_gemm_def fp8_desc_def default_desc_def Let_def)
qed

section \<open>Properties\<close>

lemma rocblas_type_cuda: "to_rocblas_dtype t = Inr x \<Longrightarrow> \<exists>y. to_cuda_dtype fp8 t = Inr y"
  by (cases t) auto


definition ref_lt :: "nat lt_lib" where
  "ref_lt = \<lparr>lt_ok = (\<lambda>_. True), lt_heuristic = (\<lambda>op la lb lc w. None),
     lt_matmul = (\<lambda>mem op al la lb be lc algo ws X Y Z. Some (map (\<lambda>p.
       if p mod ly_ld lc < ly_cols lc \<and> p div ly_ld lc < ly_rows lc
       then al * scale_of mem (lt_a_scale op) * scale_of mem (lt_b_scale op) *
         (\<Sum>l<(if lt_transa op then ly_rows la else ly_cols la). row_elem (lt_transa op) (ly_ld la) X (p div ly_ld lc) l *
           row_elem (lt_transb op) (ly_ld lb) Y l (p mod ly_ld lc)) + be * Z ! p
       else Z ! p) [0..<length Z]))\<rparr>"

lemma ref_lt_spec: "lt_spec ref_lt"
proof -
  have idx: "r * ly_ld lc + c < n \<and> (r * ly_ld lc + c) mod ly_ld lc = c \<and> (r * ly_ld lc + c) div ly_ld lc = r"
    if "r < ly_rows lc" "c < ly_cols lc" "ly_cols lc \<le> ly_ld lc" "ly_rows lc * ly_ld lc \<le> n" for r c n and lc :: lt_layout
    using flat_index_less [of r "ly_rows lc" c "ly_ld lc"] that by simp
  show ?thesis unfolding lt_spec_def ref_lt_def
    by (intro allI impI) (clarsimp simp: idx)
qed


end
