(* ===== verification/Gemm_Tuning.thy ===== *)
theory Gemm_Tuning
  imports Gemm_Sycl Gemm_Cublas
begin

text \<open>
  The autotuners of the matrix kernels (kernels/matmul.cu, kernels/matmul_sycl.cpp): a grid search for
  FP32, and timed runs of the single configuration of the other formats. A launch is a function on the
  buffers; the time the clock shows for a configuration is an argument.
\<close>

section \<open>Results\<close>

datatype matmul_dtype = Mm_FP32 | Mm_BF16 | Mm_FP8E4M3 | Mm_FP8E5M2 | Mm_INT8

record tuned_cfg = tile_cfg +
  tc_dtype :: matmul_dtype
  tc_scale_a :: real
  tc_scale_b :: real

record tune_result =
  tr_cfg :: tuned_cfg
  tr_ms :: real
  tr_gflops :: real

definition mk_cfg :: "nat \<Rightarrow> nat \<Rightarrow> nat \<Rightarrow> matmul_dtype \<Rightarrow> tuned_cfg" where
  "mk_cfg BM BN BK dt = \<lparr>tc_BM = BM, tc_BN = BN, tc_BK = BK, tc_dtype = dt, tc_scale_a = 1, tc_scale_b = 1\<rparr>"

section \<open>FP32\<close>

definition fp32_space :: "tuned_cfg list" where
  "fp32_space = [mk_cfg 16 16 16 Mm_FP32, mk_cfg 32 16 16 Mm_FP32, mk_cfg 32 32 16 Mm_FP32, mk_cfg 32 32 32 Mm_FP32]"

definition tune_try :: "(tuned_cfg \<Rightarrow> 'o \<Rightarrow> 'o res) \<Rightarrow> (tuned_cfg \<Rightarrow> real) \<Rightarrow> nat \<Rightarrow> nat \<Rightarrow> nat \<Rightarrow> tuned_cfg \<Rightarrow>
    tune_result \<times> 'o \<Rightarrow> (tune_result \<times> 'o) res" where
  "tune_try launch ms M N K c st = (case st of (best, out) \<Rightarrow>
     rbind (warm_up (launch c) 3 out) (\<lambda>(ok, out).
       if \<not> ok then Inr (best, out)
       else rbind (rfold (\<lambda>_. launch c) [0..<20] out) (\<lambda>out.
         if ms c < tr_ms best then Inr (\<lparr>tr_cfg = c, tr_ms = ms c, tr_gflops = gflops M N K (ms c)\<rparr>, out)
         else Inr (best, out))))"

definition autotune_matmul :: "(tuned_cfg \<Rightarrow> 'o \<Rightarrow> 'o res) \<Rightarrow> (tuned_cfg \<Rightarrow> real) \<Rightarrow> nat \<Rightarrow> nat \<Rightarrow> nat \<Rightarrow> 'o \<Rightarrow> (tune_result \<times> 'o) res" where
  "autotune_matmul launch ms M N K out =
     rfold (tune_try launch ms M N K) fp32_space (\<lparr>tr_cfg = mk_cfg 0 0 0 Mm_FP32, tr_ms = 10 ^ 18, tr_gflops = 0\<rparr>, out)"

section \<open>The other formats\<close>

text \<open>\<open>warm\<close> and \<open>reps\<close> untimed and timed launches of the one configuration; an exception is passed on.\<close>

definition timed_runs :: "('o \<Rightarrow> 'o res) \<Rightarrow> nat \<Rightarrow> nat \<Rightarrow> 'o \<Rightarrow> 'o res" where
  "timed_runs launch warm reps out = rbind (rfold (\<lambda>_. launch) [0..<warm] out) (rfold (\<lambda>_. launch) [0..<reps])"

fun autotune_matmul_bf16 :: "device \<Rightarrow> ('o \<Rightarrow> 'o res) \<Rightarrow> real \<Rightarrow> nat \<Rightarrow> nat \<Rightarrow> nat \<Rightarrow> 'o \<Rightarrow> (tune_result \<times> 'o) res" where
  "autotune_matmul_bf16 (Cuda major minor) launch ms M N K out =
     rbind (timed_runs launch 3 20 out) (\<lambda>out. Inr (\<lparr>tr_cfg = mk_cfg 16 16 16 Mm_BF16, tr_ms = ms, tr_gflops = gflops M N K ms\<rparr>, out))"
| "autotune_matmul_bf16 (Hip arch) launch ms M N K out =
     rbind (timed_runs launch 1 10 out) (\<lambda>out. Inr (\<lparr>tr_cfg = mk_cfg 16 16 16 Mm_BF16, tr_ms = ms, tr_gflops = gflops M N K ms\<rparr>, out))"

text \<open>The second text of the BF16 autotuner, for HIP.\<close>

definition hip_autotune_matmul_bf16 :: "('o \<Rightarrow> 'o res) \<Rightarrow> real \<Rightarrow> nat \<Rightarrow> nat \<Rightarrow> nat \<Rightarrow> 'o \<Rightarrow> (tune_result \<times> 'o) res" where
  "hip_autotune_matmul_bf16 launch ms M N K out =
     rbind (launch out) (\<lambda>out. rbind (rfold (\<lambda>_. launch) [0..<10] out) (\<lambda>out.
       Inr (\<lparr>tr_cfg = mk_cfg 16 16 16 Mm_BF16, tr_ms = ms, tr_gflops = gflops M N K ms\<rparr>, out)))"

lemma hip_autotune_same: "hip_autotune_matmul_bf16 launch ms M N K out = autotune_matmul_bf16 (Hip arch) launch ms M N K out"
  by (simp add: hip_autotune_matmul_bf16_def timed_runs_def rbind_assoc)

definition autotune_matmul_fp8 :: "device option \<Rightarrow> ('o \<Rightarrow> 'o res) \<Rightarrow> real \<Rightarrow> nat \<Rightarrow> nat \<Rightarrow> nat \<Rightarrow> real \<Rightarrow> real \<Rightarrow> 'o \<Rightarrow> (tune_result \<times> 'o) res" where
  "autotune_matmul_fp8 dev launch ms M N K scale_a scale_b out =
     (if \<not> has_tensor_core_fp8 dev then Inr (\<lparr>tr_cfg = mk_cfg 16 16 32 Mm_FP8E4M3, tr_ms = 10 ^ 18, tr_gflops = 0\<rparr>, out)
      else rbind (timed_runs launch 3 20 out) (\<lambda>out.
        Inr (\<lparr>tr_cfg = (mk_cfg 16 16 32 Mm_FP8E4M3)\<lparr>tc_scale_a := scale_a, tc_scale_b := scale_b\<rparr>, tr_ms = ms,
              tr_gflops = gflops M N K ms\<rparr>, out)))"

definition autotune_matmul_sycl_bf16 :: "('o \<Rightarrow> 'o res) \<Rightarrow> real \<Rightarrow> nat \<Rightarrow> nat \<Rightarrow> nat \<Rightarrow> 'o \<Rightarrow> ('o \<times> real \<times> real) res" where
  "autotune_matmul_sycl_bf16 launch ms M N K out =
     rbind (timed_runs launch 1 10 out) (\<lambda>out. Inr (out, ms, gflops M N K ms))"

section \<open>What they return\<close>

definition tuned :: "(tuned_cfg \<Rightarrow> real) \<Rightarrow> tuned_cfg set \<Rightarrow> tune_result \<Rightarrow> bool" where
  "tuned ms tried best \<longleftrightarrow> tr_ms best \<le> 10 ^ 18 \<and> (\<forall>c\<in>tried. tr_ms best \<le> ms c) \<and>
     (tr_ms best < 10 ^ 18 \<longrightarrow> tr_cfg best \<in> tried \<and> tr_ms best = ms (tr_cfg best))"

lemma runs_ok:
  assumes "\<And>x. P x \<Longrightarrow> \<exists>y. run x = Inr y \<and> P y" and "P x"
  shows "\<exists>y. rfold (\<lambda>_. run) xs x = Inr y \<and> P y"
  by (rule rfold_total [where P = P]) (use assms in auto)

lemma tune_try_ok:
  assumes "\<And>x. P x \<Longrightarrow> \<exists>y. launch c x = Inr y \<and> P y" and "P out" and "tuned ms tried best"
  shows "\<exists>best' out'. tune_try launch ms M N K c (best, out) = Inr (best', out') \<and> P out' \<and> tuned ms (insert c tried) best'"
proof -
  obtain o1 where 1: "warm_up (launch c) 3 out = Inr (True, o1)" "P o1" using warm_up_ok [where P = P and run = "launch c" and n = 3, OF assms(1,2)] by blast
  obtain o2 where 2: "rfold (\<lambda>_. launch c) [0..<20] o1 = Inr o2" "P o2" using runs_ok [where P = P and run = "launch c", OF assms(1) 1(2)] by blast
  show ?thesis
  proof (cases "ms c < tr_ms best")
    case True
    then have "tune_try launch ms M N K c (best, out) = Inr (\<lparr>tr_cfg = c, tr_ms = ms c, tr_gflops = gflops M N K (ms c)\<rparr>, o2)"
      using 1(1) 2(1) by (simp add: tune_try_def del: upt_rec_numeral)
    moreover have "tuned ms (insert c tried) \<lparr>tr_cfg = c, tr_ms = ms c, tr_gflops = gflops M N K (ms c)\<rparr>"
      using True assms(3) by (auto simp: tuned_def)
    ultimately show ?thesis using 2(2) by blast
  next
    case False
    then have "tune_try launch ms M N K c (best, out) = Inr (best, o2)"
      using 1(1) 2(1) by (simp add: tune_try_def del: upt_rec_numeral)
    moreover have "tuned ms (insert c tried) best" using False assms(3) by (auto simp: tuned_def)
    ultimately show ?thesis using 2(2) by blast
  qed
qed

text \<open>
  When launches succeed, the FP32 tuner tries every configuration and returns one whose time is
  least, with that time.
\<close>

theorem autotune_matmul_best:
  assumes "\<And>c x. c \<in> set fp32_space \<Longrightarrow> P x \<Longrightarrow> \<exists>y. launch c x = Inr y \<and> P y" and "P out"
  shows "\<exists>best out'. autotune_matmul launch ms M N K out = Inr (best, out') \<and> P out' \<and> tuned ms (set fp32_space) best"
proof -
  have gen: "\<exists>best' out'. rfold (tune_try launch ms M N K) cs (best, out) = Inr (best', out') \<and> P out' \<and> tuned ms (tried \<union> set cs) best'"
    if "set cs \<subseteq> set fp32_space" "P out" "tuned ms tried best" for cs best out tried
    using that
  proof (induction cs arbitrary: best out tried)
    case (Cons c cs)
    have c: "c \<in> set fp32_space" using Cons.prems(1) by simp
    obtain b o1 where 1: "tune_try launch ms M N K c (best, out) = Inr (b, o1)" "P o1" "tuned ms (insert c tried) b"
      using tune_try_ok [where P = P and launch = launch and c = c, OF assms(1) [OF c] Cons.prems(2,3)] by blast
    obtain b' o2 where "rfold (tune_try launch ms M N K) cs (b, o1) = Inr (b', o2)" "P o2" "tuned ms (insert c tried \<union> set cs) b'"
      using Cons.IH [OF _ 1(2,3)] Cons.prems(1) by auto
    with 1(1) show ?case by simp
  qed simp
  show ?thesis unfolding autotune_matmul_def
    using gen [OF subset_refl assms(2), of "{}"] by (simp add: tuned_def)
qed

text \<open>On a device without FP8 the tuner reports a time of \<open>1e18\<close> and runs nothing.\<close>

lemma autotune_fp8_unsupported: "\<not> has_tensor_core_fp8 dev \<Longrightarrow>
    \<exists>r. autotune_matmul_fp8 dev launch ms M N K sa sb out = Inr (r, out) \<and> tr_ms r = 10 ^ 18"
  by (simp add: autotune_matmul_fp8_def)

text \<open>The configurations the tuner tries are the ones the launcher has.\<close>

lemma fp32_space_dispatch: "map tile_cfg.truncate fp32_space = dispatch_cfgs"
  by (simp add: fp32_space_def mk_cfg_def dispatch_cfgs_def tile_cfg.truncate_def)

end
