(* ===== verification/Plugin.thy ===== *)
theory Plugin
  imports Gemm Complex_Main
begin

text \<open>
  The validation of a user's kernel: the example plugin (examples/user_plugin_example.cu) with the
  device buffers it allocates, and the program that loads a plugin and compares its product with one
  computed on the host (tests/amp_validate_kernel.cpp). The plugin interface itself
  (include/amp_plugin.h) is the type \<open>plugin\<close>.
\<close>

section \<open>The example plugin\<close>

text \<open>The loop over \<open>k\<close>, the same in the kernel and in the reference on the host.\<close>

definition row_dot :: "('h, 'f) fops \<Rightarrow> 'h list \<Rightarrow> 'h list \<Rightarrow> nat \<Rightarrow> nat \<Rightarrow> nat \<Rightarrow> nat \<Rightarrow> 'f res" where
  "row_dot ops A B N K row col = rfold (\<lambda>k acc.
     rbind (buf_at A (row * K + k)) (\<lambda>a. rbind (buf_at B (k * N + col)) (\<lambda>b. Inr (mac ops acc a b)))) [0..<K] (f_zero ops)"

definition naive_thread :: "('h, 'f) fops \<Rightarrow> 'h list \<Rightarrow> 'h list \<Rightarrow> nat \<Rightarrow> nat \<Rightarrow> nat \<Rightarrow> nat \<Rightarrow> nat \<Rightarrow> nat \<Rightarrow> 'f list \<Rightarrow> 'f list res" where
  "naive_thread ops A B M N K by bx tid C =
     (let row = by * 16 + tid div 16; col = bx * 16 + tid mod 16 in
      if row \<ge> M \<or> col \<ge> N then Inr C
      else rbind (row_dot ops A B N K row col) (\<lambda>acc. buf_set (row * N + col) acc C))"

definition my_naive_gemm_kernel :: "('h, 'f) fops \<Rightarrow> 'h list \<Rightarrow> 'h list \<Rightarrow> nat \<Rightarrow> nat \<Rightarrow> nat \<Rightarrow> nat list \<Rightarrow> nat \<times> nat \<Rightarrow>
    'f list \<Rightarrow> 'f list res" where
  "my_naive_gemm_kernel ops A B M N K order blk C = (case blk of (by, bx) \<Rightarrow>
     rfold (naive_thread ops A B M N K by bx) order C)"

text \<open>
  What the run time does: which of the three allocations and of the three copies succeed, whether the
  synchronisation does, and what the fresh buffers hold.
\<close>

record 'f plugin_env =
  pe_malloc :: "nat \<Rightarrow> bool"
  pe_copy :: "nat \<Rightarrow> bool"
  pe_sync :: bool
  pe_fresh :: "nat \<Rightarrow> 'f list"

text \<open>The return code, the device buffers still allocated, and the host buffer \<open>C\<close>.\<close>

record 'f outcome =
  oc_rc :: int
  oc_live :: "nat list"
  oc_C :: "'f list"

definition amp_user_gemm_fp32 :: "'f plugin_env \<Rightarrow> ('f, 'f) fops \<Rightarrow> nat list \<Rightarrow> (nat \<times> nat) list \<Rightarrow>
    'f list \<Rightarrow> 'f list \<Rightarrow> 'f list \<Rightarrow> nat \<Rightarrow> nat \<Rightarrow> nat \<Rightarrow> 'f outcome res" where
  "amp_user_gemm_fp32 env ops order blocks hA hB hC M N K =
     (if \<not> pe_malloc env 0 then Inr \<lparr>oc_rc = 1, oc_live = [], oc_C = hC\<rparr>
      else if \<not> pe_malloc env 1 then Inr \<lparr>oc_rc = 1, oc_live = [0], oc_C = hC\<rparr>
      else if \<not> pe_malloc env 2 then Inr \<lparr>oc_rc = 1, oc_live = [0, 1], oc_C = hC\<rparr>
      else let live = [0, 1, 2];
          dA = (if pe_copy env 0 then hA else pe_fresh env 0);
          dB = (if pe_copy env 1 then hB else pe_fresh env 1)
        in rbind (rfold (my_naive_gemm_kernel ops dA dB M N K order) blocks (pe_fresh env 2)) (\<lambda>dC.
          if \<not> pe_sync env then Inr \<lparr>oc_rc = 1, oc_live = fold remove1 [0, 1, 2] live, oc_C = hC\<rparr>
          else let hC' = (if pe_copy env 2 then dC else hC)
            in Inr \<lparr>oc_rc = 0, oc_live = fold remove1 [0, 1, 2] live, oc_C = hC'\<rparr>))"

lemma row_dot_ok:
  assumes "row < M" "col < N" and "M * K \<le> length A" "length A < 2 ^ 31" "K * N \<le> length B" "length B < 2 ^ 31"
  shows "row_dot ops A B N K row col = Inr (dot ops A B M N K row col)"
proof -
  have "rfold (\<lambda>k acc. rbind (buf_at A (row * K + k)) (\<lambda>a. rbind (buf_at B (k * N + col)) (\<lambda>b. Inr (mac ops acc a b)))) ks x =
      Inr (fold (\<lambda>k x. mac ops x (A ! (row * K + k)) (B ! (k * N + col))) ks x)" if "set ks \<subseteq> {0..<K}" for ks x
    using that
  proof (induction ks arbitrary: x)
    case (Cons k ks)
    have "row * K + k < length A" "k * N + col < length B"
      using Cons.prems flat_index_less [OF assms(1), of k K] flat_index_less [OF _ assms(2), of k K] assms(3,5) by auto
    with Cons assms(4,6) show ?case by simp
  qed simp
  then show ?thesis by (simp add: row_dot_def dot_def)
qed

lemma my_naive_gemm_kernel_ok:
  fixes ops :: "('h, 'f) fops"
  assumes "M * K \<le> length A" "length A < 2 ^ 31" "K * N \<le> length B" "length B < 2 ^ 31"
    and "set order = {0..<256}" and "length C = L" "M * N \<le> L" "L < 2 ^ 31"
  shows "my_naive_gemm_kernel ops A B M N K order (by, bx) C =
    Inr (overwrite (dot_at ops A B M N K) (block_cells M N 16 16 (by, bx)) C)"
proof -
  define acc where "acc = map (\<lambda>tid. dot ops A B M N K (by * 16 + tid div 16) (bx * 16 + tid mod 16)) [0..<256]"
  have "naive_thread ops A B M N K by bx tid ys = store_acc M N 16 16 by bx acc tid ys" if "tid \<in> set order" for tid ys
    using that assms(5) row_dot_ok [OF _ _ assms(1-4), where ops = ops]
    by (auto simp: naive_thread_def store_acc_def acc_def Let_def)
  then have "my_naive_gemm_kernel ops A B M N K order (by, bx) C = rfold (store_acc M N 16 16 by bx acc) order C"
    unfolding my_naive_gemm_kernel_def by simp (rule rfold_cong_set)
  also have "\<dots> = Inr (overwrite (dot_at ops A B M N K) (block_cells M N 16 16 (by, bx)) C)"
    by (rule store_phase [OF _ _ _ _ assms(6-8)]) (use assms(5) in \<open>simp_all add: acc_def\<close>)
  finally show ?thesis .
qed

text \<open>
  With a device that does as asked, the plugin returns 0, frees its buffers and leaves the product in
  \<open>C\<close>, in every order of threads and blocks.
\<close>

lemma amp_user_gemm_ok:
  fixes ops :: "('f, 'f) fops"
  assumes "\<forall>i<3. pe_malloc env i" "\<forall>i<3. pe_copy env i" "pe_sync env" and "length (pe_fresh env 2) = M * N" "M * N < 2 ^ 31"
    and "M * K \<le> length A" "length A < 2 ^ 31" "K * N \<le> length B" "length B < 2 ^ 31"
    and "set order = {0..<256}" and "set blocks = grid_blocks (ceil_div M 16) (ceil_div N 16)"
  shows "amp_user_gemm_fp32 env ops order blocks A B C M N K =
    Inr \<lparr>oc_rc = 0, oc_live = [], oc_C = map (dot_at ops A B M N K) [0..<M * N]\<rparr>"
proof -
  have "rfold (my_naive_gemm_kernel ops A B M N K order) blocks (pe_fresh env 2) =
    Inr (overwrite (dot_at ops A B M N K) (\<Union>blk\<in>set blocks. block_cells M N 16 16 blk) (pe_fresh env 2))"
  proof (rule rfold_overwrite [OF _ assms(4)])
    fix blk :: "nat \<times> nat" and ys :: "'f list" assume "length ys = M * N"
    then show "my_naive_gemm_kernel ops A B M N K order blk ys =
      Inr (overwrite (dot_at ops A B M N K) (block_cells M N 16 16 blk) ys)"
      using my_naive_gemm_kernel_ok [OF assms(6-10), where ops = ops and C = ys and L = "M * N"] assms(5) by (cases blk) simp
  qed
  moreover have "(\<Union>blk\<in>set blocks. block_cells M N 16 16 blk) = {0..<M * N}"
    by (rule block_cells_cover) (simp_all add: assms(11))
  ultimately show ?thesis
    using assms(1-4) by (simp add: amp_user_gemm_fp32_def Let_def overwrite_all)
qed

text \<open>An allocation that fails leaves the buffers allocated before it on the device.\<close>

lemma amp_user_gemm_leaks:
  "pe_malloc env 0 \<Longrightarrow> \<not> pe_malloc env 1 \<Longrightarrow>
    amp_user_gemm_fp32 env ops order blocks A B C M N K = Inr \<lparr>oc_rc = 1, oc_live = [0], oc_C = C\<rparr>"
  "pe_malloc env 0 \<Longrightarrow> pe_malloc env 1 \<Longrightarrow> \<not> pe_malloc env 2 \<Longrightarrow>
    amp_user_gemm_fp32 env ops order blocks A B C M N K = Inr \<lparr>oc_rc = 1, oc_live = [0, 1], oc_C = C\<rparr>"
  by (simp_all add: amp_user_gemm_fp32_def)

text \<open>A copy back that fails is reported as success: \<open>C\<close> keeps what the caller had in it.\<close>

lemma amp_user_gemm_lost_copy:
  assumes "amp_user_gemm_fp32 env ops order blocks A B C M N K = Inr oc" and "\<not> pe_copy env 2"
  shows "oc_C oc = C"
  using assms by (auto simp: amp_user_gemm_fp32_def Let_def split: if_splits)


section \<open>Floats\<close>

text \<open>
  Values of \<open>float\<close> with the special ones, as far as the comparison on the host uses them. Finite values
  are reals: rounding is not modelled, and no finite result overflows.
\<close>

datatype flt = NaN | PInf | NInf | Fin real

fun flt_less :: "flt \<Rightarrow> flt \<Rightarrow> bool" where
  "flt_less NaN y = False"
| "flt_less x NaN = False"
| "flt_less PInf y = False"
| "flt_less x NInf = False"
| "flt_less NInf y = True"
| "flt_less x PInf = True"
| "flt_less (Fin x) (Fin y) = (x < y)"

text \<open>\<open>std::max\<close>: its first argument unless that is less than the second.\<close>

definition flt_max :: "flt \<Rightarrow> flt \<Rightarrow> flt" where
  "flt_max x y = (if flt_less x y then y else x)"

fun flt_abs :: "flt \<Rightarrow> flt" where
  "flt_abs NaN = NaN"
| "flt_abs PInf = PInf"
| "flt_abs NInf = PInf"
| "flt_abs (Fin x) = Fin \<bar>x\<bar>"

fun flt_sub :: "flt \<Rightarrow> flt \<Rightarrow> flt" where
  "flt_sub (Fin x) (Fin y) = Fin (x - y)"
| "flt_sub NaN y = NaN"
| "flt_sub x NaN = NaN"
| "flt_sub PInf PInf = NaN"
| "flt_sub NInf NInf = NaN"
| "flt_sub PInf y = PInf"
| "flt_sub NInf y = NInf"
| "flt_sub x PInf = NInf"
| "flt_sub x NInf = PInf"

text \<open>Division of an absolute value by a number that is at least 1.\<close>

fun flt_div :: "flt \<Rightarrow> flt \<Rightarrow> flt" where
  "flt_div (Fin x) (Fin y) = Fin (x / y)"
| "flt_div (Fin x) PInf = Fin 0"
| "flt_div PInf (Fin y) = PInf"
| "flt_div x y = NaN"

section \<open>The validator\<close>

text \<open>The loop over the elements: the largest absolute and the largest relative error.\<close>

definition rel_err :: "flt \<Rightarrow> flt \<Rightarrow> flt" where
  "rel_err c r = flt_div (flt_abs (flt_sub c r)) (flt_max (Fin 1) (flt_abs r))"

definition max_errs :: "flt list \<Rightarrow> flt list \<Rightarrow> flt \<times> flt" where
  "max_errs C ref = fold (\<lambda>(c, r) (ma, mr). (flt_max ma (flt_abs (flt_sub c r)), flt_max mr (rel_err c r)))
     (zip C ref) (Fin 0, Fin 0)"

definition cpu_reference_gemm :: "('h, 'f) fops \<Rightarrow> 'h list \<Rightarrow> 'h list \<Rightarrow> nat \<Rightarrow> nat \<Rightarrow> nat \<Rightarrow> 'f list \<Rightarrow> 'f list res" where
  "cpu_reference_gemm ops A B M N K C =
     rfold (\<lambda>i. rfold (\<lambda>j C. rbind (row_dot ops A B N K i j) (\<lambda>acc. buf_set (i * N + j) acc C)) [0..<N]) [0..<M] C"

text \<open>\<open>vector v(a * b)\<close>: the product is an \<open>int\<close>, and a negative one is no size.\<close>

definition vec_size :: "int \<Rightarrow> int \<Rightarrow> nat res" where
  "vec_size a b = rbind (int_val (a * b)) (\<lambda>n. if n < 0 then Inl Length_error else Inr (nat n))"

text \<open>\<open>(float)(rand() % 2000 - 1000) / 100.0f\<close> for the value \<open>n\<close> of \<open>rand()\<close>.\<close>

definition rand_float :: "nat \<Rightarrow> flt" where
  "rand_float n = Fin (real_of_int (int (n mod 2000) - 1000) / 100)"

type_synonym plugin = "flt list \<Rightarrow> flt list \<Rightarrow> flt list \<Rightarrow> int \<Rightarrow> int \<Rightarrow> int \<Rightarrow> (int \<times> flt list) res"

text \<open>
  From the allocation of the matrices on: the exit code and, when the plugin returned 0, the error and
  the matrix that go into the dump. \<open>rnd\<close> are the values of \<open>rand()\<close> after \<open>srand(seed)\<close>.
\<close>

definition validate :: "plugin \<Rightarrow> (nat \<Rightarrow> nat) \<Rightarrow> (flt, flt) fops \<Rightarrow> int \<Rightarrow> int \<Rightarrow> int \<Rightarrow> (int \<times> (flt \<times> flt list) option) res" where
  "validate fn rnd ops M N K =
     rbind (vec_size M K) (\<lambda>mk. rbind (vec_size K N) (\<lambda>kn. rbind (vec_size M N) (\<lambda>mn.
       let A = map (\<lambda>i. rand_float (rnd i)) [0..<mk];
           B = map (\<lambda>i. rand_float (rnd (mk + i))) [0..<kn]
       in rbind (cpu_reference_gemm ops A B (nat M) (nat N) (nat K) (replicate mn (Fin 0))) (\<lambda>ref.
          rbind (fn A B (replicate mn (Fin 0)) M N K) (\<lambda>(rc, C).
            if rc \<noteq> 0 then Inr (1, None)
            else let mr = snd (max_errs C ref)
              in Inr (if flt_less mr (Fin (1 / 1000)) then 0 else 1, Some (mr, C)))))))"

text \<open>\<open>std::atoi\<close>: white space, a sign, digits; a value that is no \<open>int\<close> is undefined.\<close>

definition is_space :: "char \<Rightarrow> bool" where
  "is_space c \<longleftrightarrow> c \<in> {CHR '' '', CHR 0x09, CHR 0x0A, CHR 0x0B, CHR 0x0C, CHR 0x0D}"

definition is_digit :: "char \<Rightarrow> bool" where
  "is_digit c \<longleftrightarrow> 48 \<le> (of_char c :: nat) \<and> (of_char c :: nat) \<le> 57"

definition digits_val :: "string \<Rightarrow> int" where
  "digits_val s = fold (\<lambda>c n. 10 * n + (of_char c - 48)) (takeWhile is_digit s) 0"

definition atoi :: "string \<Rightarrow> int res" where
  "atoi s = (case dropWhile is_space s of
       [] \<Rightarrow> Inr 0
     | c # cs \<Rightarrow> int_val (if c = CHR ''-'' then - digits_val cs
         else if c = CHR ''+'' then digits_val cs else digits_val (c # cs)))"

definition dim_arg :: "string list \<Rightarrow> nat \<Rightarrow> int res" where
  "dim_arg argv i = (if length argv > 5 then atoi (argv ! i) else Inr 96)"

text \<open>\<open>dlopen\<close> and \<open>dlsym\<close> are the dynamic loader; \<open>rnd seed\<close> is the sequence that \<open>srand\<close> starts.\<close>

definition validator_main :: "(string \<Rightarrow> 'lib option) \<Rightarrow> ('lib \<Rightarrow> string \<Rightarrow> plugin option) \<Rightarrow> (u32 \<Rightarrow> nat \<Rightarrow> nat) \<Rightarrow>
    (flt, flt) fops \<Rightarrow> string list \<Rightarrow> (int \<times> (string \<times> flt \<times> flt list) option) res" where
  "validator_main dlopen dlsym rnd ops argv =
     (if length argv < 3 then Inr (2, None)
      else rbind (dim_arg argv 3) (\<lambda>M. rbind (dim_arg argv 4) (\<lambda>N. rbind (dim_arg argv 5) (\<lambda>K.
        rbind (if length argv > 6 then atoi (argv ! 6) else Inr 42) (\<lambda>seed.
          case dlopen (argv ! 1) of None \<Rightarrow> Inr (1, None)
          | Some lib \<Rightarrow> (case dlsym lib ''amp_user_gemm_fp32'' of None \<Rightarrow> Inr (1, None)
            | Some fn \<Rightarrow> rbind (validate fn (rnd (word_of_int seed)) ops M N K) (\<lambda>(code, dump).
                Inr (code, map_option (\<lambda>(mr, C). (argv ! 2, mr, C)) dump))))))))"

section \<open>What the verdict means\<close>

lemma flt_less_max:
  "m \<noteq> NaN \<Longrightarrow> flt_max m e \<noteq> NaN \<and> (flt_less (flt_max m e) t \<longleftrightarrow> flt_less m t \<and> (e = NaN \<or> flt_less e t))"
  by (cases m; cases e; cases t) (auto simp: flt_max_def)

lemma max_errs_less:
  "flt_less (snd (max_errs C ref)) t \<longleftrightarrow> flt_less (Fin 0) t \<and> (\<forall>(c, r)\<in>set (zip C ref). rel_err c r = NaN \<or> flt_less (rel_err c r) t)"
proof -
  have "flt_less (snd (fold (\<lambda>(c, r) (ma, mr). (flt_max ma (flt_abs (flt_sub c r)), flt_max mr (rel_err c r))) xs (a, m))) t \<longleftrightarrow>
      flt_less m t \<and> (\<forall>(c, r)\<in>set xs. rel_err c r = NaN \<or> flt_less (rel_err c r) t)" if "m \<noteq> NaN" for xs a m
    using that
  proof (induction xs arbitrary: a m)
    case (Cons x xs)
    obtain c r where x: "x = (c, r)" by force
    from flt_less_max [OF Cons.prems, of "rel_err c r"] show ?case by (auto simp: x Cons.IH)
  qed simp
  then show ?thesis by (simp add: max_errs_def)
qed

lemma cpu_reference_gemm_ok:
  fixes ops :: "('h, 'f) fops"
  assumes "M * K \<le> length A" "length A < 2 ^ 31" "K * N \<le> length B" "length B < 2 ^ 31" and "length C = M * N" "M * N < 2 ^ 31"
  shows "cpu_reference_gemm ops A B M N K C = Inr (map (dot_at ops A B M N K) [0..<M * N])"
proof -
  let ?g = "dot_at ops A B M N K"
  have cell: "rbind (row_dot ops A B N K i j) (\<lambda>acc. buf_set (i * N + j) acc ys) = Inr (overwrite ?g {i * N + j} ys)"
    if "i < M" "j < N" "length ys = M * N" for i j and ys :: "'f list"
  proof -
    have p: "i * N + j < M * N" by (rule flat_index_less [OF that(1,2)])
    have "?g (i * N + j) = dot ops A B M N K i j" using that(2) by (simp add: dot_at_def)
    then show ?thesis
      using row_dot_ok [OF that(1,2) assms(1-4), of ops] p that(3) assms(6) overwrite_single [of "i * N + j" ys ?g] by simp
  qed
  have row: "rfold (\<lambda>j C. rbind (row_dot ops A B N K i j) (\<lambda>acc. buf_set (i * N + j) acc C)) [0..<N] ys =
      Inr (overwrite ?g (\<Union>j\<in>set [0..<N]. {i * N + j}) ys)" if "i < M" "length ys = M * N" for i and ys :: "'f list"
    by (rule rfold_overwrite [OF _ that(2)]) (use cell that in auto)
  have "cpu_reference_gemm ops A B M N K C = Inr (overwrite ?g (\<Union>i\<in>set [0..<M]. \<Union>j\<in>set [0..<N]. {i * N + j}) C)"
    unfolding cpu_reference_gemm_def by (rule rfold_overwrite [OF _ assms(5)]) (use row in auto)
  moreover have "{0..<M * N} \<subseteq> (\<Union>i\<in>set [0..<M]. \<Union>j\<in>set [0..<N]. {i * N + j})"
  proof
    fix p assume "p \<in> {0..<M * N}"
    then have "p < M * N" by simp
    then have "p div N < M" "p mod N < N" "p = p div N * N + p mod N"
      by (simp_all add: less_mult_imp_div_less) (cases "N = 0"; simp)
    then show "p \<in> (\<Union>i\<in>set [0..<M]. \<Union>j\<in>set [0..<N]. {i * N + j})" by fastforce
  qed
  ultimately show ?thesis using assms(5) by (simp add: overwrite_all)
qed

text \<open>The matrices the validator draws.\<close>

definition drawn :: "(nat \<Rightarrow> nat) \<Rightarrow> nat \<Rightarrow> nat \<Rightarrow> flt list" where
  "drawn rnd first n = map (\<lambda>i. rand_float (rnd (first + i))) [0..<n]"

text \<open>
  The exit code: 0 exactly when the plugin returns 0 and no element has a relative error of 1/1000 or
  more. An element whose error is no number does not count against the plugin.
\<close>

lemma validate_exit:
  fixes M N K :: nat and ops :: "(flt, flt) fops"
  assumes "M * K < 2 ^ 31" "K * N < 2 ^ 31" "M * N < 2 ^ 31"
    and "fn (drawn rnd 0 (M * K)) (drawn rnd (M * K) (K * N)) (replicate (M * N) (Fin 0)) (int M) (int N) (int K) = Inr (rc, C)"
    and "length C = M * N"
  defines "want \<equiv> dot_at ops (drawn rnd 0 (M * K)) (drawn rnd (M * K) (K * N)) M N K"
  shows "\<exists>code dump. validate fn rnd ops (int M) (int N) (int K) = Inr (code, dump) \<and> (code = 0 \<or> code = 1) \<and>
    (code = 0 \<longleftrightarrow> rc = 0 \<and> (\<forall>p<M * N. rel_err (C ! p) (want p) = NaN \<or> flt_less (rel_err (C ! p) (want p)) (Fin (1 / 1000))))"
proof -
  have "vec_size (int a) (int b) = Inr (a * b)" if "a * b < 2 ^ 31" for a b
  proof -
    have "int a * int b < 2 ^ 31" using that by (simp flip: of_nat_mult)
    moreover have "\<not> int a * int b < 0" by (simp add: not_less)
    ultimately show ?thesis by (simp add: vec_size_def nat_mult_distrib)
  qed
  note vec = this [OF assms(1)] this [OF assms(2)] this [OF assms(3)]
  let ?A = "drawn rnd 0 (M * K)" and ?B = "drawn rnd (M * K) (K * N)"
  have "cpu_reference_gemm ops ?A ?B M N K (replicate (M * N) (Fin 0)) = Inr (map want [0..<M * N])"
    unfolding want_def by (rule cpu_reference_gemm_ok) (use assms(1-3) in \<open>simp_all add: drawn_def\<close>)
  then have run: "validate fn rnd ops (int M) (int N) (int K) = (if rc \<noteq> 0 then Inr (1, None)
      else Inr (if flt_less (snd (max_errs C (map want [0..<M * N]))) (Fin (1 / 1000)) then 0 else 1,
        Some (snd (max_errs C (map want [0..<M * N])), C)))"
    using assms(4) by (simp add: validate_def vec Let_def drawn_def)
  have "set (zip C (map want [0..<M * N])) = {(C ! p, want p) |p. p < M * N}"
    using assms(5) by (auto simp: set_zip)
  then have "flt_less (snd (max_errs C (map want [0..<M * N]))) (Fin (1 / 1000)) \<longleftrightarrow>
      (\<forall>p<M * N. rel_err (C ! p) (want p) = NaN \<or> flt_less (rel_err (C ! p) (want p)) (Fin (1 / 1000)))"
    unfolding max_errs_less by auto
  with run show ?thesis by (cases "rc = 0") auto
qed

lemma rel_err_same: "rel_err x x = Fin 0 \<or> rel_err x x = NaN"
  by (cases x) (auto simp: rel_err_def flt_max_def)

text \<open>
  The example plugin on a device that does as asked passes, for any sizes whose matrices have fewer
  than \<open>2 ^ 31\<close> elements and any arithmetic: kernel and reference add in the same order.
\<close>

theorem example_passes:
  fixes M N K :: nat and ops :: "(flt, flt) fops"
  assumes "M * K < 2 ^ 31" "K * N < 2 ^ 31" "M * N < 2 ^ 31"
    and "\<forall>i<3. pe_malloc env i" "\<forall>i<3. pe_copy env i" "pe_sync env" "length (pe_fresh env 2) = M * N"
    and "set order = {0..<256}" "set blocks = grid_blocks (ceil_div M 16) (ceil_div N 16)"
  defines "fn \<equiv> \<lambda>A B C m n k. rbind (amp_user_gemm_fp32 env ops order blocks A B C (nat m) (nat n) (nat k)) (\<lambda>oc. Inr (oc_rc oc, oc_C oc))"
  shows "\<exists>dump. validate fn rnd ops (int M) (int N) (int K) = Inr (0, dump)"
proof -
  let ?A = "drawn rnd 0 (M * K)" and ?B = "drawn rnd (M * K) (K * N)"
  let ?C = "map (dot_at ops ?A ?B M N K) [0..<M * N]"
  have "fn ?A ?B (replicate (M * N) (Fin 0)) (int M) (int N) (int K) = Inr (0, ?C)"
    unfolding fn_def by (subst amp_user_gemm_ok) (use assms in \<open>simp_all add: drawn_def\<close>)
  from validate_exit [where fn = fn and C = ?C and rc = 0 and ops = ops, OF assms(1-3) this] obtain code dump where
    v: "validate fn rnd ops (int M) (int N) (int K) = Inr (code, dump)"
    "code = 0 \<longleftrightarrow> (\<forall>p<M * N. rel_err (?C ! p) (dot_at ops ?A ?B M N K p) = NaN \<or>
      flt_less (rel_err (?C ! p) (dot_at ops ?A ?B M N K p)) (Fin (1 / 1000)))" by auto
  have "rel_err (?C ! p) (dot_at ops ?A ?B M N K p) = NaN \<or>
      flt_less (rel_err (?C ! p) (dot_at ops ?A ?B M N K p)) (Fin (1 / 1000))" if "p < M * N" for p
    using rel_err_same [of "dot_at ops ?A ?B M N K p"] that by auto
  with v(2) have "code = 0" by blast
  with v(1) show ?thesis by blast
qed

text \<open>A plugin that returns nothing but NaN passes as well.\<close>

theorem nan_passes:
  fixes M N K :: nat and ops :: "(flt, flt) fops"
  assumes "M * K < 2 ^ 31" "K * N < 2 ^ 31" "M * N < 2 ^ 31"
  shows "\<exists>dump. validate (\<lambda>A B C m n k. Inr (0, replicate (length C) NaN)) rnd ops (int M) (int N) (int K) = Inr (0, dump)"
proof -
  have "rel_err NaN r = NaN" for r by (cases r) (simp_all add: rel_err_def flt_max_def)
  with validate_exit [OF assms, where fn = "\<lambda>A B C m n k. Inr (0, replicate (length C) NaN)" and rnd = rnd and rc = 0
      and C = "replicate (M * N) NaN" and ops = ops]
  show ?thesis by auto
qed

text \<open>The command line: too few arguments, a library or a symbol that is not there.\<close>

lemma validator_main_exits:
  "length argv < 3 \<Longrightarrow> validator_main dlopen dlsym rnd ops argv = Inr (2, None)"
  "3 \<le> length argv \<Longrightarrow> length argv \<le> 5 \<Longrightarrow> dlopen (argv ! 1) = None \<Longrightarrow>
    validator_main dlopen dlsym rnd ops argv = Inr (1, None)"
  "3 \<le> length argv \<Longrightarrow> length argv \<le> 5 \<Longrightarrow> dlopen (argv ! 1) = Some lib \<Longrightarrow> dlsym lib ''amp_user_gemm_fp32'' = None \<Longrightarrow>
    validator_main dlopen dlsym rnd ops argv = Inr (1, None)"
  by (simp_all add: validator_main_def dim_arg_def)

lemma atoi_examples: "atoi '' -12x'' = Inr (- 12)" "atoi ''512'' = Inr 512" "atoi ''abc'' = Inr 0" "atoi ''2147483648'' = Inl Overflow_UB"
  by code_simp+

end
