(* ===== verification/Spec2Isabelle.thy ===== *)
theory Spec2Isabelle
  imports Page_Pool Portable Shard_Stack Page_Pool_Numa Scheduler_Liveness Scheduler_Starvation Sha256_Vector Cache_Fast
    Cache_Async Speculative Fp8 Autotune Device Collective_Oneccl Flash_Attn_Properties Gemm_Tuning Plugin
begin

text \<open>
  A verification development for AMP, a C++ run-time library for serving language models on
  GPUs. File names below are relative to the repository.

  \<^bold>\<open>The program.\<close> A \<open>Scheduler\<close> (src/scheduler.cpp) batches requests and takes KV cache pages from
  a page pool. There are three pools: \<open>PagePool\<close> (src/pool.cpp, one mutex), \<open>PagePoolFast\<close>
  (src/pool_fast.cpp, lock-free shards) and \<open>PagePoolNUMA\<close> (src/pool_numa.cpp, one fast pool per
  node). Compiled kernels are kept in a persistent store \<open>CacheStore\<close> (src/cache.cpp), keyed by a
  fingerprint computed with a SHA-256 of its own, with an in-memory tier in front of it
  (\<open>CacheStoreFast\<close>, src/cache_fast.cpp) and a write-behind variant (\<open>CacheStoreAsync\<close>,
  src/cache_async.cpp). Speculative decoding (src/speculative.cpp) verifies draft tokens. The
  numeric side has the 8-bit float conversions (include/fp8.hpp), the autotuner
  (include/autotune_sh.hpp), the matrix kernels (kernels/matmul.cu, kernels/matmul_sycl.cpp), the
  vendor back end (src/gemm_vendor.cpp), device detection (src/device.cpp), collective
  communication (src/collective.cpp) and flash attention (kernels/flash_attn.cu).

  \<^bold>\<open>Conventions.\<close> Classes are records and their methods functions on the record. A call that may
  throw, abort or run into undefined behaviour returns \<open>fault + 'a\<close>; the faults are those of the
  theory Prelude, and a vector access out of range, a use after free, a null dereference and a
  signed overflow are faults, never unspecified values. Loops that cannot fail are structural
  recursion or the combinator \<open>rfold\<close>. Statements named by an identifier C1, C2, ... are the
  properties of the development; the others are its library.

  \<^bold>\<open>Theories and what they show.\<close>

  \<^item> Prelude: machine types, faults, the result monad, checked vectors, loops. Page_Source: the
    locale \<open>page_source\<close>, the contract a pool offers to the owners of its pages (what \<open>alloc\<close>
    hands out is disjoint from what is held, \<open>free_pages\<close> gives it back). It is interpreted on each
    of the three pools, and the ownership invariant of the scheduler rests on the interpretation.

  \<^item> Page_Pool: constructor, destructor, \<open>alloc\<close>, \<open>free_pages\<close>, \<open>touch\<close>, \<open>leak_scan\<close>, \<open>stats\<close>. Every
    branch of the operations and the consistency of all reachable states.

  \<^item> Page_Pool_Fast: the same operations on the shards, their free lists threaded through
    \<open>next_\<close>, with the 64-bit clock kept at its width. Shard_Stack: the atomic accesses of one shard as
    an interleaving of threads; exclusiveness of pages in runs without the ABA pattern, and the
    run with it in which two threads own one page.

  \<^item> Page_Pool_Numa: the nodes, the mapping between global and local page numbers, the fallback
    to other nodes. The node count and the node of a thread are arguments (libnuma).

  \<^item> Scheduler: a heap of sequences, the queues, \<open>add_request\<close>, \<open>abort_request\<close>, \<open>schedule\<close>,
    \<open>step_complete\<close> and their helpers, over the fast pool. Scheduler_Properties: an inductive relation
    of calls, what is invariant under it (single ownership of pages, queue limits, first-come order
    of the queues, no undefined behaviour), the functional description of each call, and the runs in which a request starves,
    pages leak, a destroyed sequence is used, or a page in use is reclaimed. Scheduler_Liveness: when the
    pool has pages for the requests in the queues, rounds of \<open>schedule\<close> and \<open>step_complete\<close> complete all of
    them; the measure is the number of tokens left to process. Scheduler_Starvation: the two kinds of
    request that no number of rounds completes, an empty prompt and one that is too large for the pool.

  \<^item> Sha256: the streaming hash on 32-bit words, equal to padding followed by a fold of the
    compression function; Sha256_Vector evaluates a published test vector.

  \<^item> Blob_Store: the locale of a key-value store of byte strings, interpreted on the disk store
    (\<open>disk\<close>, in Cache_Store). Cache_Store: fingerprint, entry header with checksum, \<open>get\<close>, and \<open>put\<close> as the
    sequence of file operations it issues, so that a crash between them can be stated.
    Cache_Fast: the clock-evicted tier refines the disk store, and the bound on its size.
    Cache_Async: clients and writer thread as a step relation; what \<open>flush\<close> guarantees and how
    notifications are lost.

  \<^item> Speculative: \<open>verify\<close>, \<open>verify_greedy\<close>, \<open>medusa_verify\<close>, sampling, softmax with its cache. The
    accepted prefix, how far the emitted distribution is from the target's, and that greedy
    verification emits the target's own tokens.

  \<^item> Fp8: both formats and both directions on exact rationals; the round trip over all codes and
    the error of rounding. Autotune: successive halving and grid search.

  \<^item> Gpu_Exec: barriers and schedules, \<open>overwrite\<close> of disjoint writes, the warm-up of the tuners. Gemm: the
    tiled FP32 kernel and its dispatch. Gemm_Tensor: the tensor-core kernel for BF16, CUDA and HIP, and the
    capability checks; the second text of the kernel, for HIP, is shown to be the first with 64 lanes. Gemm_Sycl: the tiled SYCL kernel, the kernel on matrix units and
    their launcher. Each kernel computes the product under every order of threads and blocks.

  \<^item> Gemm_Vendor: descriptor, construction and workspace, dispatch, rocBLAS path, host fallback, batches.
    Gemm_Cublas: the cuBLASLt path on the list of descriptors alive, and the FP8 launcher on
    the three back ends. The back ends compute the same elements; a failing call of the
    library leaves descriptors behind. Gemm_Tuning: the autotuners of all formats; the FP32 one returns a
    configuration of least time.

  \<^item> Flash_Attn: the attention kernel as its phases between barriers, with the online softmax and
    grouped heads, dispatch, launchers, the autotuner and the warp reductions.
    Flash_Attn_Properties: the distance of its result from attention with an exact mask, the
    log-sum-exp it writes, and the tiles that stay unloaded when a block has rows without a query.

  \<^item> Device: capabilities and runtime information from what the vendor reports, and their
    agreement with the checks of the kernels. Collective: the NCCL/RCCL back end and the stub, the
    life of communicator handles on an explicit heap, and the locale \<open>comm_backend\<close>, the contract of
    initialisation and destruction from which every call sequence keeps the handles
    apart. Collective_Oneccl: the oneCCL back end, a second interpretation of that locale.

  \<^item> Portable: the memory helpers of the SYCL and CPU back ends. What a pool built on them looks
    like when allocations fail, and which synchronisation a copy on a queue needs.

  \<^item> Plugin: the example of a user's kernel (examples/user_plugin_example.cu) and the program that
    validates such a kernel (tests/amp_validate_kernel.cpp). When it exits with 0, that the example passes
    whatever the arithmetic is, and that a kernel returning NaN does too.

  \<^bold>\<open>Termination, bounds, idealisations.\<close> All functions are total except the loop of successive
  halving, a partial function whose result exists when the reduction factor is at least two (and
  does not when it is in [1, 2)). No fuel is used; the number of rounds in \<open>serve\<close> is a bound that is
  proved to be enough. Kernel indices are C \<open>int\<close>: the theorems on
  kernels assume that the products of dimensions stay below \<open>2 ^ 31\<close>, and an overflow is a fault of
  the model. Floating point is \<open>real\<close> in Speculative, Flash_Attn, Gemm_Vendor, Gemm_Cublas and the autotuners (the
  mask value \<open>-1e30f\<close> is \<open>- (10 ^ 30)\<close>), exact rationals in Fp8, and an uninterpreted addition and
  multiplication in Gemm, Gemm_Tensor and Gemm_Sycl, where the order of operations is part of the
  statement; rounding is not modelled. Shared tiles have fixed sizes and the theorems
  on kernels assume them. The lanes of one row run in lock step in Flash_Attn; a lemma shows
  what happens when they do not. Locked methods are atomic; the lock-free and asynchronous
  parts are interleavings under sequential consistency.

  \<^bold>\<open>Parameters.\<close> The device allocator, the clock, the random generator and its distributions,
  \<open>std::sort\<close>, the benchmark of the autotuner, the matrix instructions, the conversions between
  float formats in Flash_Attn, cuBLASLt, rocBLAS, NCCL, oneCCL and the answers of the vendor runtimes are
  arguments; what is assumed of them stands in the statements.

  \<^bold>\<open>Not modelled.\<close> The macros of include/portable.hpp that rename calls of the CUDA and HIP runtimes and those of
  include/profiler.hpp: each expands to one vendor call. Declarations of functions and classes in the headers
  whose definitions are modelled, and the type aliases of the back ends. FP8 products are computed by
  the vendor libraries. The other tests, the benchmarks, tools, Python scripts and documentation drive the components
  above or read their output.
\<close>

end
